(* ===== verification/Go_Time.thy ===== *)
theory Go_Time
  imports Go_Prelude
begin

text \<open>
  The part of Go's \<open>time\<close> package the program uses: \<open>time.Time\<close> as an instant with a zone,
  \<open>time.Unix\<close>, \<open>Time.UTC\<close>, \<open>Time.IsZero\<close> and \<open>Time.Format(time.RFC3339Nano)\<close> on a UTC time.
  The instant is counted in seconds from January 1, year 1, 00:00:00 UTC, as the package
  itself does, so that \<open>time.Time{}\<close> is the record of zeros. The text of a UTC time
  determines the instant (\<open>format_rfc3339nano_inj\<close>), which is what makes it usable as a
  component of an event's identity.
\<close>

section \<open>Times\<close>

record Time =
  t_sec :: int   \<comment> \<open>seconds since January 1, year 1, 00:00:00 UTC\<close>
  t_nsec :: int  \<comment> \<open>nanoseconds within the second\<close>
  t_zone :: int  \<comment> \<open>offset of the zone the time is shown in, seconds east of UTC\<close>

definition zeroTime :: Time where
  "zeroTime = \<lparr>t_sec = 0, t_nsec = 0, t_zone = 0\<rparr>"

definition IsZero :: "Time \<Rightarrow> bool" where
  "IsZero t \<longleftrightarrow> t_sec t = 0 \<and> t_nsec t = 0"

definition time_wf :: "Time \<Rightarrow> bool" where
  "time_wf t \<longleftrightarrow> 0 \<le> t_nsec t \<and> t_nsec t < 1000000000"

definition UTC :: "Time \<Rightarrow> Time" where
  "UTC t = t\<lparr>t_zone := 0\<rparr>"

definition In_zone :: "Time \<Rightarrow> int \<Rightarrow> Time" where
  "In_zone t off = t\<lparr>t_zone := off\<rparr>"

definition same_instant :: "Time \<Rightarrow> Time \<Rightarrow> bool" where
  "same_instant t u \<longleftrightarrow> t_sec t = t_sec u \<and> t_nsec t = t_nsec u"

text \<open>\<open>unixToInternal\<close>: the seconds from year 1 to January 1, 1970.\<close>

definition unixToInternal :: int where
  "unixToInternal = 62135596800"

text \<open>\<open>time.Unix(sec, 0)\<close> in UTC; the addition is on \<open>int64\<close>.\<close>

definition time_Unix :: "int \<Rightarrow> Time" where
  "time_Unix s = \<lparr>t_sec = wrap64 (s + unixToInternal), t_nsec = 0, t_zone = 0\<rparr>"

section \<open>The civil calendar\<close>

definition isLeap :: "int \<Rightarrow> bool" where
  "isLeap y \<longleftrightarrow> y mod 4 = 0 \<and> (y mod 100 \<noteq> 0 \<or> y mod 400 = 0)"

text \<open>
  Day number (from January 1, year 1) to year and day of the year: 400-, 100-, 4- and
  1-year cycles; the last 100- and 1-year cycles are one day longer, hence the two caps.
\<close>

definition year_yday :: "int \<Rightarrow> int \<times> int" where
  "year_yday n =
     (let n400 = n div 146097; d = n mod 146097;
          n100 = min 3 (d div 36524); d = d - 36524 * n100;
          n4 = d div 1461; d = d - 1461 * n4;
          n1 = min 3 (d div 365); d = d - 365 * n1
      in (1 + 400 * n400 + 100 * n100 + 4 * n4 + n1, d))"

definition days_before :: "int list" where
  "days_before = [0, 31, 59, 90, 120, 151, 181, 212, 243, 273, 304, 334]"

definition days_before_month :: "bool \<Rightarrow> nat \<Rightarrow> int" where
  "days_before_month leap m =
     days_before ! (m - 1) + (if leap \<and> 2 < m then 1 else 0)"

text \<open>The month (1 to 12) is the last one that starts on or before the day.\<close>

fun month_from :: "bool \<Rightarrow> int \<Rightarrow> nat \<Rightarrow> nat" where
  "month_from leap yday 0 = 1"
| "month_from leap yday (Suc m) =
     (if m = 0 \<or> days_before_month leap (Suc m) \<le> yday then Suc m
      else month_from leap yday m)"

definition civil :: "int \<Rightarrow> int \<times> nat \<times> int" where
  "civil n =
     (let (y, yday) = year_yday n; m = month_from (isLeap y) yday 12
      in (y, m, yday - days_before_month (isLeap y) m + 1))"

section \<open>RFC 3339 text\<close>

text \<open>\<open>appendInt(b, x, width)\<close>: decimal, zero-padded to the width, with a leading minus.\<close>

definition pad_nat :: "nat \<Rightarrow> nat \<Rightarrow> string" where
  "pad_nat w n = replicate (w - length (dec n)) (CHR ''0'') @ dec n"

definition appendInt :: "int \<Rightarrow> nat \<Rightarrow> string" where
  "appendInt x w = (if x < 0 then CHR ''-'' # pad_nat w (nat (- x)) else pad_nat w (nat x))"

definition strip_zeros :: "string \<Rightarrow> string" where
  "strip_zeros s = rev (dropWhile (\<lambda>c. c = CHR ''0'') (rev s))"

text \<open>The \<open>.999999999\<close> fraction: nine digits without trailing zeros, nothing for zero.\<close>

definition appendNano :: "int \<Rightarrow> string" where
  "appendNano ns =
     (let f = strip_zeros (pad_nat 9 (nat ns)) in if f = [] then [] else CHR ''.'' # f)"

definition clock :: "int \<Rightarrow> string" where
  "clock s = appendInt (s div 3600) 2 @ '':'' @ appendInt (s mod 3600 div 60) 2
     @ '':'' @ appendInt (s mod 60) 2"

definition calendar :: "int \<Rightarrow> string" where
  "calendar n = (case civil n of (y, m, d) \<Rightarrow>
     appendInt y 4 @ ''-'' @ appendInt (int m) 2 @ ''-'' @ appendInt d 2)"

text \<open>\<open>t.Format(time.RFC3339Nano)\<close> for a time in UTC, whose zone is written \<open>Z\<close>.\<close>

definition format_rfc3339nano :: "Time \<Rightarrow> string" where
  "format_rfc3339nano t =
     calendar (t_sec t div 86400) @ ''T'' @ clock (t_sec t mod 86400)
     @ appendNano (t_nsec t) @ ''Z''"

section \<open>Lemmas: the calendar is injective\<close>

lemma year_yday_bounds:
  assumes "year_yday n = (y, d)"
  shows "0 \<le> d" and "d \<le> 365"
proof -
  define d1 where "d1 = n mod 146097"
  have d1: "0 \<le> d1" "d1 \<le> 146096" by (auto simp: d1_def)
  define d2 where "d2 = d1 - 36524 * min 3 (d1 div 36524)"
  have d2: "0 \<le> d2" "d2 \<le> 36524" using d1 by (auto simp: d2_def min_def)
  define d3 where "d3 = d2 - 1461 * (d2 div 1461)"
  have d3: "0 \<le> d3" "d3 \<le> 1460"
    by (simp_all add: d3_def minus_mult_div_eq_mod)
  have "d = d3 - 365 * min 3 (d3 div 365)"
    using assms unfolding year_yday_def Let_def d1_def d2_def d3_def by (simp only: prod.inject)
  with d3 show "0 \<le> d" and "d \<le> 365" by (auto simp: min_def)
qed

text \<open>The day number is a function of the year and the day of the year.\<close>

definition yday_inverse :: "int \<times> int \<Rightarrow> int" where
  "yday_inverse yd =
     (let y = fst yd - 1; r = y mod 400; q = r mod 100
      in 146097 * (y div 400) + 36524 * (r div 100) + 1461 * (q div 4) + 365 * (q mod 4) + snd yd)"

lemma div_mod_unique:
  fixes k a x :: int
  assumes "0 \<le> x" "x < k"
  shows "(k * a + x) div k = a" and "(k * a + x) mod k = x"
  using assms by (simp_all add: div_pos_pos_trivial mod_pos_pos_trivial)

lemma cycles_unique:
  fixes a b c e :: int
  assumes "0 \<le> b" "b \<le> 3" "0 \<le> c" "c \<le> 24" "0 \<le> e" "e \<le> 3"
  shows "(400 * a + (100 * b + (4 * c + e))) div 400 = a"
    and "(400 * a + (100 * b + (4 * c + e))) mod 400 = 100 * b + (4 * c + e)"
    and "(100 * b + (4 * c + e)) div 100 = b"
    and "(100 * b + (4 * c + e)) mod 100 = 4 * c + e"
    and "(4 * c + e) div 4 = c"
    and "(4 * c + e) mod 4 = e"
  using assms by (simp_all add: div_mod_unique)

lemma yday_inverse_year_yday: "yday_inverse (year_yday n) = n"
proof -
  define a where "a = n div 146097"
  define d1 where "d1 = n mod 146097"
  define b where "b = min 3 (d1 div 36524)"
  define d2 where "d2 = d1 - 36524 * b"
  define c where "c = d2 div 1461"
  define d3 where "d3 = d2 - 1461 * c"
  define e where "e = min 3 (d3 div 365)"
  have d1: "0 \<le> d1" "d1 \<le> 146096" by (auto simp: d1_def)
  then have b: "0 \<le> b" "b \<le> 3" by (auto simp: b_def pos_imp_zdiv_nonneg_iff)
  have d2: "0 \<le> d2" "d2 \<le> 36524" using d1 by (auto simp: d2_def b_def min_def)
  then have c: "0 \<le> c" "c \<le> 24" unfolding c_def by linarith+
  have d3: "0 \<le> d3" using d2 by (simp add: d3_def c_def minus_mult_div_eq_mod)
  then have e: "0 \<le> e" "e \<le> 3" by (auto simp: e_def pos_imp_zdiv_nonneg_iff)
  have yy: "year_yday n = (1 + (400 * a + (100 * b + (4 * c + e))), d3 - 365 * e)"
    unfolding year_yday_def Let_def e_def d3_def c_def d2_def b_def d1_def a_def
    by (simp only: add.assoc)
  have "yday_inverse (year_yday n) = 146097 * a + 36524 * b + 1461 * c + 365 * e + (d3 - 365 * e)"
    unfolding yy
    by (simp only: yday_inverse_def Let_def fst_conv snd_conv add_diff_cancel_left'
        cycles_unique [OF b c e])
  also have "\<dots> = 146097 * a + d1" by (simp add: d3_def d2_def)
  also have "\<dots> = n" by (simp add: a_def d1_def)
  finally show ?thesis .
qed

lemma year_yday_inj: "year_yday m = year_yday n \<Longrightarrow> m = n"
  by (metis yday_inverse_year_yday)

lemma month_from_bounds:
  "0 < k \<Longrightarrow> 1 \<le> month_from leap yday k \<and> month_from leap yday k \<le> k"
proof (induction k)
  case (Suc k)
  then show ?case by (cases k) auto
qed simp

lemma days_before_month_1 [simp]: "days_before_month leap (Suc 0) = 0"
  by (simp add: days_before_month_def days_before_def)

lemma month_from_start: "0 \<le> yday \<Longrightarrow> days_before_month leap (month_from leap yday k) \<le> yday"
  by (induction k) auto

lemma month_from_next:
  "month_from leap yday k < k \<Longrightarrow> yday < days_before_month leap (Suc (month_from leap yday k))"
proof (induction k)
  case (Suc k)
  then show ?case
    using month_from_bounds [of k leap yday] by (cases "month_from leap yday k < k") auto
qed simp

lemma month_length:
  assumes "1 \<le> m" "m < 12"
  shows "days_before_month leap (Suc m) - days_before_month leap m \<le> 32"
proof -
  from assms have "m = 1 \<or> m = 2 \<or> m = 3 \<or> m = 4 \<or> m = 5 \<or> m = 6 \<or> m = 7 \<or> m = 8
      \<or> m = 9 \<or> m = 10 \<or> m = 11" by arith
  then show ?thesis by (elim disjE) (simp_all add: days_before_month_def days_before_def)
qed

lemma month_from_end:
  assumes "yday \<le> 365"
  shows "yday - days_before_month leap (month_from leap yday 12) \<le> 61"
proof -
  let ?m = "month_from leap yday 12"
  have m: "1 \<le> ?m" "?m \<le> 12" using month_from_bounds [of 12 leap yday] by auto
  show ?thesis
  proof (cases "?m < 12")
    case True
    with month_from_next [OF True] month_length [OF m(1) True, of leap] show ?thesis by simp
  next
    case False
    with m have "?m = 12" by simp
    with assms show ?thesis by (simp add: days_before_month_def days_before_def)
  qed
qed

lemma civil_bounds:
  assumes "civil n = (y, m, d)"
  shows "1 \<le> m" and "m \<le> 12" and "1 \<le> d" and "d \<le> 62"
proof -
  obtain yday where yy: "year_yday n = (y, yday)" and m: "m = month_from (isLeap y) yday 12"
    and d: "d = yday - days_before_month (isLeap y) m + 1"
    using assms by (auto simp: civil_def Let_def split: prod.splits)
  from year_yday_bounds [OF yy] have "0 \<le> yday" "yday \<le> 365" .
  then show "1 \<le> d" and "d \<le> 62"
    using month_from_start [of yday "isLeap y" 12] month_from_end [of yday "isLeap y"]
    by (auto simp: d m)
  show "1 \<le> m" and "m \<le> 12"
    using month_from_bounds [of 12 "isLeap y" yday] by (auto simp: m)
qed

lemma civil_inj: "civil m = civil n \<Longrightarrow> m = n"
  by (rule year_yday_inj) (auto simp: civil_def Let_def split: prod.splits)

section \<open>Lemmas: the text is injective\<close>

lemma dec_val_pad_nat [simp]: "dec_val (pad_nat w n) = n"
  by (simp add: pad_nat_def dec_val_append)

lemma pad_nat_digits: "c \<in> set (pad_nat w n) \<Longrightarrow> is_dec_digit c"
  by (auto simp: pad_nat_def is_dec_digit_def dest: dec_digits)

lemma length_pad_nat: "n < 10 ^ w \<Longrightarrow> 0 < w \<Longrightarrow> length (pad_nat w n) = w"
  using dec_length [of n w] by (simp add: pad_nat_def)

lemma pad_nat_not_Nil [simp]: "pad_nat w n \<noteq> []"
  by (simp add: pad_nat_def)

lemma pad_nat_no_minus: "pad_nat w n \<noteq> CHR ''-'' # s"
proof
  assume "pad_nat w n = CHR ''-'' # s"
  then have "is_dec_digit (CHR ''-'')" by (intro pad_nat_digits [of _ w n]) simp
  then show False by (simp add: is_dec_digit_def)
qed

lemma pad_nat_inj: "pad_nat w m = pad_nat w n \<Longrightarrow> m = n"
  by (metis dec_val_pad_nat)

lemma appendInt_inj: "appendInt x w = appendInt y w \<Longrightarrow> x = y"
  using pad_nat_no_minus pad_nat_no_minus [symmetric]
  by (cases "x < 0"; cases "y < 0") (auto simp: appendInt_def dest!: pad_nat_inj)

lemma length_appendInt2: "0 \<le> x \<Longrightarrow> x < 100 \<Longrightarrow> length (appendInt x 2) = 2"
  by (simp add: appendInt_def length_pad_nat nat_less_iff)

lemma appendInt_nonneg_digits: "0 \<le> x \<Longrightarrow> c \<in> set (appendInt x w) \<Longrightarrow> is_dec_digit c"
  by (auto simp: appendInt_def dest: pad_nat_digits)

lemma appendInt_chars: "c \<in> set (appendInt x w) \<Longrightarrow> is_dec_digit c \<or> c = CHR ''-''"
  by (auto simp: appendInt_def dest: pad_nat_digits split: if_splits)

lemma clock_length: "0 \<le> s \<Longrightarrow> s < 86400 \<Longrightarrow> length (clock s) = 8"
  by (simp add: clock_def length_appendInt2)

lemma clock_inj:
  assumes eq: "clock s = clock s'" and s: "0 \<le> s" "s < 86400" and s': "0 \<le> s'" "s' < 86400"
  shows "s = s'"
proof -
  have len: "length (appendInt (u div 3600) 2) = 2" "length (appendInt (u mod 3600 div 60) 2) = 2"
    if "0 \<le> u" "u < 86400" for u :: int
    using that by (simp_all add: length_appendInt2)
  from eq have "s div 3600 = s' div 3600" "s mod 3600 div 60 = s' mod 3600 div 60" "s mod 60 = s' mod 60"
    unfolding clock_def by (auto simp: len [OF s] len [OF s'] dest!: appendInt_inj)
  moreover have "u mod 3600 = 60 * (u mod 3600 div 60) + u mod 60" for u :: int
    using mult_div_mod_eq [of 60 "u mod 3600"] by (simp add: mod_mod_cancel)
  ultimately have "s mod 3600 = s' mod 3600" by metis
  with \<open>s div 3600 = s' div 3600\<close> show ?thesis by (metis mult_div_mod_eq)
qed

lemma calendar_no_T: "CHR ''T'' \<notin> set (calendar n)"
  by (auto simp: calendar_def is_dec_digit_def split: prod.splits dest!: appendInt_chars)

lemma calendar_inj:
  assumes "calendar m = calendar n"
  shows "m = n"
proof -
  obtain y mo d where m: "civil m = (y, mo, d)" by (metis prod_cases3)
  obtain y' mo' d' where n: "civil n = (y', mo', d')" by (metis prod_cases3)
  note b = civil_bounds [OF m] civil_bounds [OF n]
  have len: "length (appendInt (int mo) 2) = 2" "length (appendInt (int mo') 2) = 2"
    "length (appendInt d 2) = 2" "length (appendInt d' 2) = 2"
    using b by (auto intro!: length_appendInt2)
  from assms have "y = y'" "mo = mo'" "d = d'"
    by (auto simp: calendar_def m n len dest!: appendInt_inj)
  with m n show ?thesis by (auto intro: civil_inj)
qed

lemma strip_zeros_restore: "s = strip_zeros s @ replicate (length s - length (strip_zeros s)) (CHR ''0'')"
proof -
  let ?P = "\<lambda>c. c = CHR ''0''"
  have "rev s = takeWhile ?P (rev s) @ dropWhile ?P (rev s)" by simp
  then have "s = strip_zeros s @ rev (takeWhile ?P (rev s))"
    unfolding strip_zeros_def by (metis rev_append rev_rev_ident)
  moreover have "rev (takeWhile ?P (rev s)) = replicate (length (takeWhile ?P (rev s))) (CHR ''0'')"
    by (subst replicate_length_same [symmetric, of "takeWhile ?P (rev s)"])
      (auto dest: set_takeWhileD)
  ultimately have *: "s = strip_zeros s @ replicate (length (takeWhile ?P (rev s))) (CHR ''0'')"
    by simp
  have "length s = length (strip_zeros s) + length (takeWhile ?P (rev s))"
    by (subst *) simp
  with * show ?thesis by simp
qed

lemma strip_zeros_inj: "strip_zeros s = strip_zeros t \<Longrightarrow> length s = length t \<Longrightarrow> s = t"
  by (metis strip_zeros_restore)

lemma appendNano_inj:
  assumes "appendNano a = appendNano b" and "0 \<le> a" "a < 1000000000" "0 \<le> b" "b < 1000000000"
  shows "a = b"
proof -
  have "strip_zeros (pad_nat 9 (nat a)) = strip_zeros (pad_nat 9 (nat b))"
    using assms(1) by (auto simp: appendNano_def Let_def split: if_splits)
  moreover have "length (pad_nat 9 n) = 9" if "n < 1000000000" for n
    using that length_pad_nat [of n 9] by simp
  then have "length (pad_nat 9 (nat a)) = length (pad_nat 9 (nat b))"
    using assms by simp
  ultimately have "pad_nat 9 (nat a) = pad_nat 9 (nat b)" by (rule strip_zeros_inj)
  then show ?thesis using assms by (auto dest!: pad_nat_inj)
qed

lemma append_marker_inj:
  assumes "x @ c # y = x' @ c # y'" and "c \<notin> set x" "c \<notin> set x'"
  shows "x = x' \<and> y = y'"
proof -
  have "takeWhile (\<lambda>d. d \<noteq> c) (z @ c # w) = z" if "c \<notin> set z" for z w
    using that by (metis (mono_tags, lifting) takeWhile_append2 takeWhile.simps(2) append_Nil2)
  with assms have "x = x'" by metis
  with assms(1) show ?thesis by simp
qed

theorem format_rfc3339nano_inj:
  assumes "format_rfc3339nano t = format_rfc3339nano u" and "time_wf t" and "time_wf u"
  shows "same_instant t u"
proof -
  from assms(1) have "calendar (t_sec t div 86400) @ CHR ''T'' #
        (clock (t_sec t mod 86400) @ appendNano (t_nsec t) @ ''Z'')
      = calendar (t_sec u div 86400) @ CHR ''T'' #
        (clock (t_sec u mod 86400) @ appendNano (t_nsec u) @ ''Z'')"
    by (simp only: format_rfc3339nano_def append.simps)
  from append_marker_inj [OF this calendar_no_T calendar_no_T]
  have cal: "calendar (t_sec t div 86400) = calendar (t_sec u div 86400)"
    and rest: "clock (t_sec t mod 86400) @ appendNano (t_nsec t) @ ''Z''
             = clock (t_sec u mod 86400) @ appendNano (t_nsec u) @ ''Z''"
    by simp_all
  from rest have clk: "clock (t_sec t mod 86400) = clock (t_sec u mod 86400)"
    and nano: "appendNano (t_nsec t) = appendNano (t_nsec u)"
    by (simp_all add: clock_length)
  from clk have "t_sec t mod 86400 = t_sec u mod 86400" by (rule clock_inj) simp_all
  moreover from cal have "t_sec t div 86400 = t_sec u div 86400" by (rule calendar_inj)
  ultimately have "t_sec t = t_sec u" by (metis mult_div_mod_eq)
  moreover from nano assms(2,3) have "t_nsec t = t_nsec u"
    by (intro appendNano_inj) (simp_all add: time_wf_def)
  ultimately show ?thesis by (simp add: same_instant_def)
qed

section \<open>Lemmas: the length of the text\<close>

lemma year_yday_year_bounds:
  assumes "year_yday n = (y, d)"
  shows "400 * (n div 146097) < y" and "y \<le> 400 * (n div 146097) + 400"
proof -
  define d1 where "d1 = n mod 146097"
  have d1: "0 \<le> d1" "d1 \<le> 146096" by (auto simp: d1_def)
  define b where "b = min 3 (d1 div 36524)"
  have b: "0 \<le> b" "b \<le> 3" using d1 by (auto simp: b_def pos_imp_zdiv_nonneg_iff)
  define d2 where "d2 = d1 - 36524 * b"
  have d2: "0 \<le> d2" "d2 \<le> 36524" using d1 by (auto simp: d2_def b_def min_def)
  define c where "c = d2 div 1461"
  have c: "0 \<le> c" "c \<le> 24" using d2 unfolding c_def by linarith+
  define e where "e = min 3 ((d2 - 1461 * c) div 365)"
  have "0 \<le> d2 - 1461 * c" by (simp add: c_def minus_mult_div_eq_mod)
  then have e: "0 \<le> e" "e \<le> 3" by (auto simp: e_def pos_imp_zdiv_nonneg_iff)
  have "y = 1 + 400 * (n div 146097) + 100 * b + 4 * c + e"
    using assms unfolding year_yday_def Let_def d1_def b_def d2_def c_def e_def
    by (simp only: prod.inject)
  with b c e show "400 * (n div 146097) < y" and "y \<le> 400 * (n div 146097) + 400"
    by linarith+
qed

lemma length_dec_le: "n < 10 ^ 18 \<Longrightarrow> length (dec n) \<le> 18"
  by (rule dec_length) simp_all

lemma length_appendInt: "\<bar>x\<bar> < 10 ^ 18 \<Longrightarrow> w \<le> 18 \<Longrightarrow> length (appendInt x w) \<le> 19"
  using length_dec_le [of "nat x"] length_dec_le [of "nat (- x)"]
  by (cases "x < 0") (simp_all add: appendInt_def pad_nat_def nat_less_iff)

lemma length_calendar:
  assumes "\<bar>n\<bar> < 10 ^ 15"
  shows "length (calendar n) \<le> 60"
proof -
  obtain y m d where c: "civil n = (y, m, d)" by (metis prod_cases3)
  then obtain yday where "year_yday n = (y, yday)"
    by (auto simp: civil_def Let_def split: prod.splits)
  note year_yday_year_bounds [OF this]
  moreover have "- (10 ^ 15) \<le> n div 146097" "n div 146097 \<le> 10 ^ 15"
    using assms by linarith+
  ultimately have "y < 10 ^ 18" "- (10 ^ 18) < y" by simp_all
  then have "\<bar>y\<bar> < 10 ^ 18" by linarith
  moreover note civil_bounds [OF c]
  ultimately show ?thesis
    using length_appendInt [of y 4] length_appendInt [of "int m" 2] length_appendInt [of d 2]
    by (simp add: calendar_def c)
qed

lemma length_strip_zeros: "length (strip_zeros s) \<le> length s"
  by (simp add: strip_zeros_def length_dropWhile_le [THEN order_trans])

lemma length_format:
  assumes "int64_range (t_sec t)" and "time_wf t"
  shows "length (format_rfc3339nano t) \<le> 80"
proof -
  have "- 9223372036854775808 \<le> t_sec t" "t_sec t \<le> 9223372036854775807"
    using assms(1) by (simp_all add: int64_defs)
  then have "- 1000000000000000 < t_sec t div 86400" "t_sec t div 86400 < 1000000000000000"
    by linarith+
  then have "\<bar>t_sec t div 86400\<bar> < 10 ^ 15" by simp
  then have "length (calendar (t_sec t div 86400)) \<le> 60" by (rule length_calendar)
  moreover have "length (appendNano (t_nsec t)) \<le> 10"
  proof -
    have "length (pad_nat 9 (nat (t_nsec t))) = 9"
      using assms(2) by (intro length_pad_nat) (simp_all add: time_wf_def nat_less_iff)
    then show ?thesis
      using length_strip_zeros [of "pad_nat 9 (nat (t_nsec t))"] by (simp add: appendNano_def Let_def)
  qed
  ultimately show ?thesis by (simp add: format_rfc3339nano_def clock_length)
qed

end
