(* ===== verification/Session.thy ===== *)
theory Session
  imports Go_Time
begin

text \<open>
  The canonical vocabulary (\<^verbatim>\<open>internal/session/session.go\<close>): backends, event types and end
  reasons as the strings they are, the records \<open>Event\<close>, \<open>Join\<close> and \<open>Session\<close>, and the
  methods of \<open>Join\<close> and \<open>Session\<close>. An index outside \<open>Joins\<close> panics in Go; the two methods
  that index return \<open>None\<close> there.
\<close>

type_synonym Backend = string
type_synonym EventType = string
type_synonym EndReason = string

definition BackendLiveKit :: Backend where
  "BackendLiveKit = ''livekit''"

definition BackendMediasoup :: Backend where
  "BackendMediasoup = ''mediasoup''"

definition EventRoomStarted :: EventType where
  "EventRoomStarted = ''room_started''"

definition EventRoomFinished :: EventType where
  "EventRoomFinished = ''room_finished''"

definition EventParticipantJoined :: EventType where
  "EventParticipantJoined = ''participant_joined''"

definition EventParticipantLeft :: EventType where
  "EventParticipantLeft = ''participant_left''"

definition EventTrackPublished :: EventType where
  "EventTrackPublished = ''track_published''"

definition EventTrackUnpublished :: EventType where
  "EventTrackUnpublished = ''track_unpublished''"

definition CorrelatedEventTypes :: "EventType list" where
  "CorrelatedEventTypes =
     [EventRoomStarted, EventRoomFinished, EventParticipantJoined, EventParticipantLeft,
      EventTrackPublished, EventTrackUnpublished]"

definition EndParticipantLeft :: EndReason where
  "EndParticipantLeft = ''participant_left''"

definition EndRoomFinished :: EndReason where
  "EndRoomFinished = ''room_finished''"

definition EndInferredTimeout :: EndReason where
  "EndInferredTimeout = ''inferred_timeout''"

record Event =
  ev_ID :: string
  ev_Backend :: Backend
  ev_BackendEventID :: string
  ev_Type :: EventType
  ev_OccurredAt :: Time
  ev_ReceivedAt :: Time
  ev_RoomName :: string
  ev_RoomSID :: string
  ev_ParticipantIdentity :: string
  ev_ParticipantSID :: string
  ev_TrackSID :: string
  ev_Payload :: bytes

text \<open>\<open>session.Event{}\<close>: every field at its zero value.\<close>

definition zeroEvent :: Event where
  "zeroEvent = \<lparr>ev_ID = [], ev_Backend = [], ev_BackendEventID = [], ev_Type = [],
     ev_OccurredAt = zeroTime, ev_ReceivedAt = zeroTime, ev_RoomName = [], ev_RoomSID = [],
     ev_ParticipantIdentity = [], ev_ParticipantSID = [], ev_TrackSID = [], ev_Payload = []\<rparr>"

record Join =
  jn_ID :: string
  jn_Backend :: Backend
  jn_RoomName :: string
  jn_ParticipantIdentity :: string
  jn_RoomSID :: string
  jn_ParticipantSID :: string
  jn_StartedAt :: Time
  jn_EndedAt :: "Time option"
  jn_EndReason :: EndReason
  jn_StartedEventID :: string
  jn_EndedEventID :: string

definition Join_IsOpen :: "Join \<Rightarrow> bool" where
  "Join_IsOpen j \<longleftrightarrow> jn_EndedAt j = None"

record SessionView =
  ss_Backend :: Backend
  ss_RoomName :: string
  ss_ParticipantIdentity :: string
  ss_Gap :: int
  ss_Joins :: "Join list"

definition Session_StartedAt :: "SessionView \<Rightarrow> Time option" where
  "Session_StartedAt s = (case ss_Joins s of [] \<Rightarrow> None | j # _ \<Rightarrow> Some (jn_StartedAt j))"

definition Session_IsOpen :: "SessionView \<Rightarrow> bool option" where
  "Session_IsOpen s =
     (if ss_Joins s = [] then None
      else Some (Join_IsOpen (ss_Joins s ! (length (ss_Joins s) - 1))))"

definition Session_Reconnects :: "SessionView \<Rightarrow> int" where
  "Session_Reconnects s = int (length (ss_Joins s)) - 1"

section \<open>Lemmas\<close>

lemmas event_type_defs =
  EventRoomStarted_def EventRoomFinished_def EventParticipantJoined_def
  EventParticipantLeft_def EventTrackPublished_def EventTrackUnpublished_def

lemmas end_reason_defs = EndParticipantLeft_def EndRoomFinished_def EndInferredTimeout_def

lemma event_types_distinct [simp]:
  "EventParticipantJoined \<noteq> EventParticipantLeft" "EventParticipantLeft \<noteq> EventParticipantJoined"
  "EventParticipantJoined \<noteq> EventRoomFinished" "EventRoomFinished \<noteq> EventParticipantJoined"
  "EventParticipantLeft \<noteq> EventRoomFinished" "EventRoomFinished \<noteq> EventParticipantLeft"
  by (simp_all add: event_type_defs)

lemma end_reasons_distinct [simp]:
  "EndParticipantLeft \<noteq> EndRoomFinished" "EndRoomFinished \<noteq> EndParticipantLeft"
  "EndParticipantLeft \<noteq> EndInferredTimeout" "EndRoomFinished \<noteq> EndInferredTimeout"
  by (simp_all add: end_reason_defs)

lemma distinct_CorrelatedEventTypes: "distinct CorrelatedEventTypes"
  by (simp add: CorrelatedEventTypes_def event_type_defs)

lemma Session_IsOpen_last:
  "ss_Joins s \<noteq> [] \<Longrightarrow> Session_IsOpen s = Some (Join_IsOpen (last (ss_Joins s)))"
  by (simp add: Session_IsOpen_def last_conv_nth)

end
