(* ===== verification/Store.thy ===== *)
theory Store
  imports Session
begin

text \<open>
  The persistence port of the write path (\<^verbatim>\<open>internal/ingest/store/store.go\<close>): the sentinel
  errors, \<open>Result\<close>, and the interface \<open>Writer\<close>. The interface is the locale \<open>writer\<close>: one
  operation over a state, an environment that decides what the outside world does in a call
  (clock, fresh identifiers, faults), and the laws the comments of \<open>Writer\<close> and \<open>Result\<close>
  promise. What any sequence of deliveries and redeliveries does to a writer is proved once from
  those laws.
\<close>

datatype store_error = ErrPartitionMissing | ErrCloseOutOfOrder | OtherError string

record Result =
  rs_Stored :: bool
  rs_JoinOpened :: bool
  rs_JoinsClosed :: int
  rs_CloseUnmatched :: bool

definition zeroResult :: Result where
  "zeroResult = \<lparr>rs_Stored = False, rs_JoinOpened = False, rs_JoinsClosed = 0, rs_CloseUnmatched = False\<rparr>"

lemma zeroResult_simps [simp]:
  "\<not> rs_Stored zeroResult" "\<not> rs_JoinOpened zeroResult" "rs_JoinsClosed zeroResult = 0"
  "\<not> rs_CloseUnmatched zeroResult"
  by (simp_all add: zeroResult_def)

text \<open>The Go signature \<open>RecordEvent(ctx, ev) (Result, error)\<close> over a state \<open>'s\<close>; \<open>'e\<close> is the
  environment of one call.\<close>

type_synonym ('s, 'e) record_event = "'e \<Rightarrow> 's \<Rightarrow> Event \<Rightarrow> 's \<times> Result \<times> store_error option"

text \<open>A sequence of calls, each with its own environment, collecting what each returned.\<close>

fun deliver_all ::
    "('s, 'e) record_event \<Rightarrow> 's \<Rightarrow> ('e \<times> Event) list \<Rightarrow> 's \<times> (Result \<times> store_error option) list" where
  "deliver_all rec s [] = (s, [])"
| "deliver_all rec s ((env, ev) # ds) =
     (let (s', r) = rec env s ev;
          (s'', rs) = deliver_all rec s' ds
      in (s'', r # rs))"

lemma deliver_all_append:
  "deliver_all rec s (xs @ ys) =
     (let (s', rs) = deliver_all rec s xs; (s'', rs') = deliver_all rec s' ys in (s'', rs @ rs'))"
  by (induction rec s xs rule: deliver_all.induct) (auto split: prod.splits)

lemma length_deliver_all: "length (snd (deliver_all rec s ds)) = length ds"
  by (induction rec s ds rule: deliver_all.induct) (auto split: prod.splits)

text \<open>
  The contract. \<open>key\<close> is the identity under which the writer recognises a redelivery and
  \<open>recorded\<close> the set of keys a state holds. A redelivery changes nothing, whatever the
  environment does, and claims nothing (\<open>writer_redelivery\<close>); a call without error leaves the
  event recorded (\<open>writer_acknowledged\<close>), stored or not according to whether it was already there
  (\<open>writer_stored\<close>); a call that does not record the event changes nothing (\<open>writer_atomic\<close>: the
  event and its effect on the joins share a transaction); a call records its own event at most, and
  forgets none (\<open>writer_frame\<close>).
\<close>

locale writer =
  fixes rec :: "('s, 'e) record_event"
    and recorded :: "'s \<Rightarrow> 'k set"
    and key :: "Event \<Rightarrow> 'k"
    and inv :: "'s \<Rightarrow> bool"
  assumes writer_inv: "inv s \<Longrightarrow> inv (fst (rec env s ev))"
    and writer_redelivery:
      "inv s \<Longrightarrow> key ev \<in> recorded s \<Longrightarrow>
       fst (rec env s ev) = s \<and> fst (snd (rec env s ev)) = zeroResult"
    and writer_acknowledged:
      "inv s \<Longrightarrow> snd (snd (rec env s ev)) = None \<Longrightarrow> key ev \<in> recorded (fst (rec env s ev))"
    and writer_stored:
      "inv s \<Longrightarrow> snd (snd (rec env s ev)) = None \<Longrightarrow>
       rs_Stored (fst (snd (rec env s ev))) \<longleftrightarrow> key ev \<notin> recorded s"
    and writer_atomic:
      "inv s \<Longrightarrow> key ev \<notin> recorded (fst (rec env s ev)) \<Longrightarrow> fst (rec env s ev) = s"
    and writer_frame:
      "inv s \<Longrightarrow> recorded s \<subseteq> recorded (fst (rec env s ev)) \<and>
       recorded (fst (rec env s ev)) \<subseteq> insert (key ev) (recorded s)"
begin

lemma deliver_all_inv: "inv s \<Longrightarrow> inv (fst (deliver_all rec s ds))"
proof (induction ds arbitrary: s)
  case (Cons d ds)
  obtain env ev where "d = (env, ev)" by (cases d)
  then show ?case
    using Cons.IH [of "fst (rec env s ev)"] writer_inv [OF Cons.prems] by (auto split: prod.splits)
qed simp

lemma deliver_all_frame:
  "inv s \<Longrightarrow> recorded s \<subseteq> recorded (fst (deliver_all rec s ds)) \<and>
   recorded (fst (deliver_all rec s ds)) \<subseteq> recorded s \<union> key ` snd ` set ds"
proof (induction ds arbitrary: s)
  case (Cons d ds)
  obtain env ev where d: "d = (env, ev)" by (cases d)
  show ?case
    using Cons.IH [of "fst (rec env s ev)"] writer_inv [OF Cons.prems, of env ev]
      writer_frame [OF Cons.prems, of env ev] by (auto simp: d split: prod.splits)
qed simp

text \<open>Deliveries of events already recorded can be dropped from any sequence: at-least-once
  delivery has the final state of exactly-once delivery.\<close>

lemma deliver_all_skips_recorded:
  assumes "inv s" "key ev \<in> recorded s"
  shows "fst (deliver_all rec s ((env, ev) # ds)) = fst (deliver_all rec s ds)"
  using writer_redelivery [OF assms, of env] by (auto split: prod.splits)

lemma redelivery_is_noop:
  assumes "inv s" "snd (snd (rec env s ev)) = None"
    and "ds = ds1 @ (env', ev') # ds2" "key ev' = key ev"
  shows "fst (deliver_all rec (fst (rec env s ev)) ds) =
         fst (deliver_all rec (fst (rec env s ev)) (ds1 @ ds2))"
proof -
  let ?s = "fst (rec env s ev)"
  have inv: "inv ?s" by (rule writer_inv [OF assms(1)])
  let ?t = "fst (deliver_all rec ?s ds1)"
  have "key ev' \<in> recorded ?t"
    using writer_acknowledged [OF assms(1,2)] deliver_all_frame [OF inv, of ds1] assms(4) by auto
  then have "fst (deliver_all rec ?t ((env', ev') # ds2)) = fst (deliver_all rec ?t ds2)"
    by (rule deliver_all_skips_recorded [OF deliver_all_inv [OF inv]])
  then show ?thesis
    by (simp add: assms(3) deliver_all_append case_prod_beta)
qed

text \<open>Retrying until a call returns without error leaves the state of one successful call, whether
  or not a failed attempt had in fact been applied.\<close>

lemma retry_applies_once:
  assumes "inv s" "\<forall>d \<in> set ds. snd d = ev"
    and "snd (snd (rec env (fst (deliver_all rec s ds)) ev)) = None"
  shows "key ev \<in> recorded (fst (deliver_all rec s (ds @ [(env, ev)]))) \<and>
         (\<exists>d \<in> set (ds @ [(env, ev)]). key ev \<in> recorded s \<or>
            fst (deliver_all rec s (ds @ [(env, ev)])) = fst (rec (fst d) s ev))"
  using assms
proof (induction ds arbitrary: s)
  case Nil
  then show ?case using writer_acknowledged [OF Nil.prems(1), of env ev] by (auto simp: case_prod_beta)
next
  case (Cons d ds)
  obtain e where d: "d = (e, ev)" using Cons.prems(2) by (cases d) auto
  let ?s = "fst (rec e s ev)"
  have step: "fst (deliver_all rec s ((d # ds) @ [(env, ev)])) = fst (deliver_all rec ?s (ds @ [(env, ev)]))"
    by (simp add: d split: prod.splits)
  have pre: "fst (deliver_all rec s (d # ds)) = fst (deliver_all rec ?s ds)"
    by (simp add: d split: prod.splits)
  have inv: "inv ?s" by (rule writer_inv [OF Cons.prems(1)])
  have IH: "key ev \<in> recorded (fst (deliver_all rec ?s (ds @ [(env, ev)])))"
      "\<exists>d \<in> set (ds @ [(env, ev)]). key ev \<in> recorded ?s \<or>
         fst (deliver_all rec ?s (ds @ [(env, ev)])) = fst (rec (fst d) ?s ev)"
    using Cons.IH [OF inv] Cons.prems(2,3) unfolding pre by auto
  show ?case
  proof (cases "key ev \<in> recorded ?s")
    case True
    have "fst (deliver_all rec ?s ds') = ?s" if "\<forall>d \<in> set ds'. snd d = ev" for ds'
      using that
    proof (induction ds')
      case (Cons d' ds')
      then show ?case
        using deliver_all_skips_recorded [OF inv True, of "fst d'" ds'] by (cases d') auto
    qed simp
    then have "fst (deliver_all rec ?s (ds @ [(env, ev)])) = ?s"
      using Cons.prems(2) by simp
    then show ?thesis using IH(1) unfolding step by (auto simp: d)
  next
    case False
    then have "?s = s" by (rule writer_atomic [OF Cons.prems(1)])
    then show ?thesis using IH unfolding step by auto
  qed
qed

text \<open>An event is reported stored at most once in any sequence of error-free calls.\<close>

lemma stored_at_most_once:
  assumes "inv s" "\<forall>r \<in> set (snd (deliver_all rec s ds)). snd r = None" "\<forall>d \<in> set ds. key (snd d) = k"
  shows "length (filter (\<lambda>r. rs_Stored (fst r)) (snd (deliver_all rec s ds))) =
         (if k \<in> recorded s \<or> ds = [] then 0 else 1)"
  using assms
proof (induction ds arbitrary: s)
  case (Cons d ds)
  obtain env ev where d: "d = (env, ev)" by (cases d)
  have k: "key ev = k" using Cons.prems(3) by (simp add: d)
  let ?s = "fst (rec env s ev)"
  have ok: "snd (snd (rec env s ev)) = None"
    using Cons.prems(2) by (auto simp: d split: prod.splits)
  have rest: "\<forall>r \<in> set (snd (deliver_all rec ?s ds)). snd r = None"
    using Cons.prems(2) by (auto simp: d split: prod.splits)
  have "k \<in> recorded ?s" using writer_acknowledged [OF Cons.prems(1) ok] k by simp
  then have "length (filter (\<lambda>r. rs_Stored (fst r)) (snd (deliver_all rec ?s ds))) = 0"
    using Cons.IH [OF writer_inv [OF Cons.prems(1)] rest] Cons.prems(3) by simp
  then show ?case
    using writer_stored [OF Cons.prems(1) ok] k by (auto simp: d split: prod.splits)
qed simp

end

end
