(* ===== verification/Postgres.thy ===== *)
theory Postgres
  imports Store
begin

text \<open>
  The PostgreSQL writer (\<^verbatim>\<open>internal/ingest/store/postgres/postgres.go\<close>) over the schema of
  \<^verbatim>\<open>migrations/\<close>. The two tables are lists of rows in insertion order; each SQL statement of the
  file is one definition, written from its text and from the constraints of the schema (primary
  keys, \<open>UNIQUE\<close>, partition bounds, the generated range column, the \<open>CHECK\<close>s). The network and
  the server are the environment of a call: every statement may fail with any error, the commit may
  fail, and it may be applied while its acknowledgement is lost. \<open>ts\<close> is the driver's conversion
  of a Go time to a \<open>timestamptz\<close> (microseconds).
\<close>

section \<open>Schema\<close>

record event_row =
  er_event_id :: string
  er_backend :: string
  er_backend_event_id :: "string option"
  er_event_type :: string
  er_occurred_at :: int
  er_received_at :: int
  er_room_name :: "string option"
  er_room_sid :: "string option"
  er_participant_identity :: "string option"
  er_participant_sid :: "string option"
  er_track_sid :: "string option"
  er_payload :: bytes

record join_row =
  jr_join_id :: string
  jr_backend :: string
  jr_room_name :: string
  jr_participant_identity :: string
  jr_room_sid :: "string option"
  jr_participant_sid :: "string option"
  jr_started_at :: int
  jr_ended_at :: "int option"
  jr_end_reason :: "string option"
  jr_started_event_id :: string
  jr_ended_event_id :: "string option"
  jr_created_at :: int
  jr_updated_at :: int

record database =
  db_partitions :: "(int \<times> int) list"
  db_event_raw :: "event_row list"
  db_participant_join :: "join_row list"

text \<open>An error of the driver: one the server reported, with its SQLSTATE and the name of the
  constraint (empty when there is none), or any other. The last component is what \<open>Error()\<close>
  prints.\<close>

datatype db_error = PgError string string string | DriverError string

fun error_text :: "db_error \<Rightarrow> string" where
  "error_text (PgError code constraint t) = t"
| "error_text (DriverError t) = t"

definition covered :: "(int \<times> int) list \<Rightarrow> int \<Rightarrow> bool" where
  "covered ps t \<longleftrightarrow> (\<exists>p \<in> set ps. fst p \<le> t \<and> t < snd p)"

text \<open>\<^verbatim>\<open>000002_event_raw_bootstrap_partitions.up.sql\<close>: one partition per day from seven days back
  to fourteen ahead; \<open>midnight\<close> is the cast of a date to \<open>timestamptz\<close>.\<close>

definition bootstrap_partitions :: "(int \<Rightarrow> int) \<Rightarrow> int \<Rightarrow> (int \<times> int) list" where
  "bootstrap_partitions midnight today =
     map (\<lambda>day. (midnight day, midnight (day + 1))) [today - 7 .. today + 13]"

definition migrated :: "(int \<Rightarrow> int) \<Rightarrow> int \<Rightarrow> database" where
  "migrated midnight today =
     \<lparr>db_partitions = bootstrap_partitions midnight today, db_event_raw = [], db_participant_join = []\<rparr>"

text \<open>What the server checks of a row of \<open>participant_join\<close> (\<^verbatim>\<open>000003_participant_join.up.sql\<close>):
  the generated column first, then the \<open>CHECK\<close> constraints.\<close>

definition range_error :: db_error where
  "range_error =
     PgError ''22000'' [] ''range lower bound must be less than or equal to range upper bound''"

definition check_error :: "string \<Rightarrow> db_error" where
  "check_error name = PgError ''23514'' name ''new row violates check constraint''"

definition ends_before_start :: "join_row \<Rightarrow> bool" where
  "ends_before_start j \<longleftrightarrow>
     (case jr_ended_at j of Some t \<Rightarrow> t < jr_started_at j | None \<Rightarrow> False)"

definition known_reason :: "string option \<Rightarrow> bool" where
  "known_reason r \<longleftrightarrow>
     (case r of Some s \<Rightarrow> s \<in> set [EndParticipantLeft, EndRoomFinished, EndInferredTimeout]
      | None \<Rightarrow> True)"

definition join_row_error :: "join_row \<Rightarrow> db_error option" where
  "join_row_error j =
     (if ends_before_start j then Some range_error
      else if ends_before_start j then Some (check_error ''participant_join_end_after_start'')
      else if \<not> known_reason (jr_end_reason j)
      then Some (check_error ''participant_join_end_reason_known'')
      else if (jr_ended_at j = None) \<noteq> (jr_end_reason j = None)
      then Some (check_error ''participant_join_end_together'')
      else None)"

section \<open>The environment of a call\<close>

datatype commit_outcome = Committed | CommitFailed db_error | CommitLost db_error

record env =
  en_begin :: "db_error option"
  en_insert :: "db_error option"
  en_exec :: "db_error option"
  en_exec2 :: "db_error option"
  en_commit :: commit_outcome
  en_now :: int
  en_uuid :: string
  en_pick :: nat

section \<open>Statements\<close>

definition nullable :: "string \<Rightarrow> string option" where
  "nullable s = (if s = [] then None else Some s)"

definition event_row_of :: "(Time \<Rightarrow> int) \<Rightarrow> int \<Rightarrow> Event \<Rightarrow> event_row" where
  "event_row_of ts now ev =
     \<lparr>er_event_id = ev_ID ev, er_backend = ev_Backend ev,
      er_backend_event_id = nullable (ev_BackendEventID ev), er_event_type = ev_Type ev,
      er_occurred_at = ts (ev_OccurredAt ev), er_received_at = now,
      er_room_name = nullable (ev_RoomName ev), er_room_sid = nullable (ev_RoomSID ev),
      er_participant_identity = nullable (ev_ParticipantIdentity ev),
      er_participant_sid = nullable (ev_ParticipantSID ev),
      er_track_sid = nullable (ev_TrackSID ev), er_payload = ev_Payload ev\<rparr>"

definition event_key :: "event_row \<Rightarrow> int \<times> string" where
  "event_key r = (er_occurred_at r, er_event_id r)"

text \<open>\<open>insertEvent\<close>: the row is routed to its partition; a conflict on the primary key inserts
  nothing and returns no row, which the driver reports as \<open>pgx.ErrNoRows\<close> (the result \<open>None\<close>).\<close>

definition insertEvent ::
    "(Time \<Rightarrow> int) \<Rightarrow> env \<Rightarrow> database \<Rightarrow> Event \<Rightarrow> db_error + (database \<times> string option)" where
  "insertEvent ts e db ev =
     (case en_insert e of
        Some err \<Rightarrow> Inl err
      | None \<Rightarrow>
          let r = event_row_of ts (en_now e) ev in
          if \<not> covered (db_partitions db) (er_occurred_at r)
          then Inl (PgError ''23514'' [] ''no partition of relation event_raw found for row'')
          else if event_key r \<in> event_key ` set (db_event_raw db) then Inr (db, None)
          else Inr (db\<lparr>db_event_raw := db_event_raw db @ [r]\<rparr>, Some (er_event_id r)))"

definition join_row_of :: "(Time \<Rightarrow> int) \<Rightarrow> env \<Rightarrow> Event \<Rightarrow> join_row" where
  "join_row_of ts e ev =
     \<lparr>jr_join_id = en_uuid e, jr_backend = ev_Backend ev, jr_room_name = ev_RoomName ev,
      jr_participant_identity = ev_ParticipantIdentity ev,
      jr_room_sid = nullable (ev_RoomSID ev), jr_participant_sid = nullable (ev_ParticipantSID ev),
      jr_started_at = ts (ev_OccurredAt ev), jr_ended_at = None, jr_end_reason = None,
      jr_started_event_id = ev_ID ev, jr_ended_event_id = None,
      jr_created_at = en_now e, jr_updated_at = en_now e\<rparr>"

definition openJoin :: "(Time \<Rightarrow> int) \<Rightarrow> env \<Rightarrow> database \<Rightarrow> Event \<Rightarrow> db_error + (database \<times> nat)" where
  "openJoin ts e db ev =
     (let j = join_row_of ts e ev; js = db_participant_join db in
      case en_exec e of
        Some err \<Rightarrow> Inl err
      | None \<Rightarrow>
          (case join_row_error j of
             Some err \<Rightarrow> Inl err
           | None \<Rightarrow>
               if jr_started_event_id j \<in> jr_started_event_id ` set js then Inr (db, 0)
               else if jr_join_id j \<in> jr_join_id ` set js
               then Inl (PgError ''23505'' ''participant_join_pkey'' ''duplicate key value'')
               else Inr (db\<lparr>db_participant_join := js @ [j]\<rparr>, 1)))"

text \<open>The three closing statements share their \<open>SET\<close> list. A statement is atomic: one row that
  fails its checks fails the statement.\<close>

definition set_end :: "int \<Rightarrow> EndReason \<Rightarrow> string \<Rightarrow> int \<Rightarrow> join_row \<Rightarrow> join_row" where
  "set_end at reason eid now j =
     j\<lparr>jr_ended_at := Some at, jr_end_reason := Some reason, jr_ended_event_id := Some eid,
       jr_updated_at := now\<rparr>"

definition update_joins ::
    "(join_row \<Rightarrow> bool) \<Rightarrow> (join_row \<Rightarrow> join_row) \<Rightarrow> database \<Rightarrow> db_error + (database \<times> nat)" where
  "update_joins P f db =
     (let js = db_participant_join db in
      case List.map_filter (join_row_error \<circ> f) (filter P js) of
        err # _ \<Rightarrow> Inl err
      | [] \<Rightarrow> Inr (db\<lparr>db_participant_join := map (\<lambda>j. if P j then f j else j) js\<rparr>,
                  length (filter P js)))"

definition open_row :: "join_row \<Rightarrow> bool" where
  "open_row j \<longleftrightarrow> jr_ended_at j = None"

definition by_sid :: "Backend \<Rightarrow> string \<Rightarrow> string \<Rightarrow> join_row \<Rightarrow> bool" where
  "by_sid b room sid j \<longleftrightarrow>
     jr_backend j = b \<and> jr_room_name j = room \<and> jr_participant_sid j = Some sid \<and> open_row j"

definition by_identity :: "Backend \<Rightarrow> string \<Rightarrow> string \<Rightarrow> join_row \<Rightarrow> bool" where
  "by_identity b room ident j \<longleftrightarrow>
     jr_backend j = b \<and> jr_room_name j = room \<and> jr_participant_identity j = ident \<and> open_row j"

definition by_room :: "Backend \<Rightarrow> string \<Rightarrow> join_row \<Rightarrow> bool" where
  "by_room b room j \<longleftrightarrow> jr_backend j = b \<and> jr_room_name j = room \<and> open_row j"

definition closeBySID :: "int \<Rightarrow> EndReason \<Rightarrow> string \<Rightarrow> Backend \<Rightarrow> string \<Rightarrow> string \<Rightarrow> env
    \<Rightarrow> database \<Rightarrow> db_error + (database \<times> nat)" where
  "closeBySID at reason eid b room sid e db =
     (case en_exec e of
        Some err \<Rightarrow> Inl err
      | None \<Rightarrow> update_joins (by_sid b room sid) (set_end at reason eid (en_now e)) db)"

text \<open>\<open>SELECT join_id ... ORDER BY started_at DESC LIMIT 1\<close>: which of several joins with the
  greatest \<open>started_at\<close> is returned is the server's choice, \<open>en_pick\<close>.\<close>

definition latest_open :: "Backend \<Rightarrow> string \<Rightarrow> string \<Rightarrow> nat \<Rightarrow> join_row list \<Rightarrow> string option" where
  "latest_open b room ident k js =
     (let cs = filter (by_identity b room ident) js;
          ties = filter (\<lambda>j. \<forall>c \<in> set cs. jr_started_at c \<le> jr_started_at j) cs
      in if ties = [] then None else Some (jr_join_id (ties ! (k mod length ties))))"

definition closeByIdentity :: "int \<Rightarrow> EndReason \<Rightarrow> string \<Rightarrow> Backend \<Rightarrow> string \<Rightarrow> string \<Rightarrow> env
    \<Rightarrow> database \<Rightarrow> db_error + (database \<times> nat)" where
  "closeByIdentity at reason eid b room ident e db =
     (case en_exec2 e of
        Some err \<Rightarrow> Inl err
      | None \<Rightarrow>
          let chosen = latest_open b room ident (en_pick e) (db_participant_join db)
          in update_joins (\<lambda>j. chosen = Some (jr_join_id j)) (set_end at reason eid (en_now e)) db)"

definition closeRoom :: "int \<Rightarrow> EndReason \<Rightarrow> string \<Rightarrow> Backend \<Rightarrow> string \<Rightarrow> env
    \<Rightarrow> database \<Rightarrow> db_error + (database \<times> nat)" where
  "closeRoom at reason eid b room e db =
     (case en_exec e of
        Some err \<Rightarrow> Inl err
      | None \<Rightarrow> update_joins (by_room b room) (set_end at reason eid (en_now e)) db)"

section \<open>The program\<close>

fun isPartitionMissing :: "db_error \<Rightarrow> bool" where
  "isPartitionMissing (PgError code constraint t) \<longleftrightarrow> code = ''23514'' \<and> constraint = []"
| "isPartitionMissing (DriverError t) \<longleftrightarrow> False"

fun pg_code :: "db_error \<Rightarrow> string option" where
  "pg_code (PgError code constraint t) = Some code"
| "pg_code (DriverError t) = None"

definition classifyClose :: "db_error \<Rightarrow> store_error" where
  "classifyClose err =
     (if pg_code err = Some ''22000'' then ErrCloseOutOfOrder
      else OtherError (''postgres: close join: '' @ error_text err))"

definition close :: "(Time \<Rightarrow> int) \<Rightarrow> env \<Rightarrow> database \<Rightarrow> Event \<Rightarrow> EndReason
    \<Rightarrow> store_error + (database \<times> nat)" where
  "close ts e db ev reason =
     (let fallback = (case closeByIdentity (ts (ev_OccurredAt ev)) reason (ev_ID ev)
                             (ev_Backend ev) (ev_RoomName ev) (ev_ParticipantIdentity ev) e db of
            Inl err \<Rightarrow> Inl (classifyClose err)
          | Inr (db', n) \<Rightarrow> Inr (db', n))
      in if ev_ParticipantSID ev \<noteq> []
         then (case closeBySID (ts (ev_OccurredAt ev)) reason (ev_ID ev)
                      (ev_Backend ev) (ev_RoomName ev) (ev_ParticipantSID ev) e db of
                 Inl err \<Rightarrow> Inl (classifyClose err)
               | Inr (db', n) \<Rightarrow> if n > 0 then Inr (db', n) else fallback)
         else fallback)"

definition applyJoinEffect ::
    "(Time \<Rightarrow> int) \<Rightarrow> env \<Rightarrow> database \<Rightarrow> Event \<Rightarrow> Result \<Rightarrow> database \<times> Result \<times> store_error option" where
  "applyJoinEffect ts e db ev res =
     (if ev_Type ev = EventParticipantJoined then
        (case openJoin ts e db ev of
           Inl err \<Rightarrow> (db, res, Some (OtherError (''postgres: open join: '' @ error_text err)))
         | Inr (db', n) \<Rightarrow> (db', res\<lparr>rs_JoinOpened := n > 0\<rparr>, None))
      else if ev_Type ev = EventParticipantLeft then
        (case close ts e db ev EndParticipantLeft of
           Inl err \<Rightarrow> (db, res, Some err)
         | Inr (db', n) \<Rightarrow> (db', res\<lparr>rs_JoinsClosed := int n, rs_CloseUnmatched := (n = 0)\<rparr>, None))
      else if ev_Type ev = EventRoomFinished then
        (case closeRoom (ts (ev_OccurredAt ev)) EndRoomFinished (ev_ID ev)
                (ev_Backend ev) (ev_RoomName ev) e db of
           Inl err \<Rightarrow> (db, res, Some (classifyClose err))
         | Inr (db', n) \<Rightarrow> (db', res\<lparr>rs_JoinsClosed := int n\<rparr>, None))
      else (db, res, None))"

text \<open>\<open>tx.Commit\<close> of a transaction that started in \<open>db\<close> and has reached \<open>db'\<close>; the deferred
  \<open>Rollback\<close> restores \<open>db\<close> on every return that has not committed.\<close>

definition commit :: "string \<Rightarrow> env \<Rightarrow> database \<Rightarrow> database \<Rightarrow> Result \<Rightarrow> database \<times> Result \<times> store_error option" where
  "commit what e db db' res =
     (case en_commit e of
        Committed \<Rightarrow> (db', res, None)
      | CommitFailed err \<Rightarrow> (db, res, Some (OtherError (what @ error_text err)))
      | CommitLost err \<Rightarrow> (db', res, Some (OtherError (what @ error_text err))))"

definition RecordEvent :: "(Time \<Rightarrow> int) \<Rightarrow> (database, env) record_event" where
  "RecordEvent ts e db ev =
     (let res = zeroResult in
      case en_begin e of
        Some err \<Rightarrow> (db, res, Some (OtherError (''postgres: begin: '' @ error_text err)))
      | None \<Rightarrow>
          (case insertEvent ts e db ev of
             Inl err \<Rightarrow> (db, res, Some (if isPartitionMissing err then ErrPartitionMissing
                                     else OtherError (''postgres: insert event: '' @ error_text err)))
           | Inr (db1, None) \<Rightarrow> commit ''postgres: commit duplicate: '' e db db1 res
           | Inr (db1, Some inserted) \<Rightarrow>
               (case applyJoinEffect ts e db1 ev (res\<lparr>rs_Stored := True\<rparr>) of
                  (db2, res', Some err) \<Rightarrow> (db, res', Some err)
                | (db2, res', None) \<Rightarrow> commit ''postgres: commit: '' e db db2 res')))"

section \<open>Lemmas on the statements\<close>

lemma map_filter_const:
  "(\<And>x. x \<in> set xs \<Longrightarrow> f x = None \<or> f x = Some c) \<Longrightarrow> List.map_filter f xs = y # ys \<Longrightarrow> y = c"
  by (induction xs) (fastforce simp: List.map_filter_def split: if_splits)+

lemma set_end_simps [simp]:
  "jr_ended_at (set_end at reason eid now j) = Some at"
  "jr_end_reason (set_end at reason eid now j) = Some reason"
  "jr_ended_event_id (set_end at reason eid now j) = Some eid"
  "jr_join_id (set_end at reason eid now j) = jr_join_id j"
  "jr_backend (set_end at reason eid now j) = jr_backend j"
  "jr_room_name (set_end at reason eid now j) = jr_room_name j"
  "jr_participant_identity (set_end at reason eid now j) = jr_participant_identity j"
  "jr_room_sid (set_end at reason eid now j) = jr_room_sid j"
  "jr_participant_sid (set_end at reason eid now j) = jr_participant_sid j"
  "jr_started_at (set_end at reason eid now j) = jr_started_at j"
  "jr_started_event_id (set_end at reason eid now j) = jr_started_event_id j"
  "jr_created_at (set_end at reason eid now j) = jr_created_at j"
  by (simp_all add: set_end_def)

lemma open_set_end [simp]: "\<not> open_row (set_end at reason eid now j)"
  by (simp add: open_row_def)

lemma join_row_error_set_end:
  assumes "reason = EndParticipantLeft \<or> reason = EndRoomFinished"
  shows "join_row_error (set_end at reason eid now j) =
         (if at < jr_started_at j then Some range_error else None)"
  using assms by (auto simp: join_row_error_def ends_before_start_def known_reason_def)

lemma join_row_error_fresh [simp]: "join_row_error (join_row_of ts e ev) = None"
  by (simp add: join_row_error_def ends_before_start_def known_reason_def join_row_of_def)

text \<open>A closing statement succeeds exactly when no join it selects started after the end it sets.\<close>

lemma update_joins_set_end:
  assumes "reason = EndParticipantLeft \<or> reason = EndRoomFinished"
  shows "update_joins P (set_end at reason eid now) db =
    (if \<exists>j \<in> set (db_participant_join db). P j \<and> at < jr_started_at j then Inl range_error
     else Inr (db\<lparr>db_participant_join :=
                  map (\<lambda>j. if P j then set_end at reason eid now j else j) (db_participant_join db)\<rparr>,
               length (filter P (db_participant_join db))))"
proof -
  let ?f = "set_end at reason eid now" and ?sel = "filter P (db_participant_join db)"
  let ?errs = "List.map_filter (join_row_error \<circ> ?f) ?sel"
  note err = join_row_error_set_end [OF assms]
  have none: "?errs = [] \<longleftrightarrow> \<not> (\<exists>j \<in> set (db_participant_join db). P j \<and> at < jr_started_at j)"
    by (auto simp: map_filter_Nil err)
  have "y = range_error" if "?errs = y # ys" for y ys
    by (rule map_filter_const [OF _ that]) (auto simp: err)
  then show ?thesis
    using none unfolding update_joins_def Let_def by (cases ?errs) auto
qed

section \<open>What an event does to the joins\<close>

text \<open>Which joins a closing event selects, as a predicate: for \<open>participant_left\<close> the open joins
  of its participant SID when there are any, else the latest open join of its identity; for
  \<open>room_finished\<close> every open join of the room.\<close>

definition closing :: "Event \<Rightarrow> bool" where
  "closing ev \<longleftrightarrow> ev_Type ev = EventParticipantLeft \<or> ev_Type ev = EventRoomFinished"

definition close_reason :: "Event \<Rightarrow> EndReason" where
  "close_reason ev = (if ev_Type ev = EventRoomFinished then EndRoomFinished else EndParticipantLeft)"

definition sid_matches :: "Event \<Rightarrow> join_row \<Rightarrow> bool" where
  "sid_matches ev j \<longleftrightarrow>
     ev_ParticipantSID ev \<noteq> [] \<and> by_sid (ev_Backend ev) (ev_RoomName ev) (ev_ParticipantSID ev) j"

definition close_targets :: "nat \<Rightarrow> Event \<Rightarrow> join_row list \<Rightarrow> join_row \<Rightarrow> bool" where
  "close_targets k ev js j \<longleftrightarrow>
     (if ev_Type ev = EventRoomFinished then by_room (ev_Backend ev) (ev_RoomName ev) j
      else if \<exists>c \<in> set js. sid_matches ev c then sid_matches ev j
      else latest_open (ev_Backend ev) (ev_RoomName ev) (ev_ParticipantIdentity ev) k js
             = Some (jr_join_id j))"

definition close_joins :: "(Time \<Rightarrow> int) \<Rightarrow> env \<Rightarrow> Event \<Rightarrow> join_row list \<Rightarrow> join_row list" where
  "close_joins ts e ev js =
     map (\<lambda>j. if close_targets (en_pick e) ev js j
              then set_end (ts (ev_OccurredAt ev)) (close_reason ev) (ev_ID ev) (en_now e) j
              else j) js"

definition close_late :: "(Time \<Rightarrow> int) \<Rightarrow> nat \<Rightarrow> Event \<Rightarrow> join_row list \<Rightarrow> bool" where
  "close_late ts k ev js \<longleftrightarrow>
     (\<exists>j \<in> set js. close_targets k ev js j \<and> ts (ev_OccurredAt ev) < jr_started_at j)"

definition close_count :: "nat \<Rightarrow> Event \<Rightarrow> join_row list \<Rightarrow> nat" where
  "close_count k ev js = length (filter (close_targets k ev js) js)"

definition close_result :: "nat \<Rightarrow> Event \<Rightarrow> join_row list \<Rightarrow> Result \<Rightarrow> Result" where
  "close_result k ev js res =
     (if ev_Type ev = EventParticipantLeft
      then res\<lparr>rs_JoinsClosed := int (close_count k ev js),
               rs_CloseUnmatched := (close_count k ev js = 0)\<rparr>
      else res\<lparr>rs_JoinsClosed := int (close_count k ev js)\<rparr>)"

lemmas close_spec_defs = close_joins_def close_late_def close_count_def close_result_def close_reason_def

lemma filter_empty_count: "length (filter P xs) = 0 \<longleftrightarrow> \<not> (\<exists>x \<in> set xs. P x)"
  by (auto simp: filter_empty_conv)

lemma classify_range_error [simp]: "classifyClose range_error = ErrCloseOutOfOrder"
  by (simp add: classifyClose_def range_error_def)

text \<open>The outcome of the SQL fallback cascade of \<open>close\<close>, with the faults of its two statements.\<close>

lemma close_cases:
  assumes "ev_Type ev = EventParticipantLeft"
  shows "close ts e db ev EndParticipantLeft =
    (let js = db_participant_join db; k = en_pick e;
         done = (if close_late ts k ev js then Inl ErrCloseOutOfOrder
                 else Inr (db\<lparr>db_participant_join := close_joins ts e ev js\<rparr>, close_count k ev js))
     in case (if ev_ParticipantSID ev = [] then None else en_exec e) of
          Some err \<Rightarrow> Inl (classifyClose err)
        | None \<Rightarrow> if \<exists>c \<in> set js. sid_matches ev c then done
                  else (case en_exec2 e of Some err \<Rightarrow> Inl (classifyClose err) | None \<Rightarrow> done))"
proof -
  let ?js = "db_participant_join db"
  have upd: "update_joins P (set_end at EndParticipantLeft eid now) db =
      (if \<exists>j \<in> set ?js. P j \<and> at < jr_started_at j then Inl range_error
       else Inr (db\<lparr>db_participant_join := map (\<lambda>j. if P j then set_end at EndParticipantLeft eid now j else j) ?js\<rparr>,
                 length (filter P ?js)))" for P at eid now
    by (rule update_joins_set_end) simp
  have sid: "by_sid (ev_Backend ev) (ev_RoomName ev) (ev_ParticipantSID ev) = sid_matches ev"
    if "ev_ParticipantSID ev \<noteq> []"
    using that by (simp add: sid_matches_def fun_eq_iff)
  have nosid: "\<not> sid_matches ev j" if "ev_ParticipantSID ev = []" for j
    using that by (simp add: sid_matches_def)
  show ?thesis
  proof (cases "\<exists>c \<in> set ?js. sid_matches ev c")
    case True
    then have sid_ne: "ev_ParticipantSID ev \<noteq> []" using nosid by blast
    have tgt: "close_targets k ev ?js = sid_matches ev" for k
      using assms True by (simp add: close_targets_def fun_eq_iff)
    have pos: "0 < length (filter (sid_matches ev) ?js)"
      using True by (auto simp: filter_empty_conv)
    show ?thesis
      using True sid_ne pos assms
      by (simp add: close_def closeBySID_def sid upd close_spec_defs tgt Let_def split: option.splits)
  next
    case False
    have tgt: "close_targets k ev ?js = (\<lambda>j.
        latest_open (ev_Backend ev) (ev_RoomName ev) (ev_ParticipantIdentity ev) k ?js = Some (jr_join_id j))" for k
      using assms False by (auto simp: close_targets_def fun_eq_iff)
    have zero: "filter (sid_matches ev) ?js = []" "\<not> (\<exists>j \<in> set ?js. sid_matches ev j \<and> P j)" for P
      using False by (auto simp: filter_empty_conv)
    have same: "map (\<lambda>j. if sid_matches ev j then f j else j) ?js = ?js" for f
      using False by (intro map_idI) auto
    show ?thesis
      using assms False zero
      by (auto simp: close_def closeBySID_def closeByIdentity_def sid upd same close_spec_defs tgt Let_def
          split: option.splits)
  qed
qed

text \<open>The whole effect of an event on the joins, when it can be applied, and on the result.\<close>

definition opens :: "Event \<Rightarrow> join_row list \<Rightarrow> bool" where
  "opens ev js \<longleftrightarrow> ev_Type ev = EventParticipantJoined \<and> ev_ID ev \<notin> jr_started_event_id ` set js"

definition effect_ok :: "(Time \<Rightarrow> int) \<Rightarrow> env \<Rightarrow> Event \<Rightarrow> join_row list \<Rightarrow> bool" where
  "effect_ok ts e ev js \<longleftrightarrow>
     (closing ev \<longrightarrow> \<not> close_late ts (en_pick e) ev js) \<and>
     (opens ev js \<longrightarrow> en_uuid e \<notin> jr_join_id ` set js)"

definition join_effect :: "(Time \<Rightarrow> int) \<Rightarrow> env \<Rightarrow> Event \<Rightarrow> join_row list \<Rightarrow> join_row list" where
  "join_effect ts e ev js =
     (if opens ev js then js @ [join_row_of ts e ev]
      else if closing ev then close_joins ts e ev js
      else js)"

definition effect_result :: "env \<Rightarrow> Event \<Rightarrow> join_row list \<Rightarrow> Result" where
  "effect_result e ev js =
     (let res = zeroResult\<lparr>rs_Stored := True\<rparr> in
      if closing ev then close_result (en_pick e) ev js res
      else res\<lparr>rs_JoinOpened := opens ev js\<rparr>)"

definition effect_error :: "Event \<Rightarrow> store_error" where
  "effect_error ev =
     (if closing ev then ErrCloseOutOfOrder
      else OtherError (''postgres: open join: '' @ ''duplicate key value''))"

lemma join_row_of_simps [simp]:
  "jr_started_event_id (join_row_of ts e ev) = ev_ID ev" "jr_join_id (join_row_of ts e ev) = en_uuid e"
  "jr_ended_at (join_row_of ts e ev) = None" "jr_started_at (join_row_of ts e ev) = ts (ev_OccurredAt ev)"
  "jr_end_reason (join_row_of ts e ev) = None" "jr_ended_event_id (join_row_of ts e ev) = None"
  "jr_backend (join_row_of ts e ev) = ev_Backend ev" "jr_room_name (join_row_of ts e ev) = ev_RoomName ev"
  "jr_participant_identity (join_row_of ts e ev) = ev_ParticipantIdentity ev"
  by (simp_all add: join_row_of_def)

lemma closing_not_joined: "ev_Type ev = EventParticipantJoined \<Longrightarrow> \<not> closing ev"
  by (simp add: closing_def)

lemma closing_not_opens [simp]: "closing ev \<Longrightarrow> \<not> opens ev js"
  by (auto simp: opens_def closing_def)

text \<open>\<open>applyJoinEffect\<close> without statement faults, and what a success means with them.\<close>

abbreviation after_insert :: Result where
  "after_insert \<equiv> zeroResult\<lparr>rs_Stored := True\<rparr>"

lemma applyJoinEffect_quiet:
  assumes "en_exec e = None" "en_exec2 e = None"
  shows "applyJoinEffect ts e db ev after_insert =
    (if effect_ok ts e ev (db_participant_join db)
     then (db\<lparr>db_participant_join := join_effect ts e ev (db_participant_join db)\<rparr>,
           effect_result e ev (db_participant_join db), None)
     else (db, after_insert, Some (effect_error ev)))"
proof -
  let ?js = "db_participant_join db"
  consider (joined) "ev_Type ev = EventParticipantJoined" | (left) "ev_Type ev = EventParticipantLeft"
    | (room) "ev_Type ev = EventRoomFinished" | (other) "ev_Type ev \<noteq> EventParticipantJoined" "\<not> closing ev"
    by (auto simp: closing_def)
  then show ?thesis
  proof cases
    case joined
    then show ?thesis
      using assms closing_not_joined [OF joined]
      by (auto simp: applyJoinEffect_def openJoin_def effect_ok_def join_effect_def effect_result_def
          effect_error_def opens_def Let_def zeroResult_def)
  next
    case left
    then have "closing ev" by (simp add: closing_def)
    then show ?thesis
      using assms left
      by (simp add: applyJoinEffect_def close_cases Let_def effect_ok_def join_effect_def
          effect_result_def effect_error_def close_result_def)
  next
    case room
    then have c: "closing ev" by (simp add: closing_def)
    have tgt: "close_targets k ev ?js = by_room (ev_Backend ev) (ev_RoomName ev)" for k
      using room by (simp add: close_targets_def fun_eq_iff)
    show ?thesis
      using assms room c
      by (simp add: applyJoinEffect_def closeRoom_def update_joins_set_end effect_ok_def join_effect_def
          effect_result_def effect_error_def close_spec_defs tgt Let_def)
  next
    case other
    then show ?thesis
      using assms by (simp add: applyJoinEffect_def effect_ok_def join_effect_def effect_result_def
          closing_def opens_def zeroResult_def)
  qed
qed

text \<open>A success does not depend on which faults were possible: the faults only turn a success into
  an error.\<close>

lemma applyJoinEffect_success:
  assumes "applyJoinEffect ts e db ev res = (db', res', None)"
  shows "applyJoinEffect ts (e\<lparr>en_exec := None, en_exec2 := None\<rparr>) db ev res = (db', res', None)"
  using assms
  by (auto simp: applyJoinEffect_def openJoin_def join_row_of_def close_def closeBySID_def
      closeByIdentity_def closeRoom_def Let_def split: if_splits option.splits sum.splits)

lemma applyJoinEffect_ok:
  assumes "applyJoinEffect ts e db ev after_insert = (db', res', None)"
  shows "effect_ok ts e ev (db_participant_join db)"
    "db' = db\<lparr>db_participant_join := join_effect ts e ev (db_participant_join db)\<rparr>"
    "res' = effect_result e ev (db_participant_join db)"
proof -
  let ?e = "e\<lparr>en_exec := None, en_exec2 := None\<rparr>" and ?js = "db_participant_join db"
  have env: "effect_ok ts ?e ev js = effect_ok ts e ev js" "join_effect ts ?e ev js = join_effect ts e ev js"
      "effect_result ?e ev js = effect_result e ev js" for js
    by (simp_all add: effect_ok_def join_effect_def effect_result_def close_joins_def join_row_of_def Let_def)
  note quiet = applyJoinEffect_success [OF assms] applyJoinEffect_quiet [of ?e ts db ev]
  show "effect_ok ts e ev ?js"
    "db' = db\<lparr>db_participant_join := join_effect ts e ev ?js\<rparr>"
    "res' = effect_result e ev ?js"
    using quiet by (simp_all add: env split: if_splits)
qed

section \<open>What a call does\<close>

definition event_identity :: "(Time \<Rightarrow> int) \<Rightarrow> Event \<Rightarrow> int \<times> string" where
  "event_identity ts ev = (ts (ev_OccurredAt ev), ev_ID ev)"

definition recorded_keys :: "database \<Rightarrow> (int \<times> string) set" where
  "recorded_keys db = event_key ` set (db_event_raw db)"

definition stored_db :: "(Time \<Rightarrow> int) \<Rightarrow> env \<Rightarrow> Event \<Rightarrow> database \<Rightarrow> database" where
  "stored_db ts e ev db =
     db\<lparr>db_event_raw := db_event_raw db @ [event_row_of ts (en_now e) ev],
        db_participant_join := join_effect ts e ev (db_participant_join db)\<rparr>"

definition quiet :: "env \<Rightarrow> bool" where
  "quiet e \<longleftrightarrow> en_begin e = None \<and> en_insert e = None \<and> en_exec e = None \<and> en_exec2 e = None \<and>
     en_commit e = Committed"

lemma event_row_of_key [simp]:
  "event_key (event_row_of ts now ev) = event_identity ts ev"
  "er_occurred_at (event_row_of ts now ev) = ts (ev_OccurredAt ev)"
  "er_event_id (event_row_of ts now ev) = ev_ID ev"
  "er_event_type (event_row_of ts now ev) = ev_Type ev"
  "er_backend (event_row_of ts now ev) = ev_Backend ev"
  by (simp_all add: event_key_def event_row_of_def event_identity_def)

lemma insertEvent_quiet:
  "en_insert e = None \<Longrightarrow> insertEvent ts e db ev =
     (if \<not> covered (db_partitions db) (ts (ev_OccurredAt ev))
      then Inl (PgError ''23514'' [] ''no partition of relation event_raw found for row'')
      else if event_identity ts ev \<in> recorded_keys db then Inr (db, None)
      else Inr (db\<lparr>db_event_raw := db_event_raw db @ [event_row_of ts (en_now e) ev]\<rparr>, Some (ev_ID ev)))"
  by (simp add: insertEvent_def recorded_keys_def Let_def)

lemma insertEvent_ok:
  assumes "insertEvent ts e db ev = Inr r"
  shows "covered (db_partitions db) (ts (ev_OccurredAt ev))"
    "r = (if event_identity ts ev \<in> recorded_keys db then (db, None)
          else (db\<lparr>db_event_raw := db_event_raw db @ [event_row_of ts (en_now e) ev]\<rparr>, Some (ev_ID ev)))"
  using assms
  by (auto simp: insertEvent_def recorded_keys_def Let_def split: option.splits if_splits)

lemma RecordEvent_spec_quiet:
  assumes "quiet e"
  shows "RecordEvent ts e db ev =
    (if \<not> covered (db_partitions db) (ts (ev_OccurredAt ev)) then (db, zeroResult, Some ErrPartitionMissing)
     else if event_identity ts ev \<in> recorded_keys db then (db, zeroResult, None)
     else if \<not> effect_ok ts e ev (db_participant_join db) then (db, after_insert, Some (effect_error ev))
     else (stored_db ts e ev db, effect_result e ev (db_participant_join db), None))"
  using assms
  by (simp add: RecordEvent_def quiet_def insertEvent_quiet applyJoinEffect_quiet commit_def stored_db_def Let_def)

text \<open>With any faults, a call either leaves the database alone or does exactly what the fault-free
  call does; it reports no error in the second case unless the acknowledgement of the commit was
  lost.\<close>

lemma RecordEvent_cases:
  assumes "RecordEvent ts e db ev = (db', res, err)"
  obtains (unchanged) "db' = db" "event_identity ts ev \<notin> recorded_keys db" "err \<noteq> None"
  | (redelivery) "db' = db" "event_identity ts ev \<in> recorded_keys db" "res = zeroResult"
  | (stored) "covered (db_partitions db) (ts (ev_OccurredAt ev))"
      "event_identity ts ev \<notin> recorded_keys db" "effect_ok ts e ev (db_participant_join db)"
      "db' = stored_db ts e ev db" "res = effect_result e ev (db_participant_join db)"
      "err = None \<or> (\<exists>t x. err = Some (OtherError t) \<and> en_commit e = CommitLost x)"
proof (cases "en_begin e")
  case (Some x)
  then show thesis using assms unchanged redelivery by (auto simp: RecordEvent_def Let_def)
next
  case bg: None
  show thesis
  proof (cases "insertEvent ts e db ev")
    case (Inl x)
    then show thesis using bg assms unchanged redelivery by (auto simp: RecordEvent_def Let_def)
  next
    case (Inr r)
    note ins = insertEvent_ok [OF Inr]
    show thesis
    proof (cases "event_identity ts ev \<in> recorded_keys db")
      case True
      then have "r = (db, None)" using ins(2) by simp
      then show thesis
        using True bg Inr assms redelivery
        by (auto simp: RecordEvent_def commit_def Let_def split: commit_outcome.splits)
    next
      case False
      let ?db1 = "db\<lparr>db_event_raw := db_event_raw db @ [event_row_of ts (en_now e) ev]\<rparr>"
      have r: "r = (?db1, Some (ev_ID ev))" using ins(2) False by simp
      obtain db2 res' err' where app: "applyJoinEffect ts e ?db1 ev after_insert = (db2, res', err')"
        by (metis prod_cases3)
      show thesis
      proof (cases err')
        case (Some x)
        then show thesis
          using False bg Inr r app assms unchanged by (auto simp: RecordEvent_def Let_def)
      next
        case None
        note ok = applyJoinEffect_ok [OF app [unfolded None]]
        have "RecordEvent ts e db ev = commit ''postgres: commit: '' e db db2 res'"
          using bg Inr r app None by (simp add: RecordEvent_def Let_def)
        then show thesis
          using ok False ins(1) assms unchanged stored
          by (auto simp: commit_def stored_db_def split: commit_outcome.splits)
      qed
    qed
  qed
qed

section \<open>A small database\<close>

text \<open>One partition, and a room with two open joins, for the examples.\<close>

definition demo_ts :: "Time \<Rightarrow> int" where
  "demo_ts t = t_sec t * 1000000 + t_nsec t div 1000"

definition demo_env :: "string \<Rightarrow> env" where
  "demo_env u = \<lparr>en_begin = None, en_insert = None, en_exec = None, en_exec2 = None,
     en_commit = Committed, en_now = 9000000, en_uuid = u, en_pick = 0\<rparr>"

definition demo_event :: "string \<Rightarrow> EventType \<Rightarrow> int \<Rightarrow> string \<Rightarrow> string \<Rightarrow> Event" where
  "demo_event i ty sec ident sid = zeroEvent\<lparr>ev_ID := i, ev_Backend := BackendLiveKit, ev_Type := ty,
     ev_OccurredAt := zeroTime\<lparr>t_sec := sec\<rparr>, ev_RoomName := ''room'',
     ev_ParticipantIdentity := ident, ev_ParticipantSID := sid\<rparr>"

definition demo_deliveries :: "(env \<times> Event) list" where
  "demo_deliveries =
     [(demo_env ''u1'', demo_event ''e1'' EventParticipantJoined 1 ''alice'' ''PA_1''),
      (demo_env ''u2'', demo_event ''e2'' EventParticipantJoined 2 ''bob'' ''PA_2'')]"

definition demo_db :: database where
  "demo_db = \<lparr>db_partitions = [(0, 100000000)],
     db_event_raw = map (\<lambda>(e, ev). event_row_of demo_ts (en_now e) ev) demo_deliveries,
     db_participant_join = map (\<lambda>(e, ev). join_row_of demo_ts e ev) demo_deliveries\<rparr>"

lemmas demo_simps = demo_db_def demo_deliveries_def demo_event_def demo_env_def demo_ts_def
  zeroEvent_def zeroTime_def

lemma quiet_demo_env [simp]: "quiet (demo_env u)"
  by (simp add: quiet_def demo_env_def)

section \<open>Properties\<close>

text \<open>C5. Atomicity, in every environment (any statement may fail with any error, the commit may fail,
  and it may be applied with its acknowledgement lost): a call either leaves both tables exactly as
  they were, or it appends the one row of the event and applies the complete effect of the event
  on the joins, and the latter only when the event was new and a partition covers it. Without an
  error the event is recorded; with one the tables are unchanged unless the acknowledgement of the
  commit was lost.\<close>

theorem RecordEvent_all_or_nothing:
  assumes "RecordEvent ts e db ev = (db', res, err)"
  shows "(db' = db \<or>
           event_identity ts ev \<notin> recorded_keys db \<and> covered (db_partitions db) (ts (ev_OccurredAt ev)) \<and>
           effect_ok ts e ev (db_participant_join db) \<and>
           db_partitions db' = db_partitions db \<and>
           db_event_raw db' = db_event_raw db @ [event_row_of ts (en_now e) ev] \<and>
           db_participant_join db' = join_effect ts e ev (db_participant_join db)) \<and>
         (err = None \<longrightarrow> event_identity ts ev \<in> recorded_keys db') \<and>
         (err \<noteq> None \<longrightarrow> db' = db \<or> (\<exists>x. en_commit e = CommitLost x))"
  by (rule RecordEvent_cases [OF assms]) (auto simp: stored_db_def recorded_keys_def)

theorem RecordEvent_all_or_nothing_witness:
  "\<exists>db' res err. RecordEvent demo_ts (demo_env ''u3'') demo_db (demo_event ''e3'' EventRoomFinished 5 [] []) = (db', res, err) \<and>
     (db' = demo_db \<or> event_identity demo_ts (demo_event ''e3'' EventRoomFinished 5 [] []) \<notin> recorded_keys demo_db) \<and>
     (err \<noteq> None \<longrightarrow> db' = demo_db \<or> (\<exists>x. en_commit (demo_env ''u3'') = CommitLost x))"
  using RecordEvent_all_or_nothing [of demo_ts "demo_env ''u3''" demo_db "demo_event ''e3'' EventRoomFinished 5 [] []"]
  by (metis prod_cases3)

text \<open>A \<open>room_finished\<close> that is new, covered by a partition and not earlier than the start of any
  open join of its room ends every open join of the room: each gets the event's time, the reason
  \<open>room_finished\<close> and the event's id, no other join changes, none of the room is left open, and the
  reported count is the number of joins ended.\<close>

theorem room_finished_closes_room:
  assumes "quiet e" "ev_Type ev = EventRoomFinished"
    and "covered (db_partitions db) (ts (ev_OccurredAt ev))" "event_identity ts ev \<notin> recorded_keys db"
    and "\<forall>j \<in> set (db_participant_join db).
           by_room (ev_Backend ev) (ev_RoomName ev) j \<longrightarrow> jr_started_at j \<le> ts (ev_OccurredAt ev)"
  shows "\<exists>db' res. RecordEvent ts e db ev = (db', res, None) \<and>
     db_participant_join db' =
       map (\<lambda>j. if by_room (ev_Backend ev) (ev_RoomName ev) j
               then j\<lparr>jr_ended_at := Some (ts (ev_OccurredAt ev)), jr_end_reason := Some EndRoomFinished,
                      jr_ended_event_id := Some (ev_ID ev), jr_updated_at := en_now e\<rparr>
               else j) (db_participant_join db) \<and>
     (\<forall>j \<in> set (db_participant_join db'). \<not> by_room (ev_Backend ev) (ev_RoomName ev) j) \<and>
     rs_Stored res \<and> \<not> rs_JoinOpened res \<and>
     rs_JoinsClosed res = int (length (filter (by_room (ev_Backend ev) (ev_RoomName ev)) (db_participant_join db)))"
proof -
  let ?js = "db_participant_join db"
  have tgt: "close_targets k ev js = by_room (ev_Backend ev) (ev_RoomName ev)" for k js
    using assms(2) by (simp add: close_targets_def fun_eq_iff)
  have c: "closing ev" using assms(2) by (simp add: closing_def)
  have "effect_ok ts e ev ?js"
    using assms(5) c by (auto simp: effect_ok_def close_late_def tgt not_less)
  then have "RecordEvent ts e db ev = (stored_db ts e ev db, effect_result e ev ?js, None)"
    using assms(3,4) by (simp add: RecordEvent_spec_quiet [OF assms(1)])
  moreover have "join_effect ts e ev ?js =
      map (\<lambda>j. if by_room (ev_Backend ev) (ev_RoomName ev) j
             then set_end (ts (ev_OccurredAt ev)) EndRoomFinished (ev_ID ev) (en_now e) j else j) ?js"
    using c assms(2) by (simp add: join_effect_def close_joins_def tgt close_reason_def)
  moreover have "\<not> by_room b room (set_end at reason eid now j)" for b room at reason eid now j
    by (simp add: by_room_def)
  ultimately show ?thesis
    using c assms(2)
    by (auto simp: stored_db_def effect_result_def close_result_def close_count_def tgt Let_def
        set_end_def [symmetric])
qed

theorem room_finished_closes_room_witness:
  "\<exists>db' res. RecordEvent demo_ts (demo_env ''u3'') demo_db (demo_event ''e3'' EventRoomFinished 5 [] []) = (db', res, None) \<and>
     (\<forall>j \<in> set (db_participant_join db'). \<not> by_room BackendLiveKit ''room'' j) \<and> rs_JoinsClosed res = 2"
proof -
  let ?ev = "demo_event ''e3'' EventRoomFinished 5 [] []"
  have ev: "ev_Type ?ev = EventRoomFinished" "ev_Backend ?ev = BackendLiveKit" "ev_RoomName ?ev = ''room''"
    by (simp_all add: demo_event_def)
  have "covered (db_partitions demo_db) (demo_ts (ev_OccurredAt ?ev))"
    by (simp add: covered_def demo_simps)
  moreover have "event_identity demo_ts ?ev \<notin> recorded_keys demo_db"
    by (simp add: event_identity_def recorded_keys_def event_key_def event_row_of_def demo_simps)
  moreover have "\<forall>j \<in> set (db_participant_join demo_db).
      by_room (ev_Backend ?ev) (ev_RoomName ?ev) j \<longrightarrow> jr_started_at j \<le> demo_ts (ev_OccurredAt ?ev)"
    by (simp add: demo_simps)
  moreover have "length (filter (by_room BackendLiveKit ''room'') (db_participant_join demo_db)) = 2"
    by (simp add: by_room_def open_row_def demo_simps)
  ultimately show ?thesis
    using room_finished_closes_room [OF quiet_demo_env ev(1)] unfolding ev by fastforce
qed

lemma left_closes:
  assumes "quiet e" "ev_Type ev = EventParticipantLeft"
    and "covered (db_partitions db) (ts (ev_OccurredAt ev))" "event_identity ts ev \<notin> recorded_keys db"
    and "T = {j \<in> set (db_participant_join db).
               if \<exists>c \<in> set (db_participant_join db). sid_matches ev c then sid_matches ev j
               else latest_open (ev_Backend ev) (ev_RoomName ev) (ev_ParticipantIdentity ev) (en_pick e)
                      (db_participant_join db) = Some (jr_join_id j)}"
  shows "if \<exists>j \<in> T. ts (ev_OccurredAt ev) < jr_started_at j
         then RecordEvent ts e db ev = (db, after_insert, Some ErrCloseOutOfOrder)
         else \<exists>db' res. RecordEvent ts e db ev = (db', res, None) \<and>
           db_participant_join db' =
             map (\<lambda>j. if j \<in> T then set_end (ts (ev_OccurredAt ev)) EndParticipantLeft (ev_ID ev) (en_now e) j else j)
               (db_participant_join db) \<and>
           rs_Stored res \<and> \<not> rs_JoinOpened res \<and> (rs_CloseUnmatched res \<longleftrightarrow> T = {}) \<and>
           rs_JoinsClosed res = int (length (filter (\<lambda>j. j \<in> T) (db_participant_join db)))"
proof -
  let ?js = "db_participant_join db" and ?k = "en_pick e"
  have T: "j \<in> T \<longleftrightarrow> close_targets ?k ev ?js j" if "j \<in> set ?js" for j
    using that assms(2) by (simp add: assms(5) close_targets_def)
  have sub: "T \<subseteq> set ?js" unfolding assms(5) by blast
  have c: "closing ev" using assms(2) by (simp add: closing_def)
  have late: "close_late ts ?k ev ?js \<longleftrightarrow> (\<exists>j \<in> T. ts (ev_OccurredAt ev) < jr_started_at j)"
    unfolding close_late_def using T sub by blast
  have joins: "join_effect ts e ev ?js =
      map (\<lambda>j. if j \<in> T then set_end (ts (ev_OccurredAt ev)) EndParticipantLeft (ev_ID ev) (en_now e) j else j) ?js"
    using c T assms(2) by (simp add: join_effect_def close_joins_def close_reason_def)
  have count: "close_count ?k ev ?js = length (filter (\<lambda>j. j \<in> T) ?js)"
    unfolding close_count_def using T by (metis (no_types, lifting) filter_cong)
  have empty: "filter (\<lambda>j. j \<in> T) ?js = [] \<longleftrightarrow> T = {}"
    using sub by (auto simp: filter_empty_conv)
  have ok: "effect_ok ts e ev ?js \<longleftrightarrow> \<not> (\<exists>j \<in> T. ts (ev_OccurredAt ev) < jr_started_at j)"
    using c late by (simp add: effect_ok_def)
  have res: "effect_result e ev ?js = after_insert\<lparr>rs_JoinsClosed := int (length (filter (\<lambda>j. j \<in> T) ?js)),
      rs_CloseUnmatched := (T = {})\<rparr>"
    using c assms(2) by (simp add: effect_result_def close_result_def count empty Let_def)
  have "RecordEvent ts e db ev =
      (if \<exists>j \<in> T. ts (ev_OccurredAt ev) < jr_started_at j then (db, after_insert, Some ErrCloseOutOfOrder)
       else (stored_db ts e ev db, effect_result e ev ?js, None))"
    using assms(3,4) c unfolding RecordEvent_spec_quiet [OF assms(1)] ok by (simp add: effect_error_def)
  then show ?thesis unfolding res by (simp add: stored_db_def joins)
qed

text \<open>The join the fallback picks: an open one of the identity with the greatest start.\<close>

lemma latest_open_greatest:
  "latest_open b room ident k js = None \<longleftrightarrow> (\<forall>j \<in> set js. \<not> by_identity b room ident j)"
  "latest_open b room ident k js = Some i \<Longrightarrow>
     \<exists>p \<in> set js. by_identity b room ident p \<and> jr_join_id p = i \<and>
       (\<forall>c \<in> set js. by_identity b room ident c \<longrightarrow> jr_started_at c \<le> jr_started_at p)"
proof -
  define cs where "cs = filter (by_identity b room ident) js"
  define ties where "ties = filter (\<lambda>j. \<forall>c \<in> set cs. jr_started_at c \<le> jr_started_at j) cs"
  have eq: "latest_open b room ident k js = (if ties = [] then None else Some (jr_join_id (ties ! (k mod length ties))))"
    by (simp add: latest_open_def Let_def cs_def ties_def)
  have "ties \<noteq> []" if "cs \<noteq> []"
  proof -
    have fin: "finite (jr_started_at ` set cs)" "jr_started_at ` set cs \<noteq> {}" using that by simp_all
    obtain m where m: "m \<in> set cs" "jr_started_at m = Max (jr_started_at ` set cs)" using Max_in [OF fin] by auto
    then have "m \<in> set ties" using Max_ge [OF fin(1)] by (simp add: ties_def)
    then show ?thesis by auto
  qed
  then have "ties = [] \<longleftrightarrow> cs = []" by (auto simp: ties_def)
  then show "latest_open b room ident k js = None \<longleftrightarrow> (\<forall>j \<in> set js. \<not> by_identity b room ident j)"
    by (simp add: eq cs_def filter_empty_conv)
  assume i: "latest_open b room ident k js = Some i"
  then have "ties \<noteq> []" "i = jr_join_id (ties ! (k mod length ties))" by (auto simp: eq split: if_splits)
  then have "ties ! (k mod length ties) \<in> set ties" "i = jr_join_id (ties ! (k mod length ties))" by simp_all
  then show "\<exists>p \<in> set js. by_identity b room ident p \<and> jr_join_id p = i \<and>
      (\<forall>c \<in> set js. by_identity b room ident c \<longrightarrow> jr_started_at c \<le> jr_started_at p)"
    by (auto simp: ties_def cs_def)
qed

text \<open>C31. A \<open>participant_left\<close> that is new and covered, without faults. When open joins of its backend and room carry its
  participant SID, these are ended and no others. When none does but its identity has open joins
  there, the join ended is one of them that started last. When there is neither, no join
  changes, none is invented, and the result says so (\<open>CloseUnmatched\<close>). In each case a selected
  join that started after the event makes the call fail with \<open>ErrCloseOutOfOrder\<close> instead.\<close>

theorem participant_left_closes:
  assumes "quiet e" "ev_Type ev = EventParticipantLeft"
    and "covered (db_partitions db) (ts (ev_OccurredAt ev))" "event_identity ts ev \<notin> recorded_keys db"
  shows "\<exists>T \<subseteq> set (db_participant_join db).
    (let here = {j \<in> set (db_participant_join db). jr_backend j = ev_Backend ev \<and> jr_room_name j = ev_RoomName ev \<and> jr_ended_at j = None};
         sid = {j \<in> here. ev_ParticipantSID ev \<noteq> [] \<and> jr_participant_sid j = Some (ev_ParticipantSID ev)};
         ident = {j \<in> here. jr_participant_identity j = ev_ParticipantIdentity ev}
     in if sid \<noteq> {} then T = sid
        else if ident = {} then T = {}
        else \<exists>p \<in> ident. (\<forall>c \<in> ident. jr_started_at c \<le> jr_started_at p) \<and>
               T = {j \<in> set (db_participant_join db). jr_join_id j = jr_join_id p}) \<and>
    (if \<exists>j \<in> T. ts (ev_OccurredAt ev) < jr_started_at j
     then RecordEvent ts e db ev = (db, after_insert, Some ErrCloseOutOfOrder)
     else \<exists>db' res. RecordEvent ts e db ev = (db', res, None) \<and>
       db_participant_join db' =
         map (\<lambda>j. if j \<in> T then set_end (ts (ev_OccurredAt ev)) EndParticipantLeft (ev_ID ev) (en_now e) j else j)
           (db_participant_join db) \<and>
       rs_Stored res \<and> \<not> rs_JoinOpened res \<and> (rs_CloseUnmatched res \<longleftrightarrow> T = {}) \<and>
       rs_JoinsClosed res = int (length (filter (\<lambda>j. j \<in> T) (db_participant_join db))))"
proof -
  let ?js = "db_participant_join db"
  let ?pick = "latest_open (ev_Backend ev) (ev_RoomName ev) (ev_ParticipantIdentity ev) (en_pick e) ?js"
  define T where "T = {j \<in> set ?js. if \<exists>c \<in> set ?js. sid_matches ev c then sid_matches ev j else ?pick = Some (jr_join_id j)}"
  define here where "here = {j \<in> set ?js. jr_backend j = ev_Backend ev \<and> jr_room_name j = ev_RoomName ev \<and> jr_ended_at j = None}"
  define sid where "sid = {j \<in> here. ev_ParticipantSID ev \<noteq> [] \<and> jr_participant_sid j = Some (ev_ParticipantSID ev)}"
  define ident where "ident = {j \<in> here. jr_participant_identity j = ev_ParticipantIdentity ev}"
  have sid: "sid = {j \<in> set ?js. sid_matches ev j}"
    by (auto simp: sid_def here_def sid_matches_def by_sid_def open_row_def)
  have ident: "ident = {j \<in> set ?js. by_identity (ev_Backend ev) (ev_RoomName ev) (ev_ParticipantIdentity ev) j}"
    by (auto simp: ident_def here_def by_identity_def open_row_def)
  have pick: "\<exists>p \<in> ident. (\<forall>c \<in> ident. jr_started_at c \<le> jr_started_at p) \<and> ?pick = Some (jr_join_id p)" if ne: "ident \<noteq> {}"
  proof -
    obtain i where i: "?pick = Some i" using ne latest_open_greatest(1) [of "ev_Backend ev" "ev_RoomName ev" "ev_ParticipantIdentity ev" "en_pick e" ?js]
      by (cases ?pick) (auto simp: ident)
    from latest_open_greatest(2) [OF i] i show ?thesis by (auto simp: ident)
  qed
  have none: "?pick = None" if "ident = {}" using that latest_open_greatest(1) by (auto simp: ident)
  have "if sid \<noteq> {} then T = sid else if ident = {} then T = {}
      else \<exists>p \<in> ident. (\<forall>c \<in> ident. jr_started_at c \<le> jr_started_at p) \<and> T = {j \<in> set ?js. jr_join_id j = jr_join_id p}"
  proof (cases "sid = {}")
    case True
    then have T: "T = {j \<in> set ?js. ?pick = Some (jr_join_id j)}" by (auto simp: T_def sid)
    show ?thesis
    proof (cases "ident = {}")
      case False
      from pick [OF False] obtain p where "p \<in> ident" "\<forall>c \<in> ident. jr_started_at c \<le> jr_started_at p" "?pick = Some (jr_join_id p)" by blast
      then show ?thesis using True False by (auto simp: T)
    qed (use True T none in simp)
  next
    case False
    then show ?thesis by (auto simp: T_def sid)
  qed
  moreover have "T \<subseteq> set ?js" by (auto simp: T_def)
  ultimately show ?thesis
    using left_closes [OF assms T_def] unfolding Let_def here_def [symmetric] sid_def [symmetric] ident_def [symmetric]
    by (intro exI [of _ T] conjI)
qed

theorem participant_left_closes_witness:
  "\<exists>db' res. RecordEvent demo_ts (demo_env ''u3'') demo_db
       (demo_event ''e3'' EventParticipantLeft 5 ''carol'' []) = (db', res, None) \<and>
     rs_Stored res \<and> rs_CloseUnmatched res \<and> rs_JoinsClosed res = 0 \<and>
     db_participant_join db' = db_participant_join demo_db"
proof -
  let ?ev = "demo_event ''e3'' EventParticipantLeft 5 ''carol'' []"
  have ev: "ev_Type ?ev = EventParticipantLeft" by (simp add: demo_event_def)
  have cov: "covered (db_partitions demo_db) (demo_ts (ev_OccurredAt ?ev))"
    by (simp add: covered_def demo_simps)
  have new: "event_identity demo_ts ?ev \<notin> recorded_keys demo_db"
    by (simp add: event_identity_def recorded_keys_def event_key_def event_row_of_def demo_simps)
  have nobody: "ev_ParticipantSID ?ev = []" "\<forall>j \<in> set (db_participant_join demo_db). jr_participant_identity j \<noteq> ev_ParticipantIdentity ?ev"
    by (simp_all add: demo_simps)
  let ?here = "{j \<in> set (db_participant_join demo_db). jr_backend j = ev_Backend ?ev \<and> jr_room_name j = ev_RoomName ?ev \<and> jr_ended_at j = None}"
  have none: "{j \<in> ?here. jr_participant_identity j = ev_ParticipantIdentity ?ev} = {}" using nobody(2) by blast
  have no_sid: "{j \<in> ?here. ev_ParticipantSID ?ev \<noteq> [] \<and> jr_participant_sid j = Some (ev_ParticipantSID ?ev)} = {}"
    using nobody(1) by blast
  show ?thesis
    using participant_left_closes [OF quiet_demo_env [of "''u3''"] ev cov new] unfolding Let_def none no_sid by simp blast
qed

text \<open>C32. A refused close is not recorded: when \<open>RecordEvent\<close> returns \<open>ErrCloseOutOfOrder\<close> the
  transaction has been rolled back, and neither the joins nor \<open>event_raw\<close> has changed; the event is
  not there although the result it returns with the error says \<open>Stored\<close>. Without faults this is
  the outcome of every new, covered closing event that selects one join started after it; for
  \<open>room_finished\<close> a single such join keeps all the others of the room open as well.\<close>

theorem close_out_of_order_drops_event:
  assumes "RecordEvent ts e db ev = (db', res, Some ErrCloseOutOfOrder)"
  shows "db' = db \<and> rs_Stored res \<and> event_identity ts ev \<notin> recorded_keys db'"
proof -
  let ?db1 = "db\<lparr>db_event_raw := db_event_raw db @ [event_row_of ts (en_now e) ev]\<rparr>"
  have bg: "en_begin e = None" using assms by (cases "en_begin e") (auto simp: RecordEvent_def Let_def)
  obtain r where r: "insertEvent ts e db ev = Inr r"
    using assms bg by (cases "insertEvent ts e db ev") (auto simp: RecordEvent_def Let_def split: if_splits)
  have new: "event_identity ts ev \<notin> recorded_keys db"
    using assms bg r insertEvent_ok(2) [OF r]
    by (auto simp: RecordEvent_def commit_def Let_def split: commit_outcome.splits)
  then have r1: "r = (?db1, Some (ev_ID ev))" using insertEvent_ok(2) [OF r] by simp
  obtain db2 res' err' where app: "applyJoinEffect ts e ?db1 ev after_insert = (db2, res', err')"
    by (metis prod_cases3)
  have err: "err' \<noteq> None"
    using assms bg r r1 app
    by (cases err') (auto simp: RecordEvent_def commit_def Let_def split: commit_outcome.splits)
  then have "res' = after_insert"
    using app by (auto simp: applyJoinEffect_def split: if_splits sum.splits)
  then show ?thesis
    using assms bg r r1 app err new by (auto simp: RecordEvent_def Let_def)
qed

theorem close_out_of_order_drops_event_witness:
  "\<exists>db' res. RecordEvent demo_ts (demo_env ''u3'') demo_db (demo_event ''e3'' EventRoomFinished 1 [] []) =
       (db', res, Some ErrCloseOutOfOrder) \<and> db' = demo_db \<and> rs_Stored res \<and>
     event_identity demo_ts (demo_event ''e3'' EventRoomFinished 1 [] []) \<notin> recorded_keys db'"
proof -
  let ?ev = "demo_event ''e3'' EventRoomFinished 1 [] []"
  have "covered (db_partitions demo_db) (demo_ts (ev_OccurredAt ?ev))"
    by (simp add: covered_def demo_simps)
  moreover have "event_identity demo_ts ?ev \<notin> recorded_keys demo_db"
    by (simp add: event_identity_def recorded_keys_def event_key_def event_row_of_def demo_simps)
  moreover have "\<not> effect_ok demo_ts (demo_env ''u3'') ?ev (db_participant_join demo_db)" "closing ?ev"
    by (simp_all add: effect_ok_def closing_def close_late_def close_targets_def by_room_def open_row_def demo_simps)
  ultimately have eq: "RecordEvent demo_ts (demo_env ''u3'') demo_db ?ev = (demo_db, after_insert, Some ErrCloseOutOfOrder)"
    by (simp add: RecordEvent_spec_quiet effect_error_def)
  show ?thesis using close_out_of_order_drops_event [OF eq] eq by blast
qed

text \<open>C33. Without faults, \<open>ErrPartitionMissing\<close> is returned exactly for an event whose time no
  partition covers; nothing is stored then. No violation of a constraint of \<open>participant_join\<close> is
  ever classified as a missing partition, and the constraint \<open>participant_join_end_after_start\<close> is
  unreachable: a row that violates it is refused with SQLSTATE 22000 first, the one code
  \<open>classifyClose\<close> turns into \<open>ErrCloseOutOfOrder\<close>.\<close>

theorem partition_missing_classified:
  assumes "quiet e"
  shows "(snd (snd (RecordEvent ts e db ev)) = Some ErrPartitionMissing \<longleftrightarrow>
            \<not> covered (db_partitions db) (ts (ev_OccurredAt ev))) \<and>
         (snd (snd (RecordEvent ts e db ev)) = Some ErrPartitionMissing \<longrightarrow>
            fst (RecordEvent ts e db ev) = db \<and> \<not> rs_Stored (fst (snd (RecordEvent ts e db ev)))) \<and>
         (\<forall>j err. join_row_error j = Some err \<longrightarrow>
            \<not> isPartitionMissing err \<and> err \<noteq> check_error ''participant_join_end_after_start'' \<and>
            (classifyClose err = ErrCloseOutOfOrder \<longleftrightarrow> ends_before_start j))"
proof (intro conjI allI impI)
  show "snd (snd (RecordEvent ts e db ev)) = Some ErrPartitionMissing \<longleftrightarrow>
      \<not> covered (db_partitions db) (ts (ev_OccurredAt ev))"
    by (simp add: RecordEvent_spec_quiet [OF assms] effect_error_def)
  show "fst (RecordEvent ts e db ev) = db" "\<not> rs_Stored (fst (snd (RecordEvent ts e db ev)))"
    if "snd (snd (RecordEvent ts e db ev)) = Some ErrPartitionMissing"
    using that by (simp_all add: RecordEvent_spec_quiet [OF assms] effect_error_def split: if_splits)
qed (auto simp: join_row_error_def check_error_def range_error_def classifyClose_def split: if_splits)

theorem partition_missing_classified_witness:
  "snd (snd (RecordEvent demo_ts (demo_env ''u3'') demo_db (demo_event ''e3'' EventRoomStarted 200 [] []))) =
     Some ErrPartitionMissing"
proof -
  have "\<not> covered (db_partitions demo_db) (demo_ts (ev_OccurredAt (demo_event ''e3'' EventRoomStarted 200 [] [])))"
    by (simp add: covered_def demo_simps)
  then show ?thesis using partition_missing_classified [OF quiet_demo_env] by blast
qed

text \<open>A \<open>participant_joined\<close> that is new, covered and given a fresh join id, without faults, opens
  exactly one join: it starts at the event's time, is open, carries the backend, room, identity and
  event id of the event, and is appended to the joins, all of which are kept. When a join was
  already opened by an event of that id nothing is opened and the result says so. Other open joins
  of the same identity do not prevent it.\<close>

theorem participant_joined_opens_one:
  assumes "quiet e" "ev_Type ev = EventParticipantJoined"
    and "covered (db_partitions db) (ts (ev_OccurredAt ev))" "event_identity ts ev \<notin> recorded_keys db"
    and "en_uuid e \<notin> jr_join_id ` set (db_participant_join db)"
  shows "\<exists>db' res. RecordEvent ts e db ev = (db', res, None) \<and> rs_Stored res \<and>
     (rs_JoinOpened res \<longleftrightarrow> ev_ID ev \<notin> jr_started_event_id ` set (db_participant_join db)) \<and>
     rs_JoinsClosed res = 0 \<and> \<not> rs_CloseUnmatched res \<and>
     (if rs_JoinOpened res
      then \<exists>j. db_participant_join db' = db_participant_join db @ [j] \<and> open_row j \<and>
             jr_started_at j = ts (ev_OccurredAt ev) \<and> jr_started_event_id j = ev_ID ev \<and>
             jr_backend j = ev_Backend ev \<and> jr_room_name j = ev_RoomName ev \<and>
             jr_participant_identity j = ev_ParticipantIdentity ev
      else db_participant_join db' = db_participant_join db)"
proof -
  let ?js = "db_participant_join db"
  have nc: "\<not> closing ev" by (rule closing_not_joined [OF assms(2)])
  then have "effect_ok ts e ev ?js" using assms(5) by (simp add: effect_ok_def)
  then have "RecordEvent ts e db ev = (stored_db ts e ev db, effect_result e ev ?js, None)"
    using assms(3,4) by (simp add: RecordEvent_spec_quiet [OF assms(1)])
  then show ?thesis
    using nc assms(2)
    by (auto simp: stored_db_def join_effect_def effect_result_def opens_def open_row_def zeroResult_def Let_def)
qed

theorem participant_joined_opens_one_witness:
  "\<exists>db' res. RecordEvent demo_ts (demo_env ''u3'') demo_db
       (demo_event ''e3'' EventParticipantJoined 5 ''alice'' ''PA_3'') = (db', res, None) \<and>
     rs_Stored res \<and> rs_JoinsClosed res = 0"
proof -
  let ?ev = "demo_event ''e3'' EventParticipantJoined 5 ''alice'' ''PA_3''"
  have "ev_Type ?ev = EventParticipantJoined" by (simp add: demo_event_def)
  moreover have "covered (db_partitions demo_db) (demo_ts (ev_OccurredAt ?ev))"
    by (simp add: covered_def demo_simps)
  moreover have "event_identity demo_ts ?ev \<notin> recorded_keys demo_db"
    by (simp add: event_identity_def recorded_keys_def event_key_def event_row_of_def demo_simps)
  moreover have "en_uuid (demo_env ''u3'') \<notin> jr_join_id ` set (db_participant_join demo_db)"
    by (simp add: join_row_of_def demo_simps)
  ultimately show ?thesis
    using participant_joined_opens_one [OF quiet_demo_env] by blast
qed

end
