(* ===== verification/Postgres_Invariant.thy ===== *)
theory Postgres_Invariant
  imports Postgres
begin

text \<open>
  What holds of the database in every state the write path can bring it to: the invariant of the
  two tables with the provenance of every join, the interpretation of the \<open>Writer\<close> contract, the
  abstract reading of \<open>participant_join\<close> as a replay of \<open>event_raw\<close>, the order in which states
  grow, and the counts a client may keep from the results it is given.
\<close>

section \<open>Selection of the joins to close\<close>

lemma latest_open_Some:
  assumes "latest_open b room ident k js = Some i"
  obtains c where "c \<in> set js" "by_identity b room ident c" "jr_join_id c = i"
    "\<And>d. d \<in> set js \<Longrightarrow> by_identity b room ident d \<Longrightarrow> jr_started_at d \<le> jr_started_at c"
proof -
  let ?cs = "filter (by_identity b room ident) js"
  let ?ties = "filter (\<lambda>j. \<forall>c \<in> set ?cs. jr_started_at c \<le> jr_started_at j) ?cs"
  have ne: "?ties \<noteq> []" and i: "i = jr_join_id (?ties ! (k mod length ?ties))"
    using assms by (auto simp: latest_open_def Let_def split: if_splits)
  have "?ties ! (k mod length ?ties) \<in> set ?ties"
    using ne by (intro nth_mem) simp
  then show thesis using that [of "?ties ! (k mod length ?ties)"] i by auto
qed

lemma latest_open_None:
  "latest_open b room ident k js = None \<longleftrightarrow> (\<forall>j \<in> set js. \<not> by_identity b room ident j)"
proof
  let ?cs = "filter (by_identity b room ident) js"
  let ?ties = "filter (\<lambda>j. \<forall>c \<in> set ?cs. jr_started_at c \<le> jr_started_at j) ?cs"
  assume "latest_open b room ident k js = None"
  then have none: "?ties = []" by (auto simp: latest_open_def Let_def split: if_splits)
  show "\<forall>j \<in> set js. \<not> by_identity b room ident j"
  proof (rule ccontr)
    assume "\<not> ?thesis"
    then have "jr_started_at ` set ?cs \<noteq> {}" by auto
    then have "Max (jr_started_at ` set ?cs) \<in> jr_started_at ` set ?cs" by (intro Max_in) auto
    then obtain m where "m \<in> set ?cs" "Max (jr_started_at ` set ?cs) = jr_started_at m" by blast
    then have "m \<in> set ?ties" using Max_ge [of "jr_started_at ` set ?cs"] by auto
    then show False unfolding none by simp
  qed
next
  assume "\<forall>j \<in> set js. \<not> by_identity b room ident j"
  then have "filter (by_identity b room ident) js = []" by (simp add: filter_empty_conv)
  then show "latest_open b room ident k js = None" by (simp add: latest_open_def Let_def)
qed

lemma same_join: "distinct (map jr_join_id js) \<Longrightarrow> j \<in> set js \<Longrightarrow> c \<in> set js \<Longrightarrow> jr_join_id j = jr_join_id c \<Longrightarrow> j = c"
  by (metis distinct_map inj_onD)

text \<open>Every join a closing event selects is open and belongs to the room of the event.\<close>

definition matches_left :: "Event \<Rightarrow> join_row \<Rightarrow> bool" where
  "matches_left ev j \<longleftrightarrow> sid_matches ev j \<or>
     by_identity (ev_Backend ev) (ev_RoomName ev) (ev_ParticipantIdentity ev) j"

lemma close_targets_open:
  assumes "distinct (map jr_join_id js)" "j \<in> set js" "close_targets k ev js j"
  shows "open_row j" "jr_backend j = ev_Backend ev" "jr_room_name j = ev_RoomName ev"
    "ev_Type ev = EventRoomFinished \<or> matches_left ev j"
proof -
  have "by_room (ev_Backend ev) (ev_RoomName ev) j \<and> (ev_Type ev = EventRoomFinished \<or> matches_left ev j)"
  proof (cases "latest_open (ev_Backend ev) (ev_RoomName ev) (ev_ParticipantIdentity ev) k js = Some (jr_join_id j)")
    case True
    obtain c where c: "c \<in> set js" "jr_join_id c = jr_join_id j"
        "by_identity (ev_Backend ev) (ev_RoomName ev) (ev_ParticipantIdentity ev) c"
      using latest_open_Some [OF True] by metis
    have "j = c" using same_join [OF assms(1,2) c(1)] c(2) by simp
    then show ?thesis using c(3) by (auto simp: by_identity_def by_room_def matches_left_def)
  next
    case False
    then show ?thesis
      using assms(3)
      by (auto simp: close_targets_def sid_matches_def by_sid_def by_room_def matches_left_def split: if_splits)
  qed
  then show "open_row j" "jr_backend j = ev_Backend ev" "jr_room_name j = ev_RoomName ev"
    "ev_Type ev = EventRoomFinished \<or> matches_left ev j"
    by (auto simp: by_room_def)
qed

section \<open>The invariant\<close>

text \<open>\<open>started_by r j\<close>: the row \<open>r\<close> of \<open>event_raw\<close> is the observed event that opened \<open>j\<close>;
  \<open>ended_by r j\<close>: it is the observed event that ended it.\<close>

definition started_by :: "event_row \<Rightarrow> join_row \<Rightarrow> bool" where
  "started_by r j \<longleftrightarrow> er_event_id r = jr_started_event_id j \<and> er_event_type r = EventParticipantJoined \<and>
     er_backend r = jr_backend j \<and> er_room_name r = nullable (jr_room_name j) \<and>
     er_participant_identity r = nullable (jr_participant_identity j) \<and>
     er_participant_sid r = jr_participant_sid j \<and> er_room_sid r = jr_room_sid j \<and>
     er_occurred_at r = jr_started_at j"

definition ended_by :: "event_row \<Rightarrow> join_row \<Rightarrow> bool" where
  "ended_by r j \<longleftrightarrow> jr_ended_event_id j = Some (er_event_id r) \<and> jr_ended_at j = Some (er_occurred_at r) \<and>
     er_backend r = jr_backend j \<and> er_room_name r = nullable (jr_room_name j) \<and>
     (er_event_type r = EventRoomFinished \<and> jr_end_reason j = Some EndRoomFinished \<or>
      er_event_type r = EventParticipantLeft \<and> jr_end_reason j = Some EndParticipantLeft \<and>
        (er_participant_sid r \<noteq> None \<and> er_participant_sid r = jr_participant_sid j \<or>
         er_participant_identity r = nullable (jr_participant_identity j)))"

definition join_inv :: "event_row list \<Rightarrow> join_row \<Rightarrow> bool" where
  "join_inv rs j \<longleftrightarrow> (\<exists>r \<in> set rs. started_by r j) \<and>
     (case jr_ended_at j of
        None \<Rightarrow> jr_end_reason j = None \<and> jr_ended_event_id j = None
      | Some t \<Rightarrow> jr_started_at j \<le> t \<and> (\<exists>r \<in> set rs. ended_by r j))"

definition db_inv :: "database \<Rightarrow> bool" where
  "db_inv db \<longleftrightarrow>
     distinct (map event_key (db_event_raw db)) \<and>
     (\<forall>r \<in> set (db_event_raw db). covered (db_partitions db) (er_occurred_at r)) \<and>
     distinct (map jr_join_id (db_participant_join db)) \<and>
     distinct (map jr_started_event_id (db_participant_join db)) \<and>
     (\<forall>j \<in> set (db_participant_join db). join_inv (db_event_raw db) j)"

lemma join_inv_mono: "join_inv rs j \<Longrightarrow> set rs \<subseteq> set rs' \<Longrightarrow> join_inv rs' j"
  by (auto simp: join_inv_def split: option.splits)

lemma map_close_joins:
  "(\<And>at reason eid now j. f (set_end at reason eid now j) = f j) \<Longrightarrow> map f (close_joins ts e ev js) = map f js"
  by (simp add: close_joins_def)

lemma join_effect_keys:
  assumes "effect_ok ts e ev js"
  shows "distinct (map jr_join_id js) \<Longrightarrow> distinct (map jr_join_id (join_effect ts e ev js))"
    and "distinct (map jr_started_event_id js) \<Longrightarrow> distinct (map jr_started_event_id (join_effect ts e ev js))"
  using assms by (auto simp: join_effect_def map_close_joins effect_ok_def opens_def)

lemma started_by_fresh: "ev_Type ev = EventParticipantJoined \<Longrightarrow> started_by (event_row_of ts now ev) (join_row_of ts e ev)"
  by (simp add: started_by_def event_row_of_def join_row_of_def)

lemma started_by_set_end [simp]: "started_by r (set_end at reason eid now j) = started_by r j"
  by (simp add: started_by_def)

lemma ended_by_close:
  assumes "closing ev" "distinct (map jr_join_id js)" "j \<in> set js" "close_targets k ev js j"
  shows "ended_by (event_row_of ts now ev) (set_end (ts (ev_OccurredAt ev)) (close_reason ev) (ev_ID ev) now j)"
  using close_targets_open [OF assms(2-4)] assms(1)
  by (auto simp: ended_by_def close_reason_def closing_def matches_left_def sid_matches_def by_sid_def
      by_identity_def event_row_of_def nullable_def)

lemma join_inv_effect:
  assumes "\<forall>j \<in> set js. join_inv rs j" "distinct (map jr_join_id js)" "effect_ok ts e ev js"
    and "j \<in> set (join_effect ts e ev js)"
  shows "join_inv (rs @ [event_row_of ts (en_now e) ev]) j"
proof -
  let ?rs = "rs @ [event_row_of ts (en_now e) ev]"
  have old: "join_inv ?rs i" if "i \<in> set js" for i
    using assms(1) that join_inv_mono [of rs i ?rs] by auto
  consider (same) "j \<in> set js" | (new) "opens ev js" "j = join_row_of ts e ev"
    | (closed) i where "closing ev" "i \<in> set js" "close_targets (en_pick e) ev js i"
        "j = set_end (ts (ev_OccurredAt ev)) (close_reason ev) (ev_ID ev) (en_now e) i"
    using assms(4) by (auto simp: join_effect_def close_joins_def split: if_splits)
  then show ?thesis
  proof cases
    case same then show ?thesis by (rule old)
  next
    case new
    then show ?thesis using started_by_fresh [of ev ts "en_now e" e] by (auto simp: join_inv_def opens_def)
  next
    case closed
    have "jr_started_at i \<le> ts (ev_OccurredAt ev)"
      using assms(3) closed(1-3) by (auto simp: effect_ok_def close_late_def not_less)
    moreover have "\<exists>r \<in> set ?rs. started_by r i" using old [OF closed(2)] by (simp add: join_inv_def)
    moreover have "ended_by (event_row_of ts (en_now e) ev) j"
      using ended_by_close [OF closed(1) assms(2) closed(2,3)] unfolding closed(4) .
    ultimately show ?thesis by (auto simp: join_inv_def closed(4))
  qed
qed

lemma stored_db_simps [simp]:
  "db_partitions (stored_db ts e ev db) = db_partitions db"
  "db_event_raw (stored_db ts e ev db) = db_event_raw db @ [event_row_of ts (en_now e) ev]"
  "db_participant_join (stored_db ts e ev db) = join_effect ts e ev (db_participant_join db)"
  by (simp_all add: stored_db_def)

lemma db_inv_stored:
  assumes "db_inv db" "covered (db_partitions db) (ts (ev_OccurredAt ev))"
    "event_identity ts ev \<notin> recorded_keys db" "effect_ok ts e ev (db_participant_join db)"
  shows "db_inv (stored_db ts e ev db)"
  using assms join_effect_keys [OF assms(4)] join_inv_effect [OF _ _ assms(4)]
  unfolding db_inv_def by (auto simp: recorded_keys_def)

lemma RecordEvent_inv: "db_inv db \<Longrightarrow> db_inv (fst (RecordEvent ts e db ev))"
proof -
  assume inv: "db_inv db"
  obtain db' res err where eq: "RecordEvent ts e db ev = (db', res, err)" by (metis prod_cases3)
  show ?thesis
    by (rule RecordEvent_cases [OF eq]) (use inv eq db_inv_stored in auto)
qed

section \<open>The Writer contract\<close>

interpretation pg: writer "RecordEvent ts" recorded_keys "event_identity ts" db_inv for ts
proof unfold_locales
  fix e db ev
  assume inv: "db_inv db"
  obtain db' res err where eq: "RecordEvent ts e db ev = (db', res, err)" by (metis prod_cases3)
  show "db_inv (fst (RecordEvent ts e db ev))" by (rule RecordEvent_inv [OF inv])
  show "event_identity ts ev \<in> recorded_keys db \<Longrightarrow>
      fst (RecordEvent ts e db ev) = db \<and> fst (snd (RecordEvent ts e db ev)) = zeroResult"
    by (rule RecordEvent_cases [OF eq]) (use eq in auto)
  show "snd (snd (RecordEvent ts e db ev)) = None \<Longrightarrow>
      event_identity ts ev \<in> recorded_keys (fst (RecordEvent ts e db ev))"
    by (rule RecordEvent_cases [OF eq]) (use eq in \<open>auto simp: recorded_keys_def\<close>)
  show "snd (snd (RecordEvent ts e db ev)) = None \<Longrightarrow>
      rs_Stored (fst (snd (RecordEvent ts e db ev))) \<longleftrightarrow> event_identity ts ev \<notin> recorded_keys db"
    by (rule RecordEvent_cases [OF eq]) (use eq in \<open>auto simp: effect_result_def close_result_def Let_def\<close>)
  show "event_identity ts ev \<notin> recorded_keys (fst (RecordEvent ts e db ev)) \<Longrightarrow>
      fst (RecordEvent ts e db ev) = db"
    by (rule RecordEvent_cases [OF eq]) (use eq in \<open>auto simp: recorded_keys_def\<close>)
  show "recorded_keys db \<subseteq> recorded_keys (fst (RecordEvent ts e db ev)) \<and>
      recorded_keys (fst (RecordEvent ts e db ev)) \<subseteq> insert (event_identity ts ev) (recorded_keys db)"
    by (rule RecordEvent_cases [OF eq]) (use eq in \<open>auto simp: recorded_keys_def\<close>)
qed

section \<open>Reachable states\<close>

text \<open>A state is reached from a freshly migrated database by calls of \<open>RecordEvent\<close>, in any
  environment and for any event, and by the creation of partitions.\<close>

inductive db_step :: "(Time \<Rightarrow> int) \<Rightarrow> database \<Rightarrow> database \<Rightarrow> bool" for ts where
  record_step: "RecordEvent ts e db ev = (db', res, err) \<Longrightarrow> db_step ts db db'"
| partition_step: "db_step ts db (db\<lparr>db_partitions := db_partitions db @ [p]\<rparr>)"

inductive db_reachable :: "(Time \<Rightarrow> int) \<Rightarrow> database \<Rightarrow> bool" for ts where
  reach_migrated: "db_reachable ts (migrated midnight today)"
| reach_step: "db_reachable ts db \<Longrightarrow> db_step ts db db' \<Longrightarrow> db_reachable ts db'"

inductive_cases db_stepE [elim]: "db_step ts db db'"

lemma db_step_record: "db_step ts db (fst (RecordEvent ts e db ev))"
proof -
  obtain db' res err where eq: "RecordEvent ts e db ev = (db', res, err)" by (metis prod_cases3)
  from record_step [OF eq] show ?thesis by (simp add: eq)
qed

lemma covered_more: "covered ps t \<Longrightarrow> covered (ps @ qs) t"
  by (auto simp: covered_def)

lemma db_step_inv: "db_step ts db db' \<Longrightarrow> db_inv db \<Longrightarrow> db_inv db'"
proof (induction rule: db_step.induct)
  case (record_step e db ev db' res err)
  then show ?case using RecordEvent_inv [of db ts e ev] by simp
next
  case (partition_step db p)
  then show ?case by (auto simp: db_inv_def covered_more)
qed

lemma migrated_inv: "db_inv (migrated midnight today)"
  by (simp add: db_inv_def migrated_def)

lemma db_reachable_inv: "db_reachable ts db \<Longrightarrow> db_inv db"
  by (induction rule: db_reachable.induct) (auto intro: migrated_inv db_step_inv)

section \<open>Joins as a replay of the events\<close>

text \<open>
  The abstract specification: what one row of \<open>event_raw\<close> does to the set of joins, read off the
  stored columns alone, with the choices left open (the fresh \<open>join_id\<close>, the server clock, the
  join picked among equally recent ones). \<open>replays rs js\<close>: applying the rows in order of arrival
  gives the joins \<open>js\<close>.
\<close>

definition text_of :: "string option \<Rightarrow> string" where
  "text_of c = (case c of None \<Rightarrow> [] | Some s \<Rightarrow> s)"

lemma text_of_nullable [simp]: "text_of (nullable s) = s"
  by (simp add: text_of_def nullable_def)

definition row_selects :: "event_row \<Rightarrow> join_row set \<Rightarrow> join_row set \<Rightarrow> bool" where
  "row_selects r S T \<longleftrightarrow>
     (let room = {j \<in> S. open_row j \<and> jr_backend j = er_backend r \<and> jr_room_name j = text_of (er_room_name r)};
          sid = {j \<in> room. er_participant_sid r \<noteq> None \<and> jr_participant_sid j = er_participant_sid r};
          person = {j \<in> room. jr_participant_identity j = text_of (er_participant_identity r)}
      in if er_event_type r = EventRoomFinished then T = room
         else if sid \<noteq> {} then T = sid
         else if person = {} then T = {}
         else \<exists>j \<in> person. T = {j} \<and> (\<forall>i \<in> person. jr_started_at i \<le> jr_started_at j))"

definition row_effect :: "event_row \<Rightarrow> join_row list \<Rightarrow> join_row list \<Rightarrow> bool" where
  "row_effect r js js' \<longleftrightarrow>
     (if er_event_type r = EventParticipantJoined
      then (if er_event_id r \<in> jr_started_event_id ` set js then js' = js
            else \<exists>j. js' = js @ [j] \<and> started_by r j \<and> open_row j \<and> jr_join_id j \<notin> jr_join_id ` set js)
      else if er_event_type r \<in> {EventParticipantLeft, EventRoomFinished}
      then \<exists>T now. row_selects r (set js) T \<and> (\<forall>j \<in> T. jr_started_at j \<le> er_occurred_at r) \<and>
             js' = map (\<lambda>j. if j \<in> T then set_end (er_occurred_at r)
                        (if er_event_type r = EventRoomFinished then EndRoomFinished else EndParticipantLeft)
                        (er_event_id r) now j else j) js
      else js' = js)"

inductive replays :: "event_row list \<Rightarrow> join_row list \<Rightarrow> bool" where
  replay_none: "replays [] []"
| replay_row: "replays rs js \<Longrightarrow> row_effect r js js' \<Longrightarrow> replays (rs @ [r]) js'"

lemma close_targets_selects:
  assumes "distinct (map jr_join_id js)" "closing ev"
  shows "row_selects (event_row_of ts now ev) (set js) {j \<in> set js. close_targets k ev js j}"
proof (cases "ev_Type ev = EventRoomFinished \<or> (\<exists>c \<in> set js. sid_matches ev c)")
  case True
  then show ?thesis
    by (auto simp: row_selects_def close_targets_def by_room_def sid_matches_def by_sid_def event_row_of_def
        nullable_def text_of_def Let_def split: if_splits)
next
  case False
  let ?latest = "latest_open (ev_Backend ev) (ev_RoomName ev) (ev_ParticipantIdentity ev) k js"
  let ?person = "{j \<in> {j \<in> set js. open_row j \<and> jr_backend j = ev_Backend ev \<and> jr_room_name j = ev_RoomName ev}.
                   jr_participant_identity j = ev_ParticipantIdentity ev}"
  have person: "j \<in> ?person \<longleftrightarrow> j \<in> set js \<and> by_identity (ev_Backend ev) (ev_RoomName ev) (ev_ParticipantIdentity ev) j" for j
    by (auto simp: by_identity_def)
  have sel: "row_selects (event_row_of ts now ev) (set js) T \<longleftrightarrow>
      (if ?person = {} then T = {} else \<exists>j \<in> ?person. T = {j} \<and> (\<forall>i \<in> ?person. jr_started_at i \<le> jr_started_at j))" for T
    using False
    by (auto simp: row_selects_def Let_def event_row_of_def sid_matches_def by_sid_def nullable_def text_of_def)
  have tgt: "{j \<in> set js. close_targets k ev js j} = {j \<in> set js. ?latest = Some (jr_join_id j)}"
    using False by (auto simp: close_targets_def)
  show ?thesis
  proof (cases ?latest)
    case None
    then have "?person = {}" using person unfolding latest_open_None by blast
    then show ?thesis using None unfolding sel tgt by simp
  next
    case (Some i)
    obtain c where c: "c \<in> set js" "by_identity (ev_Backend ev) (ev_RoomName ev) (ev_ParticipantIdentity ev) c"
        "jr_join_id c = i"
        "\<And>d. d \<in> set js \<Longrightarrow> by_identity (ev_Backend ev) (ev_RoomName ev) (ev_ParticipantIdentity ev) d
           \<Longrightarrow> jr_started_at d \<le> jr_started_at c"
      using latest_open_Some [OF Some] by metis
    have one: "{j \<in> set js. ?latest = Some (jr_join_id j)} = {c}"
      using Some c(1,3) same_join [OF assms(1)] by auto
    have "c \<in> ?person" "\<forall>i \<in> ?person. jr_started_at i \<le> jr_started_at c"
      using c person by blast+
    then show ?thesis unfolding sel tgt one by auto
  qed
qed

lemma join_effect_refines:
  assumes "distinct (map jr_join_id js)" "effect_ok ts e ev js"
  shows "row_effect (event_row_of ts (en_now e) ev) js (join_effect ts e ev js)"
proof (cases "closing ev")
  case True
  let ?T = "{j \<in> set js. close_targets (en_pick e) ev js j}"
  have "close_joins ts e ev js = map (\<lambda>j. if j \<in> ?T then set_end (ts (ev_OccurredAt ev)) (close_reason ev) (ev_ID ev) (en_now e) j else j) js"
    by (auto simp: close_joins_def)
  moreover have "\<forall>j \<in> ?T. jr_started_at j \<le> ts (ev_OccurredAt ev)"
    using assms(2) True by (auto simp: effect_ok_def close_late_def not_less)
  moreover have "row_selects (event_row_of ts (en_now e) ev) (set js) ?T"
    by (rule close_targets_selects [OF assms(1) True])
  ultimately show ?thesis
    using True by (auto simp: row_effect_def join_effect_def close_reason_def closing_def)
next
  case False
  then show ?thesis
    using assms(2) started_by_fresh [of ev ts "en_now e" e]
    by (auto simp: row_effect_def join_effect_def closing_def effect_ok_def opens_def open_row_def)
qed

lemma replays_step:
  assumes "db_step ts db db'" "db_inv db" "replays (db_event_raw db) (db_participant_join db)"
  shows "replays (db_event_raw db') (db_participant_join db')"
  using assms
proof (induction rule: db_step.induct)
  case (record_step e db ev db' res err)
  have dist: "distinct (map jr_join_id (db_participant_join db))"
    using record_step.prems(1) by (simp add: db_inv_def)
  show ?case
    by (rule RecordEvent_cases [OF record_step.hyps])
      (use record_step.prems(2) replay_row join_effect_refines [OF dist] in auto)
qed simp

section \<open>Growth\<close>

text \<open>How a join may change: never once it has ended, and before that only in how it ended.\<close>

definition frozen :: "join_row \<Rightarrow> join_row" where
  "frozen j = j\<lparr>jr_ended_at := None, jr_end_reason := None, jr_ended_event_id := None, jr_updated_at := 0\<rparr>"

definition join_grows :: "join_row \<Rightarrow> join_row \<Rightarrow> bool" where
  "join_grows j j' \<longleftrightarrow> frozen j' = frozen j \<and> (open_row j \<or> j' = j)"

definition db_grows :: "database \<Rightarrow> database \<Rightarrow> bool" where
  "db_grows db db' \<longleftrightarrow>
     (\<exists>rs. db_event_raw db' = db_event_raw db @ rs) \<and>
     (\<exists>js new. db_participant_join db' = js @ new \<and> list_all2 join_grows (db_participant_join db) js)"

lemma join_grows_refl [simp]: "join_grows j j"
  by (simp add: join_grows_def)

lemma join_grows_trans: "join_grows i j \<Longrightarrow> join_grows j k \<Longrightarrow> join_grows i k"
  by (auto simp: join_grows_def)

lemma joins_grow_refl: "\<exists>js new. js0 = js @ new \<and> list_all2 join_grows js0 js"
  by (rule exI [of _ js0], rule exI [of _ "[]"]) (simp add: list_all2_same)

lemma db_grows_refl [simp]: "db_grows db db"
  using joins_grow_refl [of "db_participant_join db"] by (simp add: db_grows_def)

lemma db_grows_trans:
  assumes "db_grows a b" "db_grows b c"
  shows "db_grows a c"
proof -
  obtain js new where b: "db_participant_join b = js @ new" "list_all2 join_grows (db_participant_join a) js"
    using assms(1) by (auto simp: db_grows_def)
  obtain ks new' where c: "db_participant_join c = ks @ new'" "list_all2 join_grows (db_participant_join b) ks"
    using assms(2) by (auto simp: db_grows_def)
  obtain k1 k2 where k: "ks = k1 @ k2" "list_all2 join_grows js k1"
    using c(2) unfolding b(1) list_all2_append1 by auto
  have "list_all2 join_grows (db_participant_join a) k1"
    by (rule list_all2_trans [OF _ b(2) k(2)]) (rule join_grows_trans)
  then show ?thesis
    using assms c(1) k(1) unfolding db_grows_def by (metis append.assoc)
qed

lemma close_joins_grows:
  assumes "distinct (map jr_join_id js)"
  shows "list_all2 join_grows js (close_joins ts e ev js)"
  using close_targets_open(1) [OF assms]
  by (auto simp: close_joins_def list_all2_map2 list_all2_same join_grows_def frozen_def set_end_def)

lemma stored_db_grows:
  assumes "db_inv db"
  shows "db_grows db (stored_db ts e ev db)"
proof -
  have dist: "distinct (map jr_join_id (db_participant_join db))" using assms by (simp add: db_inv_def)
  have "\<exists>js new. join_effect ts e ev (db_participant_join db) = js @ new \<and>
          list_all2 join_grows (db_participant_join db) js"
    using close_joins_grows [OF dist, of ts e ev] joins_grow_refl [of "db_participant_join db"]
    by (auto simp: join_effect_def list_all2_same)
  then show ?thesis by (simp add: db_grows_def)
qed

lemma db_step_grows: "db_step ts db db' \<Longrightarrow> db_inv db \<Longrightarrow> db_grows db db'"
proof (induction rule: db_step.induct)
  case (record_step e db ev db' res err)
  show ?case
    by (rule RecordEvent_cases [OF record_step.hyps]) (use record_step.prems stored_db_grows in auto)
next
  case (partition_step db p)
  show ?case using joins_grow_refl [of "db_participant_join db"] by (simp add: db_grows_def)
qed

lemma db_steps_grow:
  assumes "(db_step ts)\<^sup>*\<^sup>* db db'" "db_inv db"
  shows "db_inv db' \<and> db_grows db db'"
  using assms
proof (induction rule: rtranclp_induct)
  case (step db1 db2)
  then show ?case using db_step_inv db_step_grows db_grows_trans by blast
qed simp

section \<open>Counts\<close>

definition closed_count :: "join_row list \<Rightarrow> nat" where
  "closed_count js = length (filter (\<lambda>j. \<not> open_row j) js)"

definition opened_total :: "(Result \<times> store_error option) list \<Rightarrow> nat" where
  "opened_total rs = length (filter (\<lambda>(r, err). err = None \<and> rs_JoinOpened r) rs)"

definition closed_total :: "(Result \<times> store_error option) list \<Rightarrow> int" where
  "closed_total rs = sum_list (map (\<lambda>(r, err). if err = None then rs_JoinsClosed r else 0) rs)"

lemma close_count_effect:
  assumes "\<forall>j \<in> set xs. P j \<longrightarrow> open_row j"
  shows "closed_count (map (\<lambda>j. if P j then set_end at reason eid now j else j) xs) =
         closed_count xs + length (filter P xs)"
  using assms by (induction xs) (auto simp: closed_count_def)

lemma join_effect_counts:
  assumes "distinct (map jr_join_id js)"
  shows "length (join_effect ts e ev js) = length js + (if rs_JoinOpened (effect_result e ev js) then 1 else 0)"
    "int (closed_count (join_effect ts e ev js)) = int (closed_count js) + rs_JoinsClosed (effect_result e ev js)"
proof -
  have "int (closed_count (close_joins ts e ev js)) = int (closed_count js) + int (close_count (en_pick e) ev js)"
    unfolding close_joins_def close_count_def
    using close_targets_open(1) [OF assms] by (subst close_count_effect) auto
  then show "int (closed_count (join_effect ts e ev js)) = int (closed_count js) + rs_JoinsClosed (effect_result e ev js)"
    by (auto simp: join_effect_def effect_result_def close_result_def Let_def closed_count_def open_row_def)
  show "length (join_effect ts e ev js) = length js + (if rs_JoinOpened (effect_result e ev js) then 1 else 0)"
    by (auto simp: join_effect_def effect_result_def close_result_def Let_def close_joins_def)
qed

lemma RecordEvent_counts:
  assumes "db_inv db" "\<And>x. en_commit e \<noteq> CommitLost x" "RecordEvent ts e db ev = (db', res, err)"
  shows "length (db_participant_join db') = length (db_participant_join db) + opened_total [(res, err)]"
    "int (closed_count (db_participant_join db')) = int (closed_count (db_participant_join db)) + closed_total [(res, err)]"
proof -
  have dist: "distinct (map jr_join_id (db_participant_join db))" using assms(1) by (simp add: db_inv_def)
  have "length (db_participant_join db') = length (db_participant_join db) + opened_total [(res, err)] \<and>
    int (closed_count (db_participant_join db')) = int (closed_count (db_participant_join db)) + closed_total [(res, err)]"
    by (rule RecordEvent_cases [OF assms(3)])
      (use assms(2) join_effect_counts [OF dist] in \<open>auto simp: opened_total_def closed_total_def\<close>)
  then show "length (db_participant_join db') = length (db_participant_join db) + opened_total [(res, err)]"
    "int (closed_count (db_participant_join db')) = int (closed_count (db_participant_join db)) + closed_total [(res, err)]"
    by simp_all
qed

lemma totals_Cons:
  "opened_total (r # rs) = opened_total [r] + opened_total rs"
  "closed_total (r # rs) = closed_total [r] + closed_total rs"
  by (auto simp: opened_total_def closed_total_def)

lemma deliver_all_counts:
  assumes "db_inv db" "\<forall>d \<in> set ds. \<forall>x. en_commit (fst d) \<noteq> CommitLost x"
    "deliver_all (RecordEvent ts) db ds = (db', rs)"
  shows "length (db_participant_join db') = length (db_participant_join db) + opened_total rs \<and>
    int (closed_count (db_participant_join db')) = int (closed_count (db_participant_join db)) + closed_total rs"
  using assms
proof (induction ds arbitrary: db rs)
  case Nil
  then show ?case by (simp add: opened_total_def closed_total_def)
next
  case (Cons d ds)
  obtain e ev where d: "d = (e, ev)" by (cases d)
  obtain db1 res err where step: "RecordEvent ts e db ev = (db1, res, err)" by (metis prod_cases3)
  obtain rs' where rest: "deliver_all (RecordEvent ts) db1 ds = (db', rs')" "rs = (res, err) # rs'"
    using Cons.prems(3) by (auto simp: d step split: prod.splits)
  have inv: "db_inv db1" using RecordEvent_inv [OF Cons.prems(1), of ts e ev] by (simp add: step)
  have lost: "en_commit e \<noteq> CommitLost x" for x using Cons.prems(2) by (simp add: d)
  show ?case
    using Cons.IH [OF inv _ rest(1)] Cons.prems(2) RecordEvent_counts [OF Cons.prems(1) lost step]
      totals_Cons [of "(res, err)" rs'] by (simp add: rest(2))
qed

section \<open>Properties\<close>

definition demo_midnight :: "int \<Rightarrow> int" where
  "demo_midnight day = day * 86400000000"

definition demo_after_join :: database where
  "demo_after_join = fst (RecordEvent demo_ts (demo_env ''u1'') (migrated demo_midnight 0)
     (demo_event ''e1'' EventParticipantJoined 1 ''alice'' ''PA_1''))"

lemma demo_reachable: "db_reachable demo_ts demo_after_join"
  unfolding demo_after_join_def
  by (rule reach_step [OF reach_migrated db_step_record])

lemma demo_db_inv: "db_inv demo_db"
proof -
  let ?db0 = "\<lparr>db_partitions = [(0, 100000000)], db_event_raw = [], db_participant_join = []\<rparr> :: database"
  let ?ev1 = "demo_event ''e1'' EventParticipantJoined 1 ''alice'' ''PA_1''"
  let ?ev2 = "demo_event ''e2'' EventParticipantJoined 2 ''bob'' ''PA_2''"
  let ?db1 = "stored_db demo_ts (demo_env ''u1'') ?ev1 ?db0"
  have ty: "ev_Type ?ev1 = EventParticipantJoined" "ev_Type ?ev2 = EventParticipantJoined" "ev_ID ?ev1 = ''e1''"
      "ev_ID ?ev2 = ''e2''" "demo_ts (ev_OccurredAt ?ev1) = 1000000" "demo_ts (ev_OccurredAt ?ev2) = 2000000"
      "en_uuid (demo_env u) = u" for u
    by (simp_all add: demo_simps)
  have "db_inv ?db0" by (simp add: db_inv_def)
  then have inv1: "db_inv ?db1"
    by (rule db_inv_stored) (simp_all add: covered_def recorded_keys_def effect_ok_def closing_not_joined ty)
  have j1: "db_participant_join ?db1 = [join_row_of demo_ts (demo_env ''u1'') ?ev1]"
    by (simp add: join_effect_def opens_def ty)
  have "db_inv (stored_db demo_ts (demo_env ''u2'') ?ev2 ?db1)"
    by (rule db_inv_stored [OF inv1], unfold j1)
      (simp_all add: covered_def recorded_keys_def event_identity_def effect_ok_def closing_not_joined ty)
  moreover have "stored_db demo_ts (demo_env ''u2'') ?ev2 ?db1 = demo_db"
    unfolding stored_db_def [of _ _ _ ?db1] j1
    by (simp add: stored_db_def demo_db_def demo_deliveries_def join_effect_def opens_def ty)
  ultimately show ?thesis by simp
qed

lemma join_inv_reason: "join_inv rs j \<Longrightarrow> jr_end_reason j \<noteq> Some EndInferredTimeout"
  by (cases "jr_ended_at j") (auto simp: join_inv_def ended_by_def)

text \<open>C1. The invariant of the database, in every state reachable from a migrated one by any calls in
  any environments and by creation of partitions: the primary keys of both tables and the anchor
  \<open>started_event_id\<close> are unique, every event lies in a partition, every join was opened by a stored
  \<open>participant_joined\<close> of its backend, room, identity and start time, and every end was observed: it
  has the time of a stored \<open>participant_left\<close> or \<open>room_finished\<close> of the join's room whose type is
  the recorded reason, it does not precede the start, and an open join has no reason and no ending
  event. No reason is ever \<open>inferred_timeout\<close>.\<close>

theorem reachable_database_inv:
  assumes "db_reachable ts db"
  shows "db_inv db \<and> (\<forall>j \<in> set (db_participant_join db). jr_end_reason j \<noteq> Some EndInferredTimeout)"
proof -
  have inv: "db_inv db" by (rule db_reachable_inv [OF assms])
  then have "\<forall>j \<in> set (db_participant_join db). jr_end_reason j \<noteq> Some EndInferredTimeout"
    using join_inv_reason by (auto simp: db_inv_def)
  then show ?thesis using inv by simp
qed

theorem reachable_database_inv_witness: "db_inv demo_after_join"
  using reachable_database_inv [OF demo_reachable] by simp

text \<open>Calls one at a time: the joins are the replay of the events in order of arrival.\<close>

lemma reachable_replays:
  assumes "db_reachable ts db"
  shows "replays (db_event_raw db) (db_participant_join db)"
  using assms
proof (induction rule: db_reachable.induct)
  case (reach_migrated midnight today)
  then show ?case by (simp add: migrated_def replay_none)
next
  case (reach_step db db')
  then show ?case using replays_step db_reachable_inv by blast
qed

text \<open>Redelivery is idempotent for good: after a call for an event has returned without error, any
  delivery of the same event (same id and time), at any later point of any sequence of deliveries
  and in any environment, can be removed from the sequence without changing the final database; and
  such a delivery reports that nothing was stored, opened or closed.\<close>

theorem redelivery_idempotent:
  assumes "db_inv db" "RecordEvent ts e db ev = (db1, res, None)"
    and "event_identity ts ev' = event_identity ts ev"
  shows "fst (deliver_all (RecordEvent ts) db1 (ds1 @ (e', ev') # ds2)) =
           fst (deliver_all (RecordEvent ts) db1 (ds1 @ ds2)) \<and>
         fst (snd (RecordEvent ts e' (fst (deliver_all (RecordEvent ts) db1 ds1)) ev')) = zeroResult"
proof -
  have db1: "fst (RecordEvent ts e db ev) = db1" "snd (snd (RecordEvent ts e db ev)) = None"
    using assms(2) by simp_all
  have inv: "db_inv db1" using RecordEvent_inv [OF assms(1), of ts e ev] db1 by simp
  let ?t = "fst (deliver_all (RecordEvent ts) db1 ds1)"
  have "event_identity ts ev' \<in> recorded_keys ?t"
    using pg.writer_acknowledged [OF assms(1) db1(2)] pg.deliver_all_frame [OF inv, of ts ds1] assms(3) db1(1)
    by auto
  then have "fst (snd (RecordEvent ts e' ?t ev')) = zeroResult"
    using pg.writer_redelivery [OF pg.deliver_all_inv [OF inv]] by blast
  then show ?thesis
    using pg.redelivery_is_noop [OF assms(1) db1(2) refl assms(3)] db1(1) by simp
qed

theorem redelivery_idempotent_witness:
  "fst (deliver_all (RecordEvent demo_ts) demo_db
        ([] @ (demo_env ''u9'', demo_event ''e1'' EventParticipantJoined 1 ''alice'' ''PA_1'') # demo_deliveries)) =
   fst (deliver_all (RecordEvent demo_ts) demo_db ([] @ demo_deliveries)) \<and>
   fst (snd (RecordEvent demo_ts (demo_env ''u9'') (fst (deliver_all (RecordEvent demo_ts) demo_db []))
     (demo_event ''e1'' EventParticipantJoined 1 ''alice'' ''PA_1''))) = zeroResult"
proof (rule redelivery_idempotent [OF demo_db_inv _ refl])
  let ?ev = "demo_event ''e1'' EventParticipantJoined 1 ''alice'' ''PA_1''"
  have "covered (db_partitions demo_db) (demo_ts (ev_OccurredAt ?ev))"
    by (simp add: covered_def demo_simps)
  moreover have "event_identity demo_ts ?ev \<in> recorded_keys demo_db"
    by (simp add: event_identity_def recorded_keys_def event_key_def event_row_of_def demo_simps)
  ultimately show "RecordEvent demo_ts (demo_env ''u1'') demo_db ?ev = (demo_db, zeroResult, None)"
    by (simp add: RecordEvent_spec_quiet)
qed

text \<open>Retrying is safe whatever happened to the earlier attempts, a commit applied but reported as
  failed included: when a run of attempts for one new event ends with one that returns no error, the
  event is stored and the database is the one a single attempt alone would have left.\<close>

theorem retry_until_acknowledged:
  assumes "db_inv db" "event_identity ts ev \<notin> recorded_keys db"
    and "snd (snd (RecordEvent ts e (fst (deliver_all (RecordEvent ts) db (map (\<lambda>e. (e, ev)) es))) ev)) = None"
  shows "\<exists>e' \<in> set (es @ [e]).
           fst (deliver_all (RecordEvent ts) db (map (\<lambda>e. (e, ev)) (es @ [e]))) = stored_db ts e' ev db"
proof -
  let ?final = "fst (deliver_all (RecordEvent ts) db (map (\<lambda>e. (e, ev)) es @ [(e, ev)]))"
  have ends: "event_identity ts ev \<in> recorded_keys ?final"
      "\<exists>d \<in> set (map (\<lambda>e. (e, ev)) es @ [(e, ev)]). ?final = fst (RecordEvent ts (fst d) db ev)"
    using pg.retry_applies_once [OF assms(1) _ assms(3)] assms(2) by auto
  then obtain e' where e': "e' \<in> set (es @ [e])" "?final = fst (RecordEvent ts e' db ev)" by auto
  obtain db' res err where eq: "RecordEvent ts e' db ev = (db', res, err)" by (metis prod_cases3)
  have "?final = stored_db ts e' ev db"
    by (rule RecordEvent_cases [OF eq]) (use ends(1) e'(2) eq assms(2) in auto)
  then show ?thesis using e'(1) by auto
qed

theorem retry_until_acknowledged_witness:
  "\<exists>e' \<in> set ([(demo_env ''u3'')\<lparr>en_commit := CommitLost (DriverError ''timeout'')\<rparr>] @ [demo_env ''u4'']).
     fst (deliver_all (RecordEvent demo_ts) demo_db
       (map (\<lambda>e. (e, demo_event ''e3'' EventRoomFinished 5 [] []))
         ([(demo_env ''u3'')\<lparr>en_commit := CommitLost (DriverError ''timeout'')\<rparr>] @ [demo_env ''u4'']))) =
     stored_db demo_ts e' (demo_event ''e3'' EventRoomFinished 5 [] []) demo_db"
proof (rule retry_until_acknowledged [OF demo_db_inv])
  let ?ev = "demo_event ''e3'' EventRoomFinished 5 [] []"
  let ?lost = "(demo_env ''u3'')\<lparr>en_commit := CommitLost (DriverError ''timeout'')\<rparr>"
  show new: "event_identity demo_ts ?ev \<notin> recorded_keys demo_db"
    by (simp add: event_identity_def recorded_keys_def event_key_def event_row_of_def demo_simps)
  let ?db1 = "fst (deliver_all (RecordEvent demo_ts) demo_db (map (\<lambda>e. (e, ?ev)) [?lost]))"
  obtain db1 res err where eq: "RecordEvent demo_ts ?lost demo_db ?ev = (db1, res, err)" by (metis prod_cases3)
  have cov: "covered (db_partitions demo_db) (demo_ts (ev_OccurredAt ?ev))"
    by (simp add: covered_def demo_simps)
  have "effect_ok demo_ts (demo_env ''u3'') ?ev (db_participant_join demo_db)"
    by (simp add: effect_ok_def closing_def close_late_def close_targets_def by_room_def opens_def demo_simps)
  then have "db1 = stored_db demo_ts ?lost ?ev demo_db"
    using eq cov new applyJoinEffect_quiet [of ?lost demo_ts _ ?ev]
    by (simp add: RecordEvent_def insertEvent_quiet demo_env_def effect_ok_def commit_def stored_db_def Let_def)
  then have "covered (db_partitions ?db1) (demo_ts (ev_OccurredAt ?ev))"
      "event_identity demo_ts ?ev \<in> recorded_keys ?db1"
    using cov by (simp_all add: eq recorded_keys_def)
  then show "snd (snd (RecordEvent demo_ts (demo_env ''u4'') ?db1 ?ev)) = None"
    by (simp add: RecordEvent_spec_quiet)
qed

text \<open>History is not rewritten by calls that run one at a time. From a state that satisfies the invariant, after any number of
  such steps the rows of \<open>event_raw\<close> are all there in their order, followed by the new ones; every join is
  at its place with its identity, start and opening event, and a join that had ended is unchanged in
  every column: no later event, early or late, moves the end of a closed join.\<close>

theorem history_is_append_only:
  assumes "(db_step ts)\<^sup>*\<^sup>* db db'" "db_inv db"
  shows "(\<exists>rs. db_event_raw db' = db_event_raw db @ rs) \<and>
         length (db_participant_join db) \<le> length (db_participant_join db') \<and>
         (\<forall>i < length (db_participant_join db).
            frozen (db_participant_join db' ! i) = frozen (db_participant_join db ! i) \<and>
            (\<not> open_row (db_participant_join db ! i) \<longrightarrow>
               db_participant_join db' ! i = db_participant_join db ! i))"
proof -
  have g: "db_grows db db'" using db_steps_grow [OF assms] by simp
  then obtain js new where js: "db_participant_join db' = js @ new" "list_all2 join_grows (db_participant_join db) js"
    by (auto simp: db_grows_def)
  have len: "length (db_participant_join db) = length js" by (rule list_all2_lengthD [OF js(2)])
  have "join_grows (db_participant_join db ! i) (db_participant_join db' ! i)" if "i < length js" for i
    using list_all2_nthD2 [OF js(2) that] that by (simp add: js(1) nth_append)
  then show ?thesis
    using g len by (auto simp: db_grows_def join_grows_def js(1))
qed

theorem history_is_append_only_witness:
  "(\<exists>rs. db_event_raw (fst (RecordEvent demo_ts (demo_env ''u3'') demo_db (demo_event ''e3'' EventRoomFinished 5 [] [])))
       = db_event_raw demo_db @ rs) \<and>
   length (db_participant_join demo_db) \<le>
     length (db_participant_join (fst (RecordEvent demo_ts (demo_env ''u3'') demo_db (demo_event ''e3'' EventRoomFinished 5 [] []))))"
proof -
  let ?db' = "fst (RecordEvent demo_ts (demo_env ''u3'') demo_db (demo_event ''e3'' EventRoomFinished 5 [] []))"
  have "(db_step demo_ts)\<^sup>*\<^sup>* demo_db ?db'"
    by (rule r_into_rtranclp [of "db_step demo_ts"]) (rule db_step_record)
  from history_is_append_only [OF this demo_db_inv] show ?thesis by blast
qed

text \<open>The results tell the truth about the joins: over any sequence of deliveries in which no commit
  is applied with its acknowledgement lost, the number of joins grows by the number of results that
  report a join opened, and the number of ended joins by the sum of the reported \<open>JoinsClosed\<close>;
  results returned with an error count for nothing. A client that adds up what it is told (as the
  counters do) knows the number of open joins.\<close>

theorem results_count_the_joins:
  assumes "db_inv db" "\<forall>d \<in> set ds. \<forall>x. en_commit (fst d) \<noteq> CommitLost x"
    and "deliver_all (RecordEvent ts) db ds = (db', rs)"
  shows "length (db_participant_join db') = length (db_participant_join db) + opened_total rs \<and>
         int (closed_count (db_participant_join db')) =
           int (closed_count (db_participant_join db)) + closed_total rs"
  by (rule deliver_all_counts [OF assms])

theorem results_count_the_joins_witness:
  "\<exists>db' rs. deliver_all (RecordEvent demo_ts) demo_db demo_deliveries = (db', rs) \<and>
     length (db_participant_join db') = length (db_participant_join demo_db) + opened_total rs"
proof -
  obtain db' rs where eq: "deliver_all (RecordEvent demo_ts) demo_db demo_deliveries = (db', rs)"
    by (cases "deliver_all (RecordEvent demo_ts) demo_db demo_deliveries")
  have "\<forall>d \<in> set demo_deliveries. \<forall>x. en_commit (fst d) \<noteq> CommitLost x"
    by (simp add: demo_deliveries_def demo_env_def)
  from results_count_the_joins [OF demo_db_inv this eq] show ?thesis using eq by blast
qed

text \<open>The partitions created by the bootstrap migration cover exactly the times from the midnight
  seven days back up to, and excluding, the midnight fourteen days ahead, without a gap, provided
  midnights come in the order of the days.\<close>

theorem bootstrap_covers_window:
  assumes "\<And>d. midnight d < midnight (d + 1)"
  shows "covered (bootstrap_partitions midnight today) t \<longleftrightarrow>
         midnight (today - 7) \<le> t \<and> t < midnight (today + 14)"
proof -
  have mono: "midnight a \<le> midnight b" if "a \<le> b" for a b
    using that
  proof (induction b rule: int_ge_induct)
    case (step i)
    then show ?case using assms [of i] by simp
  qed simp
  have fill: "\<exists>d. a \<le> d \<and> d < b \<and> midnight d \<le> t \<and> t < midnight (d + 1)"
    if "a \<le> b" "midnight a \<le> t" "t < midnight b" for a b
    using that
  proof (induction b rule: int_ge_induct)
    case (step i)
    then show ?case by (cases "t < midnight i") force+
  qed simp
  show ?thesis
  proof
    assume "covered (bootstrap_partitions midnight today) t"
    then obtain d where d: "today - 7 \<le> d" "d \<le> today + 13" "midnight d \<le> t" "t < midnight (d + 1)"
      by (auto simp: covered_def bootstrap_partitions_def)
    then show "midnight (today - 7) \<le> t \<and> t < midnight (today + 14)"
      using mono [of "today - 7" d] mono [of "d + 1" "today + 14"] by simp
  next
    assume "midnight (today - 7) \<le> t \<and> t < midnight (today + 14)"
    then obtain d where "today - 7 \<le> d" "d < today + 14" "midnight d \<le> t" "t < midnight (d + 1)"
      using fill [of "today - 7" "today + 14"] by auto
    then show "covered (bootstrap_partitions midnight today) t"
      by (auto simp: covered_def bootstrap_partitions_def intro!: bexI [of _ d])
  qed
qed

theorem bootstrap_covers_window_witness:
  "covered (bootstrap_partitions demo_midnight 0) 5 \<longleftrightarrow> demo_midnight (0 - 7) \<le> 5 \<and> 5 < demo_midnight (0 + 14)"
  by (rule bootstrap_covers_window) (simp add: demo_midnight_def)

end
