(* ===== verification/Postgres_Concurrent.thy ===== *)
theory Postgres_Concurrent
  imports Postgres_Invariant
begin

text \<open>
  Concurrent calls of \<open>RecordEvent\<close> (\<^verbatim>\<open>internal/ingest/store/postgres/postgres.go\<close>). Each call is a
  transaction with a program counter; a step of the system is one statement, or the commit, of one
  of them. Statements have the meaning PostgreSQL documents for its default isolation level, READ
  COMMITTED: a statement sees what was committed when it started; an insert whose unique key is
  held by an uncommitted transaction waits for that transaction; an update waits for the row locks
  of others and then checks its condition again on the row as it is by then. Waiting is a step that is not
  enabled; an update takes its row locks together (\<open>Row_Locks\<close> takes them one at a time, and shows that every
  run of it is a run here). A statement may fail, and the commit may be applied
  with its acknowledgement lost, at any time; the end of a deadlock's victim and a lock timeout are such failures. Partitions may be created at any time. A call whose \<open>Begin\<close> fails does nothing and has no transaction here.
\<close>

section \<open>Transactions\<close>

text \<open>The three closing statements, and the places where a transaction can be: before the insert of
  the event, before the statement of its effect, between the two attempts of \<open>close\<close>, inside an
  update whose snapshot has selected the joins of the given ids, before the commit, and returned.\<close>

datatype selector = BySID | ByIdentity | ByRoom

datatype pc =
    AtInsert | AtEffect | AtIdentity | AtUpdate selector "string list" | AtCommit
  | Returned Result "store_error option"

record tx =
  tx_ev :: Event
  tx_env :: env
  tx_pc :: pc
  tx_row :: "event_row option"
  tx_new :: "join_row option"
  tx_ends :: "string list"
  tx_res :: Result

record cstate =
  cs_db :: database
  cs_txs :: "tx list"

definition begin_tx :: "env \<Rightarrow> Event \<Rightarrow> tx" where
  "begin_tx e ev = \<lparr>tx_ev = ev, tx_env = e, tx_pc = AtInsert, tx_row = None, tx_new = None,
     tx_ends = [], tx_res = zeroResult\<rparr>"

definition return_tx :: "tx \<Rightarrow> Result \<Rightarrow> store_error option \<Rightarrow> tx" where
  "return_tx x res err = x\<lparr>tx_pc := Returned res err, tx_row := None, tx_new := None, tx_ends := []\<rparr>"

text \<open>What the uncommitted transactions of others hold: keys of \<open>event_raw\<close>, the unique columns of
  \<open>participant_join\<close>, and row locks.\<close>

definition held_keys :: "tx list \<Rightarrow> (int \<times> string) list" where
  "held_keys os = List.map_filter (\<lambda>x. map_option event_key (tx_row x)) os"

definition held_joins :: "tx list \<Rightarrow> join_row list" where
  "held_joins os = List.map_filter tx_new os"

definition locked :: "tx list \<Rightarrow> string list" where
  "locked os = concat (map tx_ends os)"

definition others :: "nat \<Rightarrow> 'a list \<Rightarrow> 'a list" where
  "others t xs = map fst (filter (\<lambda>p. snd p \<noteq> t) (zip xs [0 ..< length xs]))"

text \<open>The condition an update checks again on a row it had to wait for. That of \<open>closeByIdentity\<close> names
  the row only: \<open>ended_at IS NULL\<close> stands in the subquery, which is not evaluated again.\<close>

definition recheck :: "selector \<Rightarrow> Event \<Rightarrow> join_row \<Rightarrow> bool" where
  "recheck sel ev j =
     (case sel of
        BySID \<Rightarrow> by_sid (ev_Backend ev) (ev_RoomName ev) (ev_ParticipantSID ev) j
      | ByRoom \<Rightarrow> by_room (ev_Backend ev) (ev_RoomName ev) j
      | ByIdentity \<Rightarrow> True)"

definition end_row :: "(Time \<Rightarrow> int) \<Rightarrow> tx \<Rightarrow> join_row \<Rightarrow> join_row" where
  "end_row ts x j =
     (if jr_join_id j \<in> set (tx_ends x)
      then set_end (ts (ev_OccurredAt (tx_ev x))) (close_reason (tx_ev x)) (ev_ID (tx_ev x)) (en_now (tx_env x)) j
      else j)"

definition apply_tx :: "(Time \<Rightarrow> int) \<Rightarrow> tx \<Rightarrow> database \<Rightarrow> database" where
  "apply_tx ts x db =
     db\<lparr>db_event_raw := db_event_raw db @ (case tx_row x of None \<Rightarrow> [] | Some r \<Rightarrow> [r]),
        db_participant_join :=
          map (end_row ts x) (db_participant_join db) @ (case tx_new x of None \<Rightarrow> [] | Some j \<Rightarrow> [j])\<rparr>"

section \<open>Steps\<close>

definition step_insert :: "(Time \<Rightarrow> int) \<Rightarrow> tx list \<Rightarrow> database \<Rightarrow> tx \<Rightarrow> tx option" where
  "step_insert ts os db x =
     (let r = event_row_of ts (en_now (tx_env x)) (tx_ev x) in
      if \<not> covered (db_partitions db) (er_occurred_at r)
      then Some (return_tx x zeroResult (Some ErrPartitionMissing))
      else if event_key r \<in> recorded_keys db then Some (x\<lparr>tx_pc := AtCommit\<rparr>)
      else if event_key r \<in> set (held_keys os) then None
      else Some (x\<lparr>tx_pc := AtEffect, tx_row := Some r, tx_res := after_insert\<rparr>))"

definition step_open :: "(Time \<Rightarrow> int) \<Rightarrow> tx list \<Rightarrow> database \<Rightarrow> tx \<Rightarrow> tx option" where
  "step_open ts os db x =
     (let j = join_row_of ts (tx_env x) (tx_ev x); js = db_participant_join db in
      if jr_started_event_id j \<in> jr_started_event_id ` set js
      then Some (x\<lparr>tx_pc := AtCommit, tx_res := after_insert\<lparr>rs_JoinOpened := False\<rparr>\<rparr>)
      else if jr_started_event_id j \<in> jr_started_event_id ` set (held_joins os) then None
      else if jr_join_id j \<in> jr_join_id ` set js
      then Some (return_tx x after_insert (Some (OtherError (''postgres: open join: '' @ ''duplicate key value''))))
      else if jr_join_id j \<in> jr_join_id ` set (held_joins os) then None
      else Some (x\<lparr>tx_pc := AtCommit, tx_new := Some j, tx_res := after_insert\<lparr>rs_JoinOpened := True\<rparr>\<rparr>))"

definition snapshot :: "(join_row \<Rightarrow> bool) \<Rightarrow> database \<Rightarrow> string list" where
  "snapshot P db = map jr_join_id (filter P (db_participant_join db))"

definition snapshot_identity :: "tx \<Rightarrow> database \<Rightarrow> string list" where
  "snapshot_identity x db =
     (case latest_open (ev_Backend (tx_ev x)) (ev_RoomName (tx_ev x)) (ev_ParticipantIdentity (tx_ev x))
             (en_pick (tx_env x)) (db_participant_join db) of
        None \<Rightarrow> [] | Some i \<Rightarrow> [i])"

definition step_effect :: "(Time \<Rightarrow> int) \<Rightarrow> tx list \<Rightarrow> database \<Rightarrow> tx \<Rightarrow> tx option" where
  "step_effect ts os db x =
     (let ev = tx_ev x in
      if ev_Type ev = EventParticipantJoined then step_open ts os db x
      else if ev_Type ev = EventParticipantLeft then
        Some (if ev_ParticipantSID ev \<noteq> []
              then x\<lparr>tx_pc := AtUpdate BySID
                       (snapshot (by_sid (ev_Backend ev) (ev_RoomName ev) (ev_ParticipantSID ev)) db)\<rparr>
              else x\<lparr>tx_pc := AtIdentity\<rparr>)
      else if ev_Type ev = EventRoomFinished then
        Some (x\<lparr>tx_pc := AtUpdate ByRoom (snapshot (by_room (ev_Backend ev) (ev_RoomName ev)) db)\<rparr>)
      else Some (x\<lparr>tx_pc := AtCommit\<rparr>))"

definition step_update ::
    "(Time \<Rightarrow> int) \<Rightarrow> tx list \<Rightarrow> database \<Rightarrow> tx \<Rightarrow> selector \<Rightarrow> string list \<Rightarrow> tx option" where
  "step_update ts os db x sel ids =
     (let ev = tx_ev x;
          targets = filter (\<lambda>j. jr_join_id j \<in> set ids \<and> recheck sel ev j) (db_participant_join db);
          n = length targets
      in if \<exists>i \<in> set ids. i \<in> set (locked os) then None
         else if \<exists>j \<in> set targets. ts (ev_OccurredAt ev) < jr_started_at j
         then Some (return_tx x (tx_res x) (Some ErrCloseOutOfOrder))
         else if sel = BySID \<and> n = 0 then Some (x\<lparr>tx_pc := AtIdentity\<rparr>)
         else Some (x\<lparr>tx_pc := AtCommit, tx_ends := map jr_join_id targets,
                      tx_res := (if sel = ByRoom then (tx_res x)\<lparr>rs_JoinsClosed := int n\<rparr>
                                 else (tx_res x)\<lparr>rs_JoinsClosed := int n, rs_CloseUnmatched := (n = 0)\<rparr>)\<rparr>))"

definition advance :: "(Time \<Rightarrow> int) \<Rightarrow> tx list \<Rightarrow> database \<Rightarrow> tx \<Rightarrow> (database \<times> tx) option" where
  "advance ts os db x =
     (case tx_pc x of
        AtInsert \<Rightarrow> map_option (Pair db) (step_insert ts os db x)
      | AtEffect \<Rightarrow> map_option (Pair db) (step_effect ts os db x)
      | AtIdentity \<Rightarrow> Some (db, x\<lparr>tx_pc := AtUpdate ByIdentity (snapshot_identity x db)\<rparr>)
      | AtUpdate sel ids \<Rightarrow> map_option (Pair db) (step_update ts os db x sel ids)
      | AtCommit \<Rightarrow> Some (apply_tx ts x db, return_tx x (tx_res x) None)
      | Returned res err \<Rightarrow> None)"

text \<open>A failure of the statement at which the transaction is; the deferred rollback drops what it had
  written.\<close>

definition fault_error :: "tx \<Rightarrow> db_error \<Rightarrow> store_error" where
  "fault_error x err =
     (case tx_pc x of
        AtInsert \<Rightarrow> if isPartitionMissing err then ErrPartitionMissing
                   else OtherError (''postgres: insert event: '' @ error_text err)
      | AtEffect \<Rightarrow> if ev_Type (tx_ev x) = EventParticipantJoined
                   then OtherError (''postgres: open join: '' @ error_text err) else classifyClose err
      | AtCommit \<Rightarrow> OtherError ((if tx_row x = None then ''postgres: commit duplicate: '' else ''postgres: commit: '')
                     @ error_text err)
      | _ \<Rightarrow> classifyClose err)"

definition returned :: "tx \<Rightarrow> bool" where
  "returned x \<longleftrightarrow> (case tx_pc x of Returned res err \<Rightarrow> True | _ \<Rightarrow> False)"

definition can_fault :: "tx \<Rightarrow> bool" where
  "can_fault x \<longleftrightarrow> \<not> returned x \<and>
     (tx_pc x = AtEffect \<longrightarrow> ev_Type (tx_ev x) = EventParticipantJoined \<or> closing (tx_ev x))"

datatype move =
    Begin env Event | Advance nat | Fault nat db_error | LoseAck nat db_error | AddPartition "int \<times> int"

fun conc_step :: "(Time \<Rightarrow> int) \<Rightarrow> move \<Rightarrow> cstate \<Rightarrow> cstate option" where
  "conc_step ts (Begin e ev) S = Some (S\<lparr>cs_txs := cs_txs S @ [begin_tx e ev]\<rparr>)"
| "conc_step ts (Advance t) S =
     (if t < length (cs_txs S)
      then (case advance ts (others t (cs_txs S)) (cs_db S) (cs_txs S ! t) of
              None \<Rightarrow> None
            | Some (db, x) \<Rightarrow> Some \<lparr>cs_db = db, cs_txs = (cs_txs S)[t := x]\<rparr>)
      else None)"
| "conc_step ts (Fault t err) S =
     (if t < length (cs_txs S) \<and> can_fault (cs_txs S ! t)
      then let x = cs_txs S ! t
           in Some (S\<lparr>cs_txs := (cs_txs S)[t := return_tx x (tx_res x) (Some (fault_error x err))]\<rparr>)
      else None)"
| "conc_step ts (LoseAck t err) S =
     (if t < length (cs_txs S) \<and> tx_pc (cs_txs S ! t) = AtCommit
      then let x = cs_txs S ! t
           in Some \<lparr>cs_db = apply_tx ts x (cs_db S),
                    cs_txs = (cs_txs S)[t := return_tx x (tx_res x) (Some (fault_error x err))]\<rparr>
      else None)"
| "conc_step ts (AddPartition p) S =
     Some (S\<lparr>cs_db := (cs_db S)\<lparr>db_partitions := db_partitions (cs_db S) @ [p]\<rparr>\<rparr>)"

fun run_schedule :: "(Time \<Rightarrow> int) \<Rightarrow> move list \<Rightarrow> cstate \<Rightarrow> cstate option" where
  "run_schedule ts [] S = Some S"
| "run_schedule ts (m # ms) S =
     (case conc_step ts m S of None \<Rightarrow> None | Some S' \<Rightarrow> run_schedule ts ms S')"

section \<open>Interleavings\<close>

text \<open>
  What a family of processes guarantees: each its own condition, and each two a condition that is
  symmetric. This is the interface the invariants of this development are stated through: a step of
  one process keeps the family when the process keeps its own condition and its conditions with the
  others, and the others keep theirs.
\<close>

definition mutual :: "('x \<Rightarrow> bool) \<Rightarrow> ('x \<Rightarrow> 'x \<Rightarrow> bool) \<Rightarrow> 'x list \<Rightarrow> bool" where
  "mutual ok agree xs \<longleftrightarrow> (\<forall>x \<in> set xs. ok x) \<and>
     (\<forall>i < length xs. \<forall>k < length xs. i \<noteq> k \<longrightarrow> agree (xs ! i) (xs ! k))"

lemma others_nth: "x \<in> set (others t xs) \<longleftrightarrow> (\<exists>i < length xs. i \<noteq> t \<and> x = xs ! i)"
proof -
  have zip: "set (zip xs [0 ..< length xs]) = (\<lambda>i. (xs ! i, i)) ` {..< length xs}"
    by (auto simp: set_zip)
  show ?thesis unfolding others_def set_map set_filter zip by (auto simp: image_iff)
qed

locale interleaving =
  fixes agree :: "'x \<Rightarrow> 'x \<Rightarrow> bool"
  assumes agree_sym: "agree x y \<Longrightarrow> agree y x"
begin

lemma mutual_others:
  "mutual ok agree xs \<Longrightarrow> t < length xs \<Longrightarrow> y \<in> set (others t xs) \<Longrightarrow> ok y \<and> agree (xs ! t) y"
  by (auto simp: mutual_def others_nth)

lemma mutual_update:
  assumes "mutual ok agree xs" "t < length xs" "ok' x'"
    and oth: "\<And>y. y \<in> set (others t xs) \<Longrightarrow> ok' y \<and> agree x' y"
  shows "mutual ok' agree (xs[t := x'])"
proof -
  have other: "ok' (xs ! i) \<and> agree x' (xs ! i)" if "i < length xs" "i \<noteq> t" for i
    using oth others_nth [of "xs ! i" t xs] that by blast
  have "ok' y" if "y \<in> set (xs[t := x'])" for y
    using that other assms(2,3) by (auto simp: in_set_conv_nth nth_list_update split: if_splits)
  moreover have "agree (xs[t := x'] ! i) (xs[t := x'] ! k)" if "i < length xs" "k < length xs" "i \<noteq> k" for i k
    using that other [of i] agree_sym [OF conjunct2 [OF other [of i]]] other [of k] assms(1,2)
    by (auto simp: nth_list_update mutual_def)
  ultimately show ?thesis by (simp add: mutual_def)
qed

lemma mutual_append:
  assumes "mutual ok agree xs" "ok x" "\<And>y. y \<in> set xs \<Longrightarrow> agree x y"
  shows "mutual ok agree (xs @ [x])"
proof -
  have "agree x (xs ! i) \<and> agree (xs ! i) x" if "i < length xs" for i
    using assms(3) [of "xs ! i"] agree_sym [of x "xs ! i"] that by simp
  then show ?thesis using assms(1,2) by (auto simp: mutual_def nth_append less_Suc_eq)
qed

end

section \<open>The invariant\<close>

text \<open>What every transaction guarantees of its pending writes against the committed database: of its event
  (\<open>row_ok\<close>), of its join (\<open>new_ok\<close>), of the joins it closes (\<open>ends_ok\<close>); \<open>pc_ok\<close> relates them to the
  place where it is. \<open>names_join ev j\<close> is the part of the
  conditions of the closing statements that no update can change.\<close>

definition names_join :: "Event \<Rightarrow> join_row \<Rightarrow> bool" where
  "names_join ev j \<longleftrightarrow> jr_backend j = ev_Backend ev \<and> jr_room_name j = ev_RoomName ev \<and>
     (ev_Type ev = EventRoomFinished \<or>
      ev_Type ev = EventParticipantLeft \<and>
        (ev_ParticipantSID ev \<noteq> [] \<and> jr_participant_sid j = Some (ev_ParticipantSID ev) \<or>
         jr_participant_identity j = ev_ParticipantIdentity ev))"

definition row_ok :: "(Time \<Rightarrow> int) \<Rightarrow> database \<Rightarrow> tx \<Rightarrow> bool" where
  "row_ok ts db x \<longleftrightarrow>
     (\<forall>r. tx_row x = Some r \<longrightarrow> r = event_row_of ts (en_now (tx_env x)) (tx_ev x) \<and>
        covered (db_partitions db) (ts (ev_OccurredAt (tx_ev x))) \<and>
        event_identity ts (tx_ev x) \<notin> recorded_keys db)"

definition new_ok :: "(Time \<Rightarrow> int) \<Rightarrow> database \<Rightarrow> tx \<Rightarrow> bool" where
  "new_ok ts db x \<longleftrightarrow>
     (\<forall>j. tx_new x = Some j \<longrightarrow> tx_row x \<noteq> None \<and> tx_pc x = AtCommit \<and>
        j = join_row_of ts (tx_env x) (tx_ev x) \<and> ev_Type (tx_ev x) = EventParticipantJoined \<and>
        jr_started_event_id j \<notin> jr_started_event_id ` set (db_participant_join db) \<and>
        jr_join_id j \<notin> jr_join_id ` set (db_participant_join db))"

definition ends_ok :: "(Time \<Rightarrow> int) \<Rightarrow> database \<Rightarrow> tx \<Rightarrow> bool" where
  "ends_ok ts db x \<longleftrightarrow>
     (tx_ends x \<noteq> [] \<longrightarrow> tx_row x \<noteq> None \<and> tx_pc x = AtCommit) \<and>
     set (tx_ends x) \<subseteq> jr_join_id ` set (db_participant_join db) \<and>
     (\<forall>j \<in> set (db_participant_join db). jr_join_id j \<in> set (tx_ends x) \<longrightarrow>
        jr_started_at j \<le> ts (ev_OccurredAt (tx_ev x)) \<and> names_join (tx_ev x) j)"

definition pc_ok :: "(Time \<Rightarrow> int) \<Rightarrow> database \<Rightarrow> tx \<Rightarrow> bool" where
  "pc_ok ts db x \<longleftrightarrow>
     (case tx_pc x of
        AtInsert \<Rightarrow> tx_row x = None \<and> tx_res x = zeroResult
      | AtEffect \<Rightarrow> tx_row x \<noteq> None \<and> tx_res x = after_insert
      | AtIdentity \<Rightarrow> tx_row x \<noteq> None \<and> tx_res x = after_insert \<and> ev_Type (tx_ev x) = EventParticipantLeft
      | AtUpdate sel ids \<Rightarrow> tx_row x \<noteq> None \<and> tx_res x = after_insert \<and>
          (if sel = ByRoom then ev_Type (tx_ev x) = EventRoomFinished
           else ev_Type (tx_ev x) = EventParticipantLeft) \<and>
          (sel = BySID \<longrightarrow> ev_ParticipantSID (tx_ev x) \<noteq> []) \<and>
          (sel = ByIdentity \<longrightarrow>
             (\<forall>j \<in> set (db_participant_join db). jr_join_id j \<in> set ids \<longrightarrow>
                jr_backend j = ev_Backend (tx_ev x) \<and> jr_room_name j = ev_RoomName (tx_ev x) \<and>
                jr_participant_identity j = ev_ParticipantIdentity (tx_ev x)) \<and>
             set ids \<subseteq> jr_join_id ` set (db_participant_join db))
      | AtCommit \<Rightarrow> (rs_Stored (tx_res x) \<longleftrightarrow> tx_row x \<noteq> None) \<and>
          (tx_row x = None \<longrightarrow> event_identity ts (tx_ev x) \<in> recorded_keys db)
      | Returned res err \<Rightarrow> tx_row x = None \<and>
          (err = None \<longrightarrow> event_identity ts (tx_ev x) \<in> recorded_keys db))"

definition tx_ok :: "(Time \<Rightarrow> int) \<Rightarrow> database \<Rightarrow> tx \<Rightarrow> bool" where
  "tx_ok ts db x \<longleftrightarrow> row_ok ts db x \<and> new_ok ts db x \<and> ends_ok ts db x \<and> pc_ok ts db x"

lemmas tx_ok_defs = tx_ok_def row_ok_def new_ok_def ends_ok_def pc_ok_def

text \<open>The transactions that own an event: it is among their pending writes, or they have reported it
  stored without error. Two of them own different events, and pending joins do not share a unique
  column.\<close>

definition owns :: "tx \<Rightarrow> bool" where
  "owns x \<longleftrightarrow> tx_row x \<noteq> None \<or> (\<exists>res. tx_pc x = Returned res None \<and> rs_Stored res)"

definition compatible :: "(Time \<Rightarrow> int) \<Rightarrow> tx \<Rightarrow> tx \<Rightarrow> bool" where
  "compatible ts x y \<longleftrightarrow>
     (owns x \<and> owns y \<longrightarrow> event_identity ts (tx_ev x) \<noteq> event_identity ts (tx_ev y)) \<and>
     (\<forall>i j. tx_new x = Some i \<and> tx_new y = Some j \<longrightarrow>
        jr_started_event_id i \<noteq> jr_started_event_id j \<and> jr_join_id i \<noteq> jr_join_id j)"

definition conc_inv :: "(Time \<Rightarrow> int) \<Rightarrow> cstate \<Rightarrow> bool" where
  "conc_inv ts S \<longleftrightarrow> db_inv (cs_db S) \<and> mutual (tx_ok ts (cs_db S)) (compatible ts) (cs_txs S)"

lemmas conc_inv_defs = conc_inv_def mutual_def

interpretation cm: interleaving "compatible ts" for ts
  by unfold_locales (auto simp: compatible_def)

lemma conc_inv_step:
  assumes "conc_inv ts S" "t < length (cs_txs S)" "db_inv db'" "tx_ok ts db' x'"
    and "\<And>y. y \<in> set (others t (cs_txs S)) \<Longrightarrow> tx_ok ts db' y \<and> compatible ts x' y"
  shows "conc_inv ts \<lparr>cs_db = db', cs_txs = (cs_txs S)[t := x']\<rparr>"
  using assms cm.mutual_update [of "tx_ok ts (cs_db S)"] by (simp add: conc_inv_def)

section \<open>Commit\<close>

lemma apply_tx_simps [simp]:
  "db_partitions (apply_tx ts x db) = db_partitions db"
  "db_event_raw (apply_tx ts x db) = db_event_raw db @ (case tx_row x of None \<Rightarrow> [] | Some r \<Rightarrow> [r])"
  "db_participant_join (apply_tx ts x db) =
     map (end_row ts x) (db_participant_join db) @ (case tx_new x of None \<Rightarrow> [] | Some j \<Rightarrow> [j])"
  by (simp_all add: apply_tx_def)

lemma end_row_simps [simp]:
  "jr_join_id (end_row ts x j) = jr_join_id j" "jr_started_event_id (end_row ts x j) = jr_started_event_id j"
  "jr_backend (end_row ts x j) = jr_backend j" "jr_room_name (end_row ts x j) = jr_room_name j"
  "jr_participant_identity (end_row ts x j) = jr_participant_identity j"
  "jr_participant_sid (end_row ts x j) = jr_participant_sid j"
  "jr_started_at (end_row ts x j) = jr_started_at j" "started_by r (end_row ts x j) = started_by r j"
  "names_join ev (end_row ts x j) = names_join ev j"
  by (simp_all add: end_row_def names_join_def)

lemma apply_tx_images:
  "jr_join_id ` set (db_participant_join (apply_tx ts x db)) =
     jr_join_id ` set (db_participant_join db) \<union> jr_join_id ` set_option (tx_new x)"
  "jr_started_event_id ` set (db_participant_join (apply_tx ts x db)) =
     jr_started_event_id ` set (db_participant_join db) \<union> jr_started_event_id ` set_option (tx_new x)"
  by (cases "tx_new x"; simp add: image_image)+

lemma end_row_none [simp]: "tx_ends x = [] \<Longrightarrow> map (end_row ts x) js = js"
  by (simp add: end_row_def map_idI)

lemma recorded_apply:
  assumes "tx_ok ts db x"
  shows "recorded_keys (apply_tx ts x db) =
    recorded_keys db \<union> (if tx_row x = None then {} else {event_identity ts (tx_ev x)})"
  using assms by (auto simp: recorded_keys_def tx_ok_def row_ok_def split: option.splits)

lemma ended_by_names:
  "names_join ev j \<Longrightarrow>
   ended_by (event_row_of ts now ev) (set_end (ts (ev_OccurredAt ev)) (close_reason ev) (ev_ID ev) now j)"
  by (auto simp: names_join_def ended_by_def close_reason_def event_row_of_def nullable_def)

lemma apply_tx_join_inv:
  assumes "db_inv db" "tx_ok ts db x" "j \<in> set (db_participant_join (apply_tx ts x db))"
  shows "join_inv (db_event_raw (apply_tx ts x db)) j"
proof -
  let ?rs = "db_event_raw (apply_tx ts x db)"
  have mono: "join_inv ?rs i" if "i \<in> set (db_participant_join db)" for i
    using assms(1) that join_inv_mono [of "db_event_raw db" i ?rs] by (auto simp: db_inv_def)
  consider (old) i where "i \<in> set (db_participant_join db)" "j = i"
    | (ended) i where "i \<in> set (db_participant_join db)" "jr_join_id i \<in> set (tx_ends x)"
        "j = set_end (ts (ev_OccurredAt (tx_ev x))) (close_reason (tx_ev x)) (ev_ID (tx_ev x)) (en_now (tx_env x)) i"
    | (new) "tx_new x = Some j"
    using assms(3) by (auto simp: end_row_def split: option.splits if_splits)
  then show ?thesis
  proof cases
    case old
    then show ?thesis using mono by simp
  next
    case ended
    have r: "event_row_of ts (en_now (tx_env x)) (tx_ev x) \<in> set ?rs"
      using assms(2) ended(2) by (auto simp: tx_ok_def ends_ok_def row_ok_def)
    have i: "jr_started_at i \<le> ts (ev_OccurredAt (tx_ev x))" "names_join (tx_ev x) i"
      using assms(2) ended(1,2) by (auto simp: tx_ok_def ends_ok_def)
    show ?thesis
      using mono [OF ended(1)] r i(1) ended_by_names [OF i(2), of ts "en_now (tx_env x)"]
      by (auto simp: join_inv_def ended(3))
  next
    case new
    then have j: "j = join_row_of ts (tx_env x) (tx_ev x)" "ev_Type (tx_ev x) = EventParticipantJoined"
        "event_row_of ts (en_now (tx_env x)) (tx_ev x) \<in> set ?rs"
      using assms(2) by (auto simp: tx_ok_def new_ok_def row_ok_def)
    then show ?thesis
      using started_by_fresh [OF j(2), of ts "en_now (tx_env x)" "tx_env x"] by (auto simp: join_inv_def)
  qed
qed

lemma apply_tx_inv:
  assumes "db_inv db" "tx_ok ts db x"
  shows "db_inv (apply_tx ts x db)"
  using assms apply_tx_join_inv [OF assms]
  by (auto simp: db_inv_def tx_ok_def row_ok_def new_ok_def recorded_keys_def o_def split: option.splits)

text \<open>The commit of one transaction keeps the guarantees of every other.\<close>

lemma tx_ok_other_commit:
  assumes "tx_ok ts db x" "tx_ok ts db y" "compatible ts x y"
  shows "tx_ok ts (apply_tx ts x db) y"
proof -
  have keys: "recorded_keys db \<subseteq> recorded_keys (apply_tx ts x db)"
    unfolding recorded_apply [OF assms(1)] by simp
  have fresh: "event_identity ts (tx_ev y) \<notin> recorded_keys (apply_tx ts x db)"
    if "tx_row y \<noteq> None" "event_identity ts (tx_ev y) \<notin> recorded_keys db"
    using that assms(3) unfolding recorded_apply [OF assms(1)] by (auto simp: compatible_def owns_def)
  let ?js = "db_participant_join db" and ?js' = "db_participant_join (apply_tx ts x db)"
  have old: "\<exists>i \<in> set ?js. j = end_row ts x i" if "j \<in> set ?js'" "jr_join_id j \<in> jr_join_id ` set ?js" for j
    using that assms(1) by (cases "tx_new x") (auto simp: tx_ok_def new_ok_def)
  have ids: "jr_join_id ` set ?js \<subseteq> jr_join_id ` set ?js'"
    unfolding apply_tx_images by blast
  have "row_ok ts (apply_tx ts x db) y"
    using assms(2) fresh by (auto simp: tx_ok_def row_ok_def)
  moreover have "new_ok ts (apply_tx ts x db) y"
  proof (cases "tx_new y")
    case (Some j)
    then have j: "tx_row y \<noteq> None" "tx_pc y = AtCommit" "j = join_row_of ts (tx_env y) (tx_ev y)"
        "ev_Type (tx_ev y) = EventParticipantJoined"
        "jr_started_event_id j \<notin> jr_started_event_id ` set (db_participant_join db)"
        "jr_join_id j \<notin> jr_join_id ` set (db_participant_join db)"
      using assms(2) unfolding tx_ok_def new_ok_def by blast+
    have "jr_started_event_id j \<notin> jr_started_event_id ` set_option (tx_new x)"
        "jr_join_id j \<notin> jr_join_id ` set_option (tx_new x)"
      using assms(3) Some unfolding compatible_def by (cases "tx_new x"; force)+
    then have "jr_started_event_id j \<notin> jr_started_event_id ` set (db_participant_join (apply_tx ts x db))"
        "jr_join_id j \<notin> jr_join_id ` set (db_participant_join (apply_tx ts x db))"
      unfolding apply_tx_images using j(5,6) by blast+
    note all = j(1-4) this
    have "j' = j" if "tx_new y = Some j'" for j'
      using that Some by simp
    then show ?thesis unfolding new_ok_def using all by (intro allI impI conjI) (simp_all only: not_False_eq_True)
  qed (simp add: new_ok_def)
  moreover have "ends_ok ts (apply_tx ts x db) y"
  proof -
    have y: "ends_ok ts db y" using assms(2) by (simp add: tx_ok_def)
    have "jr_started_at j \<le> ts (ev_OccurredAt (tx_ev y)) \<and> names_join (tx_ev y) j"
      if "j \<in> set ?js'" "jr_join_id j \<in> set (tx_ends y)" for j
    proof -
      have "jr_join_id j \<in> jr_join_id ` set ?js" using y that(2) by (auto simp: ends_ok_def)
      from old [OF that(1) this] show ?thesis using y that(2) by (auto simp: ends_ok_def)
    qed
    then show ?thesis using y ids unfolding ends_ok_def by blast
  qed
  moreover have "pc_ok ts (apply_tx ts x db) y"
  proof (cases "tx_pc y")
    case (AtUpdate sel sel_ids)
    have y: "pc_ok ts db y" using assms(2) by (simp add: tx_ok_def)
    have "jr_backend j = ev_Backend (tx_ev y) \<and> jr_room_name j = ev_RoomName (tx_ev y) \<and>
        jr_participant_identity j = ev_ParticipantIdentity (tx_ev y)"
      if "sel = ByIdentity" "j \<in> set ?js'" "jr_join_id j \<in> set sel_ids" for j
    proof -
      have "jr_join_id j \<in> jr_join_id ` set ?js" using y that(1,3) by (auto simp: pc_ok_def AtUpdate)
      from old [OF that(2) this] show ?thesis using y that(1,3) by (auto simp: pc_ok_def AtUpdate)
    qed
    then show ?thesis using y ids by (auto simp: pc_ok_def AtUpdate simp del: apply_tx_simps)
  qed (use assms(2) keys in \<open>auto simp: tx_ok_def pc_ok_def\<close>)
  ultimately show ?thesis by (simp add: tx_ok_def)
qed

section \<open>The other steps\<close>

lemma return_tx_simps [simp]:
  "tx_ev (return_tx x res err) = tx_ev x" "tx_pc (return_tx x res err) = Returned res err"
  "tx_row (return_tx x res err) = None" "tx_new (return_tx x res err) = None" "tx_ends (return_tx x res err) = []"
  by (simp_all add: return_tx_def)

lemma return_tx_ok:
  "(err = None \<Longrightarrow> event_identity ts (tx_ev x) \<in> recorded_keys db) \<Longrightarrow> tx_ok ts db (return_tx x res err)"
  by (auto simp: tx_ok_defs)

text \<open>A transaction that claims nothing new stays compatible with the others.\<close>

lemma compatible_weaken:
  assumes "compatible ts x y" "tx_ev x' = tx_ev x" "owns x' \<Longrightarrow> owns x" "tx_new x' = None \<or> tx_new x' = tx_new x"
  shows "compatible ts x' y"
  using assms by (auto simp: compatible_def)

lemma fresh_compatible:
  assumes "tx_ok ts db y" "y \<in> set os" "event_identity ts (tx_ev x) \<notin> recorded_keys db"
    "event_identity ts (tx_ev x) \<notin> set (held_keys os)" "tx_new x = None"
  shows "compatible ts x y"
proof -
  have "event_identity ts (tx_ev y) \<in> recorded_keys db \<union> set (held_keys os)" if "owns y"
    using that assms(1,2)
    by (auto simp: owns_def tx_ok_def row_ok_def pc_ok_def held_keys_def List.map_filter_def image_iff split: pc.splits)
  then show ?thesis using assms(3-5) by (auto simp: compatible_def)
qed

lemma step_insert_keeps:
  assumes "tx_ok ts db x" "tx_pc x = AtInsert" "step_insert ts os db x = Some x'"
    and "\<And>y. y \<in> set os \<Longrightarrow> tx_ok ts db y \<and> compatible ts x y"
  shows "tx_ok ts db x' \<and> (\<forall>y \<in> set os. compatible ts x' y)"
proof -
  let ?r = "event_row_of ts (en_now (tx_env x)) (tx_ev x)"
  have x: "tx_row x = None" "tx_new x = None" "tx_ends x = []" "tx_res x = zeroResult"
    using assms(1,2) by (auto simp: tx_ok_defs)
  consider (missing) "x' = return_tx x zeroResult (Some ErrPartitionMissing)"
    | (dup) "event_identity ts (tx_ev x) \<in> recorded_keys db" "x' = x\<lparr>tx_pc := AtCommit\<rparr>"
    | (new) "covered (db_partitions db) (ts (ev_OccurredAt (tx_ev x)))"
        "event_identity ts (tx_ev x) \<notin> recorded_keys db" "event_identity ts (tx_ev x) \<notin> set (held_keys os)"
        "x' = x\<lparr>tx_pc := AtEffect, tx_row := Some ?r, tx_res := after_insert\<rparr>"
    using assms(3) by (auto simp: step_insert_def Let_def split: if_splits)
  then show ?thesis
  proof cases
    case missing
    have "compatible ts x' y" if "y \<in> set os" for y
      by (rule compatible_weaken [of ts x y]) (use missing assms(4) that in \<open>auto simp: owns_def\<close>)
    then show ?thesis using missing return_tx_ok [of "Some ErrPartitionMissing"] by auto
  next
    case dup
    then have "tx_ok ts db x'" using x by (simp add: tx_ok_defs)
    moreover have "compatible ts x' y" if "y \<in> set os" for y
      by (rule compatible_weaken [of ts x y]) (use dup assms(4) that x in \<open>auto simp: owns_def\<close>)
    ultimately show ?thesis by blast
  next
    case new
    then have "tx_ok ts db x'" using x by (simp add: tx_ok_defs)
    moreover have "compatible ts x' y" if "y \<in> set os" for y
      by (rule fresh_compatible [OF _ that]) (use new assms(4) that x in auto)
    ultimately show ?thesis by blast
  qed
qed

lemma step_open_keeps:
  assumes "tx_ok ts db x" "tx_pc x = AtEffect" "ev_Type (tx_ev x) = EventParticipantJoined"
    "step_open ts os db x = Some x'" "\<And>y. y \<in> set os \<Longrightarrow> compatible ts x y"
  shows "tx_ok ts db x' \<and> (\<forall>y \<in> set os. compatible ts x' y)"
proof -
  let ?j = "join_row_of ts (tx_env x) (tx_ev x)"
  have x: "tx_row x \<noteq> None" "tx_new x = None" "tx_ends x = []" "row_ok ts db x"
    using assms(1,2) by (auto simp: tx_ok_defs)
  consider (old) "x' = x\<lparr>tx_pc := AtCommit, tx_res := after_insert\<lparr>rs_JoinOpened := False\<rparr>\<rparr>"
    | (failed) err where "x' = return_tx x after_insert (Some err)"
    | (new) "jr_started_event_id ?j \<notin> jr_started_event_id ` set (db_participant_join db)"
        "jr_join_id ?j \<notin> jr_join_id ` set (db_participant_join db)"
        "jr_started_event_id ?j \<notin> jr_started_event_id ` set (held_joins os)"
        "jr_join_id ?j \<notin> jr_join_id ` set (held_joins os)"
        "x' = x\<lparr>tx_pc := AtCommit, tx_new := Some ?j, tx_res := after_insert\<lparr>rs_JoinOpened := True\<rparr>\<rparr>"
    using assms(4) by (auto simp: step_open_def Let_def split: if_splits)
  then show ?thesis
  proof cases
    case old
    have "tx_ok ts db x'" using old x by (auto simp: tx_ok_defs zeroResult_def)
    moreover have "compatible ts x' y" if "y \<in> set os" for y
      by (rule compatible_weaken [OF assms(5) [OF that]]) (use old x in \<open>auto simp: owns_def\<close>)
    ultimately show ?thesis by blast
  next
    case failed
    have "compatible ts x' y" if "y \<in> set os" for y
      by (rule compatible_weaken [OF assms(5) [OF that]]) (use failed in \<open>auto simp: owns_def\<close>)
    then show ?thesis using failed return_tx_ok [of "Some err"] by auto
  next
    case new
    have "tx_ok ts db x'" using new x assms(3) by (auto simp: tx_ok_defs zeroResult_def)
    moreover have "compatible ts x' y" if y: "y \<in> set os" for y
    proof -
      have "j \<in> set (held_joins os)" if "tx_new y = Some j" for j
        using y that by (force simp: held_joins_def List.map_filter_def)
      then show ?thesis using assms(5) [OF y] new x by (fastforce simp: compatible_def owns_def)
    qed
    ultimately show ?thesis by blast
  qed
qed

text \<open>What an update changes: rows its event names, none of which starts after the end it sets.\<close>

lemma update_names:
  assumes "tx_ok ts db x" "tx_pc x = AtUpdate sel ids" "j \<in> set (db_participant_join db)"
    "jr_join_id j \<in> set ids" "recheck sel (tx_ev x) j"
  shows "names_join (tx_ev x) j"
  using assms by (cases sel) (auto simp: tx_ok_def pc_ok_def names_join_def recheck_def by_sid_def by_room_def)

lemma pc_change_ok:
  assumes "tx_ok ts db x" "tx_pc x \<noteq> AtCommit" "pc_ok ts db (x\<lparr>tx_pc := p\<rparr>)"
  shows "tx_ok ts db (x\<lparr>tx_pc := p\<rparr>)"
  using assms by (auto simp: tx_ok_def row_ok_def new_ok_def ends_ok_def)

lemma step_update_keeps:
  assumes "db_inv db" "tx_ok ts db x" "tx_pc x = AtUpdate sel ids" "step_update ts os db x sel ids = Some x'"
  shows "tx_ok ts db x' \<and> (owns x' \<longrightarrow> owns x) \<and> tx_ev x' = tx_ev x \<and> tx_new x' = None"
proof -
  let ?T = "filter (\<lambda>j. jr_join_id j \<in> set ids \<and> recheck sel (tx_ev x) j) (db_participant_join db)"
  have x: "tx_row x \<noteq> None" "tx_new x = None" "tx_res x = after_insert" "row_ok ts db x"
    using assms(2,3) by (auto simp: tx_ok_defs)
  define res where "res = (if sel = ByRoom then (tx_res x)\<lparr>rs_JoinsClosed := int (length ?T)\<rparr>
      else (tx_res x)\<lparr>rs_JoinsClosed := int (length ?T), rs_CloseUnmatched := (length ?T = 0)\<rparr>)"
  have stored: "rs_Stored res" using x(3) by (simp add: res_def)
  consider (late) "x' = return_tx x (tx_res x) (Some ErrCloseOutOfOrder)"
    | (again) "sel = BySID" "x' = x\<lparr>tx_pc := AtIdentity\<rparr>"
    | (ended) "\<forall>j \<in> set ?T. jr_started_at j \<le> ts (ev_OccurredAt (tx_ev x))"
        "x' = x\<lparr>tx_pc := AtCommit, tx_ends := map jr_join_id ?T, tx_res := res\<rparr>"
    using assms(4) unfolding step_update_def Let_def res_def [symmetric]
    by (auto simp: not_less simp del: set_filter split: if_splits)
  then show ?thesis
  proof cases
    case late
    then show ?thesis using return_tx_ok [of "Some ErrCloseOutOfOrder"] by (auto simp: owns_def)
  next
    case again
    have "tx_ok ts db (x\<lparr>tx_pc := AtIdentity\<rparr>)"
      by (rule pc_change_ok [OF assms(2)]) (use assms(2,3) again in \<open>auto simp: tx_ok_def pc_ok_def\<close>)
    then show ?thesis using again x by (auto simp: owns_def)
  next
    case ended
    have dist: "distinct (map jr_join_id (db_participant_join db))" using assms(1) by (simp add: db_inv_def)
    have T: "j \<in> set ?T" if "j \<in> set (db_participant_join db)" "jr_join_id j \<in> jr_join_id ` set ?T" for j
    proof -
      from that(2) obtain c where "c \<in> set ?T" "jr_join_id j = jr_join_id c" by blast
      then show ?thesis using same_join [OF dist that(1), of c] by auto
    qed
    have sub: "jr_join_id ` set ?T \<subseteq> jr_join_id ` set (db_participant_join db)" by auto
    have "jr_started_at j \<le> ts (ev_OccurredAt (tx_ev x)) \<and> names_join (tx_ev x) j"
      if "j \<in> set (db_participant_join db)" "jr_join_id j \<in> jr_join_id ` set ?T" for j
      using T [OF that] ended(1) update_names [OF assms(2,3)] by auto
    then have "ends_ok ts db x'"
      unfolding ends_ok_def ended(2) using x(1) sub by (auto simp del: set_filter)
    then show ?thesis using ended x stored by (auto simp: tx_ok_def row_ok_def new_ok_def pc_ok_def owns_def)
  qed
qed

lemma snapshot_identity_ok:
  assumes "tx_ok ts db x" "tx_pc x = AtIdentity" "db_inv db"
  shows "tx_ok ts db (x\<lparr>tx_pc := AtUpdate ByIdentity (snapshot_identity x db)\<rparr>)"
proof -
  let ?ev = "tx_ev x"
  have sel: "jr_backend j = ev_Backend ?ev \<and> jr_room_name j = ev_RoomName ?ev \<and>
      jr_participant_identity j = ev_ParticipantIdentity ?ev"
    if j: "j \<in> set (db_participant_join db)" "jr_join_id j \<in> set (snapshot_identity x db)" for j
  proof -
    have "latest_open (ev_Backend ?ev) (ev_RoomName ?ev) (ev_ParticipantIdentity ?ev) (en_pick (tx_env x))
        (db_participant_join db) = Some (jr_join_id j)"
      using j(2) by (auto simp: snapshot_identity_def split: option.splits)
    from latest_open_Some [OF this] obtain c where c: "c \<in> set (db_participant_join db)"
        "by_identity (ev_Backend ?ev) (ev_RoomName ?ev) (ev_ParticipantIdentity ?ev) c" "jr_join_id c = jr_join_id j"
      by blast
    have "c = j"
      by (rule same_join [OF _ c(1) j(1) c(3)]) (use assms(3) in \<open>simp add: db_inv_def\<close>)
    then show ?thesis using c(2) by (simp add: by_identity_def)
  qed
  have "i \<in> jr_join_id ` set (db_participant_join db)" if "i \<in> set (snapshot_identity x db)" for i
  proof -
    have "latest_open (ev_Backend ?ev) (ev_RoomName ?ev) (ev_ParticipantIdentity ?ev) (en_pick (tx_env x))
        (db_participant_join db) = Some i"
      using that by (auto simp: snapshot_identity_def split: option.splits)
    from latest_open_Some [OF this] show ?thesis by blast
  qed
  then show ?thesis
    by (intro pc_change_ok [OF assms(1)]) (use assms(1,2) sel in \<open>auto simp: tx_ok_def pc_ok_def\<close>)
qed

lemma step_effect_keeps:
  assumes "tx_ok ts db x" "tx_pc x = AtEffect" "step_effect ts os db x = Some x'"
    and "\<And>y. y \<in> set os \<Longrightarrow> compatible ts x y"
  shows "tx_ok ts db x' \<and> (\<forall>y \<in> set os. compatible ts x' y)"
proof (cases "ev_Type (tx_ev x) = EventParticipantJoined")
  case True
  then show ?thesis using assms(3) step_open_keeps [OF assms(1,2) True _ assms(4)] by (simp add: step_effect_def Let_def)
next
  case False
  then obtain p where p: "x' = x\<lparr>tx_pc := p\<rparr>" "pc_ok ts db (x\<lparr>tx_pc := p\<rparr>)" "\<forall>res err. p \<noteq> Returned res err"
    using assms(1-3) by (auto simp: step_effect_def Let_def tx_ok_def pc_ok_def split: if_splits)
  have "tx_ok ts db x'" unfolding p(1) by (rule pc_change_ok [OF assms(1) _ p(2)]) (simp add: assms(2))
  moreover have "compatible ts x' y" if "y \<in> set os" for y
    by (rule compatible_weaken [OF assms(4) [OF that]]) (use p in \<open>auto simp: owns_def\<close>)
  ultimately show ?thesis by blast
qed

section \<open>Every interleaving keeps the invariant\<close>

lemma commit_keeps:
  assumes "conc_inv ts S" "t < length (cs_txs S)" "tx_pc (cs_txs S ! t) = AtCommit"
  shows "conc_inv ts \<lparr>cs_db = apply_tx ts (cs_txs S ! t) (cs_db S),
    cs_txs = (cs_txs S)[t := return_tx (cs_txs S ! t) (tx_res (cs_txs S ! t)) err]\<rparr>"
proof -
  let ?x = "cs_txs S ! t" and ?db = "apply_tx ts (cs_txs S ! t) (cs_db S)"
  have db: "db_inv (cs_db S)" and x: "tx_ok ts (cs_db S) ?x" using assms(1,2) by (auto simp: conc_inv_defs)
  have oth: "tx_ok ts (cs_db S) y \<and> compatible ts ?x y" if "y \<in> set (others t (cs_txs S))" for y
    using that assms(1,2) by (auto simp: conc_inv_defs others_nth)
  have pc: "rs_Stored (tx_res ?x) \<longleftrightarrow> tx_row ?x \<noteq> None" "tx_row ?x = None \<longrightarrow> event_identity ts (tx_ev ?x) \<in> recorded_keys (cs_db S)"
    using x assms(3) by (auto simp: tx_ok_def pc_ok_def)
  have "tx_ok ts ?db (return_tx ?x (tx_res ?x) err)"
    by (rule return_tx_ok) (use pc recorded_apply [OF x] in auto)
  moreover have "compatible ts (return_tx ?x (tx_res ?x) err) y" if "y \<in> set (others t (cs_txs S))" for y
    by (rule compatible_weaken [OF conjunct2 [OF oth [OF that]]]) (use pc in \<open>auto simp: owns_def\<close>)
  ultimately show ?thesis
    using conc_inv_step [OF assms(1,2) apply_tx_inv [OF db x]] tx_ok_other_commit [OF x] oth by blast
qed

lemma advance_keeps:
  assumes "conc_inv ts S" "t < length (cs_txs S)"
    "advance ts (others t (cs_txs S)) (cs_db S) (cs_txs S ! t) = Some (db', x')"
  shows "conc_inv ts \<lparr>cs_db = db', cs_txs = (cs_txs S)[t := x']\<rparr>"
proof -
  let ?x = "cs_txs S ! t" and ?os = "others t (cs_txs S)" and ?db = "cs_db S"
  have db: "db_inv ?db" and x: "tx_ok ts ?db ?x" using assms(1,2) by (auto simp: conc_inv_defs)
  have oth: "tx_ok ts ?db y \<and> compatible ts ?x y" if "y \<in> set ?os" for y
    using that assms(1,2) by (auto simp: conc_inv_defs others_nth)
  have stay: "conc_inv ts \<lparr>cs_db = ?db, cs_txs = (cs_txs S)[t := x']\<rparr>"
    if "tx_ok ts ?db x' \<and> (\<forall>y \<in> set ?os. compatible ts x' y)"
    by (rule conc_inv_step [OF assms(1,2) db]) (use that oth in auto)
  have weak: "tx_ok ts ?db x' \<and> (\<forall>y \<in> set ?os. compatible ts x' y)"
    if "tx_ok ts ?db x' \<and> (owns x' \<longrightarrow> owns ?x) \<and> tx_ev x' = tx_ev ?x \<and> tx_new x' = None"
    using that oth compatible_weaken [of ts ?x _ x'] by blast
  show ?thesis
  proof (cases "tx_pc ?x")
    case AtInsert
    then have "db' = ?db" "step_insert ts ?os ?db ?x = Some x'" using assms(3) by (auto simp: advance_def)
    then show ?thesis using stay step_insert_keeps [OF x AtInsert _ oth] by simp
  next
    case AtEffect
    then have "db' = ?db" "step_effect ts ?os ?db ?x = Some x'" using assms(3) by (auto simp: advance_def)
    then show ?thesis using stay step_effect_keeps [OF x AtEffect _ conjunct2 [OF oth]] by simp
  next
    case AtIdentity
    then have x': "db' = ?db" "x' = ?x\<lparr>tx_pc := AtUpdate ByIdentity (snapshot_identity ?x ?db)\<rparr>"
      using assms(3) by (auto simp: advance_def)
    have "tx_new ?x = None" using x AtIdentity by (auto simp: tx_ok_def new_ok_def)
    then show ?thesis
      using stay weak snapshot_identity_ok [OF x AtIdentity db] x' by (simp add: owns_def)
  next
    case (AtUpdate sel ids)
    then have "db' = ?db" "step_update ts ?os ?db ?x sel ids = Some x'" using assms(3) by (auto simp: advance_def)
    then show ?thesis using stay weak step_update_keeps [OF db x AtUpdate] by simp
  next
    case AtCommit
    then have x': "db' = apply_tx ts ?x ?db" "x' = return_tx ?x (tx_res ?x) None"
      using assms(3) by (auto simp: advance_def)
    show ?thesis
      using commit_keeps [OF assms(1,2) AtCommit] x' by simp
  next
    case (Returned res err)
    then show ?thesis using assms(3) by (simp add: advance_def)
  qed
qed

lemma tx_ok_begin: "tx_ok ts db (begin_tx e ev)" "compatible ts (begin_tx e ev) y" "\<not> owns (begin_tx e ev)"
  by (simp_all add: begin_tx_def tx_ok_defs compatible_def owns_def)

lemma tx_ok_partition: "tx_ok ts db x \<Longrightarrow> tx_ok ts (db\<lparr>db_partitions := db_partitions db @ [p]\<rparr>) x"
  by (auto simp: tx_ok_defs recorded_keys_def covered_more split: pc.splits)

lemma conc_step_inv:
  assumes "conc_inv ts S" "conc_step ts m S = Some S'"
  shows "conc_inv ts S'"
proof (cases m)
  case (Begin e ev)
  then show ?thesis
    using assms cm.mutual_append [where ok = "tx_ok ts (cs_db S)" and x = "begin_tx e ev" and xs = "cs_txs S" and ts = ts]
      tx_ok_begin(1,2) by (auto simp: conc_inv_def)
next
  case (Advance t)
  then show ?thesis using assms advance_keeps [OF assms(1)] by (auto split: if_splits option.splits)
next
  case (Fault t err)
  let ?x = "cs_txs S ! t"
  let ?x' = "return_tx ?x (tx_res ?x) (Some (fault_error ?x err))"
  have t: "t < length (cs_txs S)" "S' = \<lparr>cs_db = cs_db S, cs_txs = (cs_txs S)[t := ?x']\<rparr>"
    using assms(2) by (auto simp: Fault Let_def split: if_splits)
  have "compatible ts ?x' y" if "y \<in> set (others t (cs_txs S))" for y
    by (rule compatible_weaken [of ts ?x y]) (use that t(1) assms(1) in \<open>auto simp: owns_def conc_inv_defs others_nth\<close>)
  then show ?thesis unfolding t(2)
    by (intro conc_inv_step [OF assms(1) t(1)])
       (use assms(1) return_tx_ok [of "Some (fault_error ?x err)"] in \<open>auto simp: conc_inv_defs others_nth\<close>)
next
  case (LoseAck t err)
  then show ?thesis using assms commit_keeps [OF assms(1)] by (auto simp: Let_def split: if_splits)
next
  case (AddPartition p)
  have "db_inv ((cs_db S)\<lparr>db_partitions := db_partitions (cs_db S) @ [p]\<rparr>)"
    using assms(1) by (intro db_step_inv [OF partition_step]) (simp add: conc_inv_def)
  moreover have "mutual (tx_ok ts ((cs_db S)\<lparr>db_partitions := db_partitions (cs_db S) @ [p]\<rparr>)) (compatible ts) (cs_txs S)"
    using assms(1) tx_ok_partition unfolding conc_inv_defs by blast
  ultimately show ?thesis using assms(2) by (auto simp: AddPartition conc_inv_def)
qed

lemma run_schedule_inv: "run_schedule ts ms S = Some S' \<Longrightarrow> conc_inv ts S \<Longrightarrow> conc_inv ts S'"
  by (induction ms arbitrary: S) (auto split: option.splits dest: conc_step_inv)

definition fresh_state :: "database \<Rightarrow> cstate" where
  "fresh_state db = \<lparr>cs_db = db, cs_txs = []\<rparr>"

lemma reachable_conc_inv: "db_inv db \<Longrightarrow> run_schedule ts ms (fresh_state db) = Some S \<Longrightarrow> conc_inv ts S"
  by (rule run_schedule_inv [where S = "fresh_state db"]) (auto simp: conc_inv_defs fresh_state_def)

end
