(* ===== verification/Postgres_Schedules.thy ===== *)
theory Postgres_Schedules
  imports Postgres_Concurrent
begin

text \<open>
  What the interleavings of \<open>Postgres_Concurrent\<close> guarantee: some call can always go on, a call alone is the
  sequential \<open>RecordEvent\<close>, an event is stored once however often and however concurrently it is delivered,
  and the end of a join is final as long as no close falls back to the identity (\<open>Concurrent_Views\<close> has what happens with the
  fallback). What row locks add to the steps, deadlocks among it, is in \<open>Row_Locks\<close>.
\<close>

section \<open>Progress\<close>

text \<open>The number of steps a transaction still has to make, at most.\<close>

definition rank :: "tx \<Rightarrow> nat" where
  "rank x =
     (case tx_pc x of
        AtInsert \<Rightarrow> 6 | AtEffect \<Rightarrow> 5 | AtIdentity \<Rightarrow> 3
      | AtUpdate sel ids \<Rightarrow> if sel = BySID then 4 else 2
      | AtCommit \<Rightarrow> 1 | Returned res err \<Rightarrow> 0)"

definition work :: "cstate \<Rightarrow> nat" where
  "work S = sum_list (map rank (cs_txs S))"

lemma rank_0: "rank x = 0 \<longleftrightarrow> returned x"
  by (auto simp: rank_def returned_def split: pc.splits)

lemma rank_le: "rank x \<le> 6"
  by (auto simp: rank_def split: pc.splits)

lemma rank_return [simp]: "rank (return_tx x res err) = 0"
  by (simp add: rank_def)

lemma advance_rank: "advance ts os db x = Some (db', x') \<Longrightarrow> rank x' < rank x"
  by (auto simp: advance_def rank_def step_insert_def step_effect_def step_open_def step_update_def Let_def
      split: pc.splits if_splits)

lemma sum_list_update_less:
  "t < length xs \<Longrightarrow> f y < f (xs ! t) \<Longrightarrow> sum_list (map f (xs[t := y])) < sum_list (map f (xs :: 'a list) :: nat list)"
  by (induction xs arbitrary: t) (auto split: nat.splits)

lemma advance_work: "conc_step ts (Advance t) S = Some S' \<Longrightarrow> work S' < work S"
  by (auto simp: work_def sum_list_update_less advance_rank split: if_splits option.splits)

text \<open>With the row locks of an update taken in one step, rows, keys and locks are waited for only while their holder can go on.\<close>

lemma tx_idle:
  "tx_ok ts db x \<Longrightarrow> tx_pc x = AtInsert \<or> returned x \<Longrightarrow> tx_row x = None"
  "tx_ok ts db x \<Longrightarrow> tx_pc x \<noteq> AtCommit \<Longrightarrow> tx_new x = None"
  "tx_ok ts db x \<Longrightarrow> tx_pc x \<noteq> AtCommit \<Longrightarrow> tx_ends x = []"
  by (auto simp: tx_ok_def pc_ok_def new_ok_def ends_ok_def returned_def split: pc.splits)

lemma waits_for_committing:
  assumes "conc_inv ts S" "t < length (cs_txs S)" "\<not> returned (cs_txs S ! t)"
  shows "\<exists>k < length (cs_txs S). conc_step ts (Advance k) S \<noteq> None"
proof -
  let ?xs = "cs_txs S"
  let ?can = "\<lambda>k. advance ts (others k ?xs) (cs_db S) (?xs ! k) \<noteq> None"
  have ok: "tx_ok ts (cs_db S) (?xs ! k)" if "k < length ?xs" for k using assms(1) that by (auto simp: conc_inv_defs)
  have "\<exists>k < length ?xs. ?can k"
  proof (cases "\<exists>k < length ?xs. tx_pc (?xs ! k) = AtCommit")
    case True
    then show ?thesis by (auto simp: advance_def)
  next
    case False
    then have free: "held_joins (others k ?xs) = []" "locked (others k ?xs) = []" for k
      using tx_idle(2,3) [OF ok] by (auto simp: held_joins_def locked_def map_filter_Nil others_nth)
    show ?thesis
    proof (cases "\<exists>k < length ?xs. tx_pc (?xs ! k) \<noteq> AtInsert \<and> \<not> returned (?xs ! k)")
      case True
      then obtain k where k: "k < length ?xs" "tx_pc (?xs ! k) \<noteq> AtInsert" "\<not> returned (?xs ! k)" by blast
      then have "?can k"
        using False free by (auto simp: advance_def step_effect_def step_open_def step_update_def Let_def returned_def
            split: pc.splits)
      then show ?thesis using k(1) by blast
    next
      case idle: False
      then have "held_keys (others k ?xs) = []" for k
        using tx_idle(1) [OF ok] by (auto simp: held_keys_def map_filter_Nil others_nth)
      moreover have "tx_pc (?xs ! t) = AtInsert" using idle assms(2,3) by blast
      ultimately have "?can t" by (auto simp: advance_def step_insert_def Let_def)
      then show ?thesis using assms(2) by blast
    qed
  qed
  then show ?thesis by (auto split: option.splits)
qed

lemma work_le: "work S \<le> 6 * length (cs_txs S)"
  unfolding work_def using sum_list_mono [of "cs_txs S" rank "\<lambda>_. 6"] rank_le by (simp add: sum_list_triv)

section \<open>One call alone\<close>

text \<open>\<open>n\<close> steps of a transaction with nobody else active.\<close>

fun solo :: "(Time \<Rightarrow> int) \<Rightarrow> nat \<Rightarrow> database \<times> tx \<Rightarrow> (database \<times> tx) option" where
  "solo ts 0 p = Some p"
| "solo ts (Suc n) (db, x) = (case advance ts [] db x of None \<Rightarrow> None | Some p \<Rightarrow> solo ts n p)"

lemma advance_idle:
  assumes "\<forall>y \<in> set os. tx_row y = None \<and> tx_new y = None \<and> tx_ends y = []"
  shows "advance ts os db x = advance ts [] db x"
proof -
  have "held_keys os = held_keys []" "held_joins os = held_joins []" "locked os = locked []"
    using assms by (auto simp: held_keys_def held_joins_def locked_def map_filter_Nil List.map_filter_def)
  then show ?thesis
    by (simp add: advance_def step_insert_def step_effect_def step_open_def step_update_def Let_def split: pc.splits)
qed

lemma others_last: "others (length xs) (xs @ [x]) = xs"
proof -
  have "filter (\<lambda>p. snd p \<noteq> length xs) (zip xs [0 ..< length xs]) = zip xs [0 ..< length xs]"
    by (rule filter_True) (auto simp: set_zip)
  then show ?thesis by (simp add: others_def)
qed

lemma solo_schedule:
  assumes "\<forall>y \<in> set xs. tx_row y = None \<and> tx_new y = None \<and> tx_ends y = []"
    and "solo ts n (db, x) = Some (db', x')"
  shows "run_schedule ts (replicate n (Advance (length xs))) \<lparr>cs_db = db, cs_txs = xs @ [x]\<rparr>
    = Some \<lparr>cs_db = db', cs_txs = xs @ [x']\<rparr>"
  using assms(2)
  by (induction n arbitrary: db x) (auto simp: others_last advance_idle [OF assms(1)] split: option.splits)

definition solo_ends :: "(Time \<Rightarrow> int) \<Rightarrow> nat \<Rightarrow> database \<Rightarrow> tx \<Rightarrow> database \<times> Result \<times> store_error option \<Rightarrow> bool" where
  "solo_ends ts n db x r \<longleftrightarrow>
     (\<exists>k \<le> n. \<exists>x'. solo ts k (db, x) = Some (fst r, x') \<and> tx_pc x' = Returned (fst (snd r)) (snd (snd r)))"

lemma solo_endsI: "tx_pc x = Returned res err \<Longrightarrow> solo_ends ts n db x (db, res, err)"
  unfolding solo_ends_def by (intro exI [of _ 0]) simp

lemma solo_ends_step:
  assumes "advance ts [] db x = Some (db', x')" "solo_ends ts n db' x' r"
  shows "solo_ends ts (Suc n) db x r"
proof -
  from assms(2) obtain k y where "k \<le> n" "solo ts k (db', x') = Some (fst r, y)"
      "tx_pc y = Returned (fst (snd r)) (snd (snd r))" by (auto simp: solo_ends_def)
  then show ?thesis using assms(1) unfolding solo_ends_def by (intro exI [of _ "Suc k"]) auto
qed

lemma solo_ends_mono: "solo_ends ts n db x r \<Longrightarrow> n \<le> m \<Longrightarrow> solo_ends ts m db x r"
  unfolding solo_ends_def using le_trans by blast

text \<open>What is left of a call once its event has been inserted.\<close>

definition effect_end :: "(Time \<Rightarrow> int) \<Rightarrow> env \<Rightarrow> Event \<Rightarrow> database \<Rightarrow> database \<times> Result \<times> store_error option" where
  "effect_end ts e ev db =
     (if effect_ok ts e ev (db_participant_join db)
      then (stored_db ts e ev db, effect_result e ev (db_participant_join db), None)
      else (db, after_insert, Some (effect_error ev)))"

definition inserted_tx :: "(Time \<Rightarrow> int) \<Rightarrow> env \<Rightarrow> Event \<Rightarrow> pc \<Rightarrow> tx" where
  "inserted_tx ts e ev p =
     (begin_tx e ev)\<lparr>tx_pc := p, tx_row := Some (event_row_of ts (en_now e) ev), tx_res := after_insert\<rparr>"

lemma inserted_tx_simps [simp]:
  "tx_ev (inserted_tx ts e ev p) = ev" "tx_env (inserted_tx ts e ev p) = e" "tx_pc (inserted_tx ts e ev p) = p"
  "tx_row (inserted_tx ts e ev p) = Some (event_row_of ts (en_now e) ev)" "tx_new (inserted_tx ts e ev p) = None"
  "tx_ends (inserted_tx ts e ev p) = []" "tx_res (inserted_tx ts e ev p) = after_insert"
  "(inserted_tx ts e ev p)\<lparr>tx_pc := q\<rparr> = inserted_tx ts e ev q"
  by (simp_all add: inserted_tx_def begin_tx_def)

lemma solo_update:
  assumes "db_inv db" "closing ev" "sel = ByRoom \<longleftrightarrow> ev_Type ev = EventRoomFinished"
    and T: "filter (\<lambda>j. jr_join_id j \<in> set ids \<and> recheck sel ev j) (db_participant_join db)
      = filter (close_targets (en_pick e) ev (db_participant_join db)) (db_participant_join db)"
    and "sel = BySID \<Longrightarrow> \<exists>j \<in> set (db_participant_join db). close_targets (en_pick e) ev (db_participant_join db) j"
  shows "solo_ends ts 2 db (inserted_tx ts e ev (AtUpdate sel ids)) (effect_end ts e ev db)"
proof -
  let ?js = "db_participant_join db" and ?x = "inserted_tx ts e ev (AtUpdate sel ids)"
  let ?P = "close_targets (en_pick e) ev ?js"
  define res where "res = effect_result e ev ?js"
  have res: "(if sel = ByRoom then (tx_res ?x)\<lparr>rs_JoinsClosed := int (length (filter ?P ?js))\<rparr>
      else (tx_res ?x)\<lparr>rs_JoinsClosed := int (length (filter ?P ?js)), rs_CloseUnmatched := (length (filter ?P ?js) = 0)\<rparr>) = res"
    using assms(2,3) by (auto simp: res_def effect_result_def close_result_def close_count_def Let_def closing_def)
  have late: "(\<exists>j \<in> set (filter ?P ?js). ts (ev_OccurredAt ev) < jr_started_at j) \<longleftrightarrow> \<not> effect_ok ts e ev ?js"
    using assms(2) by (auto simp: effect_ok_def close_late_def)
  have some: "\<not> (sel = BySID \<and> length (filter ?P ?js) = 0)"
    using assms(5) by (auto simp: filter_empty_conv)
  have upd: "step_update ts [] db ?x sel ids =
      (if \<not> effect_ok ts e ev ?js then Some (return_tx ?x after_insert (Some ErrCloseOutOfOrder))
       else Some (?x\<lparr>tx_pc := AtCommit, tx_ends := map jr_join_id (filter ?P ?js), tx_res := res\<rparr>))"
    unfolding step_update_def Let_def inserted_tx_simps T late res [unfolded inserted_tx_simps] using some
    by (auto simp: locked_def)
  show ?thesis
  proof (cases "effect_ok ts e ev ?js")
    case False
    then have "advance ts [] db ?x = Some (db, return_tx ?x after_insert (Some ErrCloseOutOfOrder))"
      using upd by (simp add: advance_def)
    from solo_ends_step [OF this solo_endsI] show ?thesis
      using False assms(2) by (simp add: effect_end_def effect_error_def numeral_2_eq_2)
  next
    case True
    let ?y = "?x\<lparr>tx_pc := AtCommit, tx_ends := map jr_join_id (filter ?P ?js), tx_res := res\<rparr>"
    have "distinct (map jr_join_id ?js)" using assms(1) by (simp add: db_inv_def)
    then have mem: "jr_join_id j \<in> set (map jr_join_id (filter ?P ?js)) \<longleftrightarrow> ?P j" if "j \<in> set ?js" for j
      using that by (auto dest: same_join)
    have "map (end_row ts ?y) ?js = close_joins ts e ev ?js"
      unfolding close_joins_def by (rule map_cong [OF refl]) (use mem in \<open>simp add: end_row_def\<close>)
    then have "apply_tx ts ?y db = stored_db ts e ev db"
      using assms(2) by (simp add: apply_tx_def stored_db_def join_effect_def)
    then have "advance ts [] db ?y = Some (stored_db ts e ev db, return_tx ?y res None)"
      by (simp add: advance_def)
    moreover have "advance ts [] db ?x = Some (db, ?y)"
      using upd True by (simp add: advance_def)
    ultimately show ?thesis
      using solo_ends_step [OF _ solo_ends_step [OF _ solo_endsI [of "return_tx ?y res None"]]] True
      by (simp add: effect_end_def res_def numeral_2_eq_2)
  qed
qed

lemma solo_identity:
  assumes "db_inv db" "ev_Type ev = EventParticipantLeft" "\<not> (\<exists>c \<in> set (db_participant_join db). sid_matches ev c)"
  shows "solo_ends ts 3 db (inserted_tx ts e ev AtIdentity) (effect_end ts e ev db)"
proof -
  let ?x = "inserted_tx ts e ev AtIdentity" and ?js = "db_participant_join db"
  have ids: "jr_join_id j \<in> set (snapshot_identity ?x db) \<longleftrightarrow> close_targets (en_pick e) ev ?js j" for j
    using assms(2,3) by (auto simp: snapshot_identity_def close_targets_def split: option.splits)
  have "solo_ends ts 2 db (inserted_tx ts e ev (AtUpdate ByIdentity (snapshot_identity ?x db))) (effect_end ts e ev db)"
    by (rule solo_update [OF assms(1)]) (use assms(2) ids in \<open>auto simp: closing_def recheck_def\<close>)
  then show ?thesis
    unfolding numeral_3_eq_3 numeral_2_eq_2 by (rule solo_ends_step [rotated]) (simp add: advance_def)
qed

lemma snapshot_filter:
  "filter (\<lambda>j. jr_join_id j \<in> set (snapshot P db) \<and> P j) (db_participant_join db) = filter P (db_participant_join db)"
  by (rule filter_cong) (auto simp: snapshot_def)

lemma solo_commit:
  "tx_pc y = AtCommit \<Longrightarrow> apply_tx ts y db = db' \<Longrightarrow> tx_res y = res \<Longrightarrow> solo_ends ts 1 db y (db', res, None)"
  unfolding One_nat_def
  by (rule solo_ends_step [OF _ solo_endsI [of "return_tx y res None"]]) (simp_all add: advance_def)

lemma solo_open:
  assumes "ev_Type ev = EventParticipantJoined" "step_open ts [] db (inserted_tx ts e ev AtEffect) = Some y"
  shows "solo_ends ts 1 db y (effect_end ts e ev db)"
proof -
  let ?js = "db_participant_join db"
  have nc: "\<not> closing ev" by (rule closing_not_joined [OF assms(1)])
  consider (old) "\<not> opens ev ?js" "y = (inserted_tx ts e ev AtCommit)\<lparr>tx_res := after_insert\<lparr>rs_JoinOpened := False\<rparr>\<rparr>"
    | (clash) "\<not> effect_ok ts e ev ?js" "tx_pc y = Returned after_insert (Some (effect_error ev))"
    | (new) "opens ev ?js" "effect_ok ts e ev ?js"
        "y = (inserted_tx ts e ev AtCommit)\<lparr>tx_new := Some (join_row_of ts e ev), tx_res := after_insert\<lparr>rs_JoinOpened := True\<rparr>\<rparr>"
    using assms nc
    by (auto simp: step_open_def Let_def opens_def effect_ok_def effect_error_def held_joins_def inserted_tx_def begin_tx_def
        split: if_splits)
  then show ?thesis
  proof cases
    case old
    then have r: "effect_end ts e ev db = (stored_db ts e ev db, after_insert\<lparr>rs_JoinOpened := False\<rparr>, None)"
      using nc by (simp add: effect_end_def effect_ok_def effect_result_def Let_def)
    show ?thesis unfolding r
      by (rule solo_commit) (use old nc in \<open>simp_all add: apply_tx_def stored_db_def join_effect_def\<close>)
  next
    case clash
    then show ?thesis using solo_endsI [of y] by (simp add: effect_end_def)
  next
    case new
    then have r: "effect_end ts e ev db = (stored_db ts e ev db, after_insert\<lparr>rs_JoinOpened := True\<rparr>, None)"
      using nc by (simp add: effect_end_def effect_result_def Let_def)
    show ?thesis unfolding r
      by (rule solo_commit) (use new nc in \<open>simp_all add: apply_tx_def stored_db_def join_effect_def\<close>)
  qed
qed

lemma step_open_alone: "step_open ts [] db x \<noteq> None"
  by (simp add: step_open_def held_joins_def List.map_filter_def Let_def)

lemma solo_effect:
  assumes "db_inv db"
  shows "solo_ends ts 5 db (inserted_tx ts e ev AtEffect) (effect_end ts e ev db)"
proof -
  let ?js = "db_participant_join db" and ?x = "inserted_tx ts e ev AtEffect"
  have step: "solo_ends ts 5 db ?x r"
    if "step_effect ts [] db ?x = Some y" "solo_ends ts n db y r" "n \<le> 4" for y r n
    using solo_ends_step [of ts db ?x db y n r] that solo_ends_mono [of ts "Suc n" db ?x r 5] by (simp add: advance_def)
  consider (joined) "ev_Type ev = EventParticipantJoined"
    | (left) "ev_Type ev = EventParticipantLeft" | (room) "ev_Type ev = EventRoomFinished"
    | (other) "ev_Type ev \<noteq> EventParticipantJoined" "\<not> closing ev"
    by (auto simp: closing_def)
  then show ?thesis
  proof cases
    case joined
    obtain y where y: "step_open ts [] db ?x = Some y" using step_open_alone by fastforce
    then show ?thesis
      using step [OF _ solo_open [OF joined y]] joined by (simp add: step_effect_def Let_def)
  next
    case left
    show ?thesis
    proof (cases "ev_ParticipantSID ev = []")
      case True
      then show ?thesis
        by (intro step [OF _ solo_identity [OF assms left]]) (use left in \<open>auto simp: step_effect_def sid_matches_def Let_def\<close>)
    next
      case sid: False
      let ?P = "by_sid (ev_Backend ev) (ev_RoomName ev) (ev_ParticipantSID ev)"
      have P: "?P = sid_matches ev" using sid by (simp add: sid_matches_def fun_eq_iff)
      have eff: "step_effect ts [] db ?x = Some (inserted_tx ts e ev (AtUpdate BySID (snapshot ?P db)))"
        using left sid by (simp add: step_effect_def Let_def)
      show ?thesis
      proof (cases "\<exists>c \<in> set ?js. sid_matches ev c")
        case True
        then have tgt: "close_targets k ev ?js = sid_matches ev" for k
          using left by (simp add: close_targets_def fun_eq_iff)
        have "solo_ends ts 2 db (inserted_tx ts e ev (AtUpdate BySID (snapshot ?P db))) (effect_end ts e ev db)"
          by (rule solo_update [OF assms])
             (use left True in \<open>simp_all add: closing_def recheck_def snapshot_filter P tgt\<close>)
        from step [OF eff this] show ?thesis by simp
      next
        case False
        then have none: "filter (\<lambda>j. jr_join_id j \<in> set (snapshot ?P db) \<and> recheck BySID ev j) ?js = []"
          by (auto simp: filter_empty_conv recheck_def P)
        have "advance ts [] db (inserted_tx ts e ev (AtUpdate BySID (snapshot ?P db))) = Some (db, inserted_tx ts e ev AtIdentity)"
          by (simp add: advance_def step_update_def none locked_def Let_def del: set_filter)
        from solo_ends_step [OF this solo_identity [OF assms left False]] show ?thesis
          by (intro step [OF eff, of 4]) (simp_all add: numeral_Bit0 numeral_3_eq_3)
      qed
    qed
  next
    case room
    let ?P = "by_room (ev_Backend ev) (ev_RoomName ev)"
    have tgt: "close_targets k ev ?js = ?P" for k using room by (simp add: close_targets_def fun_eq_iff)
    have "solo_ends ts 2 db (inserted_tx ts e ev (AtUpdate ByRoom (snapshot ?P db))) (effect_end ts e ev db)"
      by (rule solo_update [OF assms])
         (use room in \<open>simp_all add: closing_def recheck_def snapshot_filter tgt\<close>)
    from step [OF _ this] show ?thesis using room by (simp add: step_effect_def Let_def)
  next
    case other
    then have r: "effect_end ts e ev db = (stored_db ts e ev db, after_insert, None)"
      by (simp add: effect_end_def effect_ok_def effect_result_def opens_def zeroResult_def Let_def)
    have "solo_ends ts 1 db (inserted_tx ts e ev AtCommit) (effect_end ts e ev db)" unfolding r
      by (rule solo_commit) (use other in \<open>simp_all add: apply_tx_def stored_db_def join_effect_def opens_def\<close>)
    from step [OF _ this] show ?thesis using other by (simp add: step_effect_def closing_def Let_def)
  qed
qed

lemma solo_RecordEvent:
  assumes "db_inv db" "quiet e"
  shows "solo_ends ts 6 db (begin_tx e ev) (RecordEvent ts e db ev)"
proof -
  let ?x = "begin_tx e ev"
  have step: "solo_ends ts 6 db ?x r" if "step_insert ts [] db ?x = Some y" "solo_ends ts n db y r" "n \<le> 5" for y r n
    using solo_ends_step [of ts db ?x db y n r] that solo_ends_mono [of ts "Suc n" db ?x r 6]
    by (simp add: advance_def begin_tx_def)
  consider (missing) "\<not> covered (db_partitions db) (ts (ev_OccurredAt ev))"
    | (dup) "covered (db_partitions db) (ts (ev_OccurredAt ev))" "event_identity ts ev \<in> recorded_keys db"
    | (new) "covered (db_partitions db) (ts (ev_OccurredAt ev))" "event_identity ts ev \<notin> recorded_keys db" by blast
  then show ?thesis
  proof cases
    case missing
    then show ?thesis unfolding RecordEvent_spec_quiet [OF assms(2)]
      by (intro step [where y = "return_tx ?x zeroResult (Some ErrPartitionMissing)" and n = 0])
         (simp_all add: step_insert_def begin_tx_def solo_endsI)
  next
    case dup
    have "solo_ends ts 1 db (?x\<lparr>tx_pc := AtCommit\<rparr>) (db, zeroResult, None)"
      by (rule solo_commit) (simp_all add: begin_tx_def apply_tx_def)
    from step [OF _ this] show ?thesis using dup
      by (simp add: RecordEvent_spec_quiet [OF assms(2)] step_insert_def begin_tx_def)
  next
    case new
    have "RecordEvent ts e db ev = effect_end ts e ev db"
      using new by (simp add: RecordEvent_spec_quiet [OF assms(2)] effect_end_def)
    then show ?thesis
      using step [OF _ solo_effect [OF assms(1)]] new
      by (simp add: step_insert_def begin_tx_def inserted_tx_def held_keys_def List.map_filter_def)
  qed
qed

section \<open>Where ends are final\<close>

text \<open>Runs in which no close falls back to the identity: no transaction is ever advanced past
  \<open>AtIdentity\<close>. In them a transaction holds locks on open joins only, each lock is held once, and the
  ends that have been committed stay as they are.\<close>

fun no_fallback :: "(Time \<Rightarrow> int) \<Rightarrow> move list \<Rightarrow> cstate \<Rightarrow> bool" where
  "no_fallback ts [] S \<longleftrightarrow> True"
| "no_fallback ts (m # ms) S \<longleftrightarrow>
     (case m of Advance t \<Rightarrow> t < length (cs_txs S) \<longrightarrow> tx_pc (cs_txs S ! t) \<noteq> AtIdentity | _ \<Rightarrow> True) \<and>
     (case conc_step ts m S of None \<Rightarrow> True | Some S' \<Rightarrow> no_fallback ts ms S')"

definition ends_open :: "database \<Rightarrow> tx \<Rightarrow> bool" where
  "ends_open db x \<longleftrightarrow> (\<forall>j \<in> set (db_participant_join db). jr_join_id j \<in> set (tx_ends x) \<longrightarrow> open_row j)"

definition by_sid_only :: "tx \<Rightarrow> bool" where
  "by_sid_only x \<longleftrightarrow> (\<forall>ids. tx_pc x \<noteq> AtUpdate ByIdentity ids)"

definition disjoint_ends :: "tx \<Rightarrow> tx \<Rightarrow> bool" where
  "disjoint_ends x y \<longleftrightarrow> set (tx_ends x) \<inter> set (tx_ends y) = {}"

interpretation de: interleaving disjoint_ends
  by unfold_locales (auto simp: disjoint_ends_def)

definition final_inv :: "(Time \<Rightarrow> int) \<Rightarrow> cstate \<Rightarrow> bool" where
  "final_inv ts S \<longleftrightarrow> conc_inv ts S \<and>
     mutual (\<lambda>x. by_sid_only x \<and> ends_open (cs_db S) x) disjoint_ends (cs_txs S)"

lemmas final_inv_defs = final_inv_def mutual_def disjoint_ends_def

lemma final_inv_step:
  assumes "final_inv ts S" "t < length (cs_txs S)" "conc_inv ts \<lparr>cs_db = db', cs_txs = (cs_txs S)[t := x']\<rparr>"
    and "by_sid_only x' \<and> ends_open db' x'"
    and "\<And>y. y \<in> set (others t (cs_txs S)) \<Longrightarrow> ends_open db' y \<and> set (tx_ends x') \<inter> set (tx_ends y) = {}"
  shows "final_inv ts \<lparr>cs_db = db', cs_txs = (cs_txs S)[t := x']\<rparr>"
proof -
  have m: "mutual (\<lambda>x. by_sid_only x \<and> ends_open (cs_db S) x) disjoint_ends (cs_txs S)"
    using assms(1) by (simp add: final_inv_def)
  then have "mutual (\<lambda>x. by_sid_only x \<and> ends_open db' x) disjoint_ends ((cs_txs S)[t := x'])"
    by (rule de.mutual_update [where ok' = "\<lambda>x. by_sid_only x \<and> ends_open db' x"])
       (use assms(2,4,5) de.mutual_others [OF m assms(2)] in \<open>auto simp: disjoint_ends_def\<close>)
  then show ?thesis using assms(3) by (simp add: final_inv_def)
qed

lemma advance_ends:
  assumes "db_inv db" "tx_ok ts db x" "advance ts os db x = Some (db', x')" "tx_pc x \<noteq> AtCommit"
    "tx_pc x \<noteq> AtIdentity" "by_sid_only x"
  shows "db' = db" "by_sid_only x'" "ends_open db x'" "set (tx_ends x') \<inter> set (locked os) = {}"
proof -
  have e: "tx_ends x = []" by (rule tx_idle(3) [OF assms(2,4)])
  have *: "db' = db \<and> by_sid_only x' \<and> ends_open db x' \<and> set (tx_ends x') \<inter> set (locked os) = {}"
  proof (cases "tx_pc x")
    case (AtUpdate sel ids)
    then have u: "db' = db" "step_update ts os db x sel ids = Some x'" "sel \<noteq> ByIdentity"
      using assms(3,6) by (auto simp: advance_def by_sid_only_def)
    define T where "T = filter (\<lambda>j. jr_join_id j \<in> set ids \<and> recheck sel (tx_ev x) j) (db_participant_join db)"
    have T: "open_row c \<and> c \<in> set (db_participant_join db) \<and> jr_join_id c \<in> set ids" if "c \<in> set T" for c
      using that u(3) by (cases sel) (auto simp: T_def recheck_def by_sid_def by_room_def)
    have "distinct (map jr_join_id (db_participant_join db))" using assms(1) by (simp add: db_inv_def)
    then have open_ends: "open_row j" if "j \<in> set (db_participant_join db)" "jr_join_id j \<in> jr_join_id ` set T" for j
      using that T same_join by (metis imageE)
    have "set ids \<inter> set (locked os) = {}" "tx_ends x' = [] \<or> tx_ends x' = map jr_join_id T" "by_sid_only x'"
      using u(2) e unfolding step_update_def Let_def T_def [symmetric] by (auto simp: by_sid_only_def split: if_splits)
    then show ?thesis using open_ends T u(1) by (fastforce simp: ends_open_def disjoint_iff)
  qed (use assms(3-6) e in \<open>auto simp: advance_def step_insert_def step_effect_def step_open_def Let_def by_sid_only_def
      ends_open_def split: if_splits\<close>)
  show "db' = db" "by_sid_only x'" "ends_open db x'" "set (tx_ends x') \<inter> set (locked os) = {}" using * by blast+
qed

lemma commit_grows:
  assumes "ends_open db x"
  shows "db_grows db (apply_tx ts x db)"
proof -
  have "join_grows j (end_row ts x j)" if "j \<in> set (db_participant_join db)" for j
    using that assms by (auto simp: join_grows_def ends_open_def end_row_def frozen_def set_end_def)
  then have "list_all2 join_grows (db_participant_join db) (map (end_row ts x) (db_participant_join db))"
    by (simp add: list_all2_conv_all_nth)
  then show ?thesis unfolding db_grows_def apply_tx_simps by blast
qed

lemma commit_final:
  assumes "final_inv ts S" "t < length (cs_txs S)" "tx_pc (cs_txs S ! t) = AtCommit"
  shows "final_inv ts \<lparr>cs_db = apply_tx ts (cs_txs S ! t) (cs_db S),
      cs_txs = (cs_txs S)[t := return_tx (cs_txs S ! t) (tx_res (cs_txs S ! t)) err]\<rparr>"
proof -
  let ?x = "cs_txs S ! t"
  have inv: "conc_inv ts S" and x: "tx_ok ts (cs_db S) ?x" using assms(1,2) by (auto simp: final_inv_defs conc_inv_defs)
  have "ends_open (apply_tx ts ?x (cs_db S)) y" if "y \<in> set (others t (cs_txs S))" for y
  proof -
    have "ends_open (cs_db S) y" "set (tx_ends ?x) \<inter> set (tx_ends y) = {}"
      using that assms(1,2) by (auto simp: final_inv_defs others_nth)
    moreover have "open_row j" if "tx_new ?x = Some j" for j
      using x that by (auto simp: tx_ok_def new_ok_def open_row_def)
    ultimately show ?thesis by (auto simp: ends_open_def end_row_def split: option.splits)
  qed
  then show ?thesis
    by (intro final_inv_step [OF assms(1,2) commit_keeps [OF inv assms(2,3)]])
       (auto simp: by_sid_only_def ends_open_def)
qed

lemma final_step:
  assumes "final_inv ts S" "conc_step ts m S = Some S'"
    and "case m of Advance t \<Rightarrow> t < length (cs_txs S) \<longrightarrow> tx_pc (cs_txs S ! t) \<noteq> AtIdentity | _ \<Rightarrow> True"
  shows "final_inv ts S' \<and> db_grows (cs_db S) (cs_db S')"
proof -
  have inv: "conc_inv ts S" and inv': "conc_inv ts S'"
    using assms(1,2) conc_step_inv by (auto simp: final_inv_defs)
  have ends: "ends_open (cs_db S) (cs_txs S ! t)" if "t < length (cs_txs S)" for t
    using assms(1) that by (auto simp: final_inv_defs)
  show ?thesis
  proof (cases m)
    case (Begin e ev)
    then show ?thesis
      using assms(1,2) inv' by (auto simp: final_inv_defs nth_append less_Suc_eq begin_tx_def by_sid_only_def ends_open_def) blast
  next
    case (Advance t)
    let ?x = "cs_txs S ! t" and ?os = "others t (cs_txs S)"
    obtain db' x' where t: "t < length (cs_txs S)" and adv: "advance ts ?os (cs_db S) ?x = Some (db', x')"
        and S': "S' = \<lparr>cs_db = db', cs_txs = (cs_txs S)[t := x']\<rparr>"
      using assms(2) Advance by (auto split: if_splits option.splits)
    show ?thesis
    proof (cases "tx_pc ?x = AtCommit")
      case True
      then show ?thesis
        using adv commit_final [OF assms(1) t True] commit_grows [OF ends [OF t]] by (auto simp: S' advance_def)
    next
      case False
      have x: "db_inv (cs_db S)" "tx_ok ts (cs_db S) ?x" "by_sid_only ?x" "tx_pc ?x \<noteq> AtIdentity"
        using assms(1,3) inv t Advance by (auto simp: final_inv_defs conc_inv_defs)
      note a = advance_ends [OF x(1,2) adv False x(4,3)]
      have "ends_open (cs_db S) y \<and> set (tx_ends x') \<inter> set (tx_ends y) = {}" if "y \<in> set ?os" for y
      proof -
        have "set (tx_ends y) \<subseteq> set (locked ?os)" using that by (auto simp: locked_def)
        then show ?thesis using that ends a(4) by (auto simp: others_nth)
      qed
      then show ?thesis
        using final_inv_step [OF assms(1) t] inv' a(1-3) by (simp add: S')
    qed
  next
    case (Fault t err)
    let ?x = "cs_txs S ! t"
    have t: "t < length (cs_txs S)" "S' = \<lparr>cs_db = cs_db S, cs_txs = (cs_txs S)[t := return_tx ?x (tx_res ?x) (Some (fault_error ?x err))]\<rparr>"
      using assms(2) by (auto simp: Fault Let_def split: if_splits)
    have "final_inv ts S'" unfolding t(2)
      by (rule final_inv_step [OF assms(1) t(1) inv' [unfolded t(2)]])
         (use ends in \<open>auto simp: by_sid_only_def ends_open_def others_nth\<close>)
    then show ?thesis by (simp add: t(2))
  next
    case (LoseAck t err)
    then show ?thesis
      using assms(2) commit_final [OF assms(1)] commit_grows [OF ends] by (auto simp: Let_def split: if_splits)
  next
    case (AddPartition p)
    then have S': "S' = S\<lparr>cs_db := (cs_db S)\<lparr>db_partitions := db_partitions (cs_db S) @ [p]\<rparr>\<rparr>" using assms(2) by simp
    have "final_inv ts S'"
      using assms(1) inv' by (simp add: S' final_inv_def ends_open_def)
    moreover have "db_grows (cs_db S) (cs_db S')"
      using joins_grow_refl [of "db_participant_join (cs_db S)"] by (simp add: S' db_grows_def)
    ultimately show ?thesis by blast
  qed
qed

lemma final_run:
  "run_schedule ts ms S = Some S' \<Longrightarrow> no_fallback ts ms S \<Longrightarrow> final_inv ts S \<Longrightarrow>
   final_inv ts S' \<and> db_grows (cs_db S) (cs_db S')"
proof (induction ms arbitrary: S)
  case (Cons m ms)
  then obtain S1 where S1: "conc_step ts m S = Some S1" "run_schedule ts ms S1 = Some S'" "no_fallback ts ms S1"
    by (auto split: option.splits)
  have "final_inv ts S1 \<and> db_grows (cs_db S) (cs_db S1)"
    by (rule final_step [OF Cons.prems(3) S1(1)]) (use Cons.prems(2) in simp)
  then show ?case using Cons.IH [OF S1(2,3)] db_grows_trans by blast
qed simp

lemma no_fallback_append:
  "no_fallback ts (as @ bs) A \<Longrightarrow> run_schedule ts as A = Some B \<Longrightarrow> no_fallback ts as A \<and> no_fallback ts bs B"
  by (induction as arbitrary: A) (auto split: option.splits)

lemma schedule_final:
  assumes "db_inv db" "run_schedule ts ms (fresh_state db) = Some S" "run_schedule ts ms' S = Some S'"
    and "no_fallback ts (ms @ ms') (fresh_state db)"
  shows "db_grows (cs_db S) (cs_db S')"
proof -
  have "final_inv ts (fresh_state db)" using assms(1) by (simp add: final_inv_defs conc_inv_defs fresh_state_def)
  then show ?thesis using no_fallback_append [OF assms(4,2)] final_run assms(2,3) by blast
qed

section \<open>Properties\<close>

definition twice_delivered :: "move list" where
  "twice_delivered =
     [Begin (demo_env ''u3'') (demo_event ''e3'' EventParticipantJoined 3 ''carol'' ''PA_3''),
      Begin (demo_env ''u4'') (demo_event ''e3'' EventParticipantJoined 3 ''carol'' ''PA_3''),
      Advance 0, Advance 0, Advance 0, Advance 1, Advance 1]"

text \<open>C6. Exactly once under concurrent redelivery: in every interleaving of any number of concurrent
  calls, statement faults and lost acknowledgements included, the tables keep their invariant; a
  call that has returned without error has its event in the table; and of the calls for one event
  at most one reports it stored.\<close>

theorem concurrent_delivery_exactly_once:
  assumes "db_inv db" "run_schedule ts ms (fresh_state db) = Some S"
  shows "db_inv (cs_db S) \<and>
    (\<forall>x \<in> set (cs_txs S). \<forall>res. tx_pc x = Returned res None \<longrightarrow>
       event_identity ts (tx_ev x) \<in> recorded_keys (cs_db S)) \<and>
    (\<forall>i < length (cs_txs S). \<forall>k < length (cs_txs S). \<forall>res res'. i \<noteq> k \<longrightarrow>
       tx_pc (cs_txs S ! i) = Returned res None \<longrightarrow> tx_pc (cs_txs S ! k) = Returned res' None \<longrightarrow>
       rs_Stored res \<longrightarrow> rs_Stored res' \<longrightarrow>
       event_identity ts (tx_ev (cs_txs S ! i)) \<noteq> event_identity ts (tx_ev (cs_txs S ! k)))"
proof (intro conjI ballI allI impI)
  note inv = reachable_conc_inv [OF assms]
  show "db_inv (cs_db S)" using inv by (simp add: conc_inv_defs)
  show "event_identity ts (tx_ev x) \<in> recorded_keys (cs_db S)"
    if "x \<in> set (cs_txs S)" "tx_pc x = Returned res None" for x res
    using inv that by (auto simp: conc_inv_defs tx_ok_def pc_ok_def)
  show "event_identity ts (tx_ev (cs_txs S ! i)) \<noteq> event_identity ts (tx_ev (cs_txs S ! k))"
    if "i < length (cs_txs S)" "k < length (cs_txs S)" "i \<noteq> k" "tx_pc (cs_txs S ! i) = Returned res None"
      "tx_pc (cs_txs S ! k) = Returned res' None" "rs_Stored res" "rs_Stored res'" for i k res res'
    using inv that by (auto simp: conc_inv_defs compatible_def owns_def)
qed

lemma twice_delivered_runs:
  "map_option (\<lambda>S. (length (db_event_raw (cs_db S)), map tx_pc (cs_txs S)))
     (run_schedule demo_ts twice_delivered (fresh_state demo_db))
   = Some (3, [Returned (after_insert\<lparr>rs_JoinOpened := True\<rparr>) None, Returned zeroResult None])"
  by code_simp

theorem concurrent_delivery_exactly_once_witness:
  "\<exists>S. run_schedule demo_ts twice_delivered (fresh_state demo_db) = Some S \<and> db_inv (cs_db S) \<and>
     length (db_event_raw (cs_db S)) = 3 \<and>
     map tx_pc (cs_txs S) = [Returned (after_insert\<lparr>rs_JoinOpened := True\<rparr>) None, Returned zeroResult None]"
proof -
  obtain S where S: "run_schedule demo_ts twice_delivered (fresh_state demo_db) = Some S"
      "length (db_event_raw (cs_db S)) = 3"
      "map tx_pc (cs_txs S) = [Returned (after_insert\<lparr>rs_JoinOpened := True\<rparr>) None, Returned zeroResult None]"
    using twice_delivered_runs by (auto simp: map_option_case split: option.splits)
  have "db_inv (cs_db S)" using concurrent_delivery_exactly_once [OF demo_db_inv S(1)] by blast
  then show ?thesis by (intro exI [of _ S] conjI S)
qed

text \<open>C22. The interleaving agrees with the sequential program: a call that runs with no other call under
  way, in an environment without faults, ends after at most six steps with the database, the result
  and the error that \<open>RecordEvent\<close> gives.\<close>

theorem solo_call_is_RecordEvent:
  assumes "db_inv db" "quiet e" "run_schedule ts ms (fresh_state db) = Some S"
    and "\<forall>x \<in> set (cs_txs S). returned x"
  shows "\<exists>n \<le> 6. \<exists>x. run_schedule ts (Begin e ev # replicate n (Advance (length (cs_txs S)))) S =
        Some \<lparr>cs_db = fst (RecordEvent ts e (cs_db S) ev), cs_txs = cs_txs S @ [x]\<rparr> \<and>
      tx_pc x = Returned (fst (snd (RecordEvent ts e (cs_db S) ev))) (snd (snd (RecordEvent ts e (cs_db S) ev)))"
proof -
  have inv: "conc_inv ts S" by (rule reachable_conc_inv [OF assms(1,3)])
  have idle: "tx_row y = None \<and> tx_new y = None \<and> tx_ends y = []" if "y \<in> set (cs_txs S)" for y
  proof -
    have "tx_ok ts (cs_db S) y" "returned y" "tx_pc y \<noteq> AtCommit"
      using that inv assms(4) by (auto simp: conc_inv_defs returned_def)
    then show ?thesis using tx_idle by blast
  qed
  have "db_inv (cs_db S)" using inv by (simp add: conc_inv_defs)
  from solo_RecordEvent [OF this assms(2), of ts ev] obtain n x where n: "n \<le> 6"
      "solo ts n (cs_db S, begin_tx e ev) = Some (fst (RecordEvent ts e (cs_db S) ev), x)"
      "tx_pc x = Returned (fst (snd (RecordEvent ts e (cs_db S) ev))) (snd (snd (RecordEvent ts e (cs_db S) ev)))"
    by (auto simp: solo_ends_def)
  have "run_schedule ts (Begin e ev # ns) S = run_schedule ts ns \<lparr>cs_db = cs_db S, cs_txs = cs_txs S @ [begin_tx e ev]\<rparr>"
    for ns by (cases S) simp
  moreover have "run_schedule ts (replicate n (Advance (length (cs_txs S)))) \<lparr>cs_db = cs_db S, cs_txs = cs_txs S @ [begin_tx e ev]\<rparr>
      = Some \<lparr>cs_db = fst (RecordEvent ts e (cs_db S) ev), cs_txs = cs_txs S @ [x]\<rparr>"
    by (rule solo_schedule [OF _ n(2)]) (use idle in blast)
  ultimately show ?thesis using n(1,3) by metis
qed

theorem solo_call_is_RecordEvent_witness:
  "\<exists>n \<le> 6. \<exists>x. run_schedule demo_ts (Begin (demo_env ''u3'') (demo_event ''e3'' EventRoomFinished 5 [] []) #
        replicate n (Advance 0)) (fresh_state demo_db) =
      Some \<lparr>cs_db = fst (RecordEvent demo_ts (demo_env ''u3'') demo_db (demo_event ''e3'' EventRoomFinished 5 [] [])),
            cs_txs = [x]\<rparr>"
  using solo_call_is_RecordEvent [OF demo_db_inv quiet_demo_env, of demo_ts "[]" "fresh_state demo_db" "''u3''"
      "demo_event ''e3'' EventRoomFinished 5 [] []"]
  by (auto simp: fresh_state_def)


definition room_closed :: "move list" where
  "room_closed = [Begin (demo_env ''u3'') (demo_event ''e3'' EventRoomFinished 5 [] []),
     Begin (demo_env ''u4'') (demo_event ''e4'' EventParticipantLeft 6 ''alice'' ''PA_1''),
     Advance 0, Advance 1, Advance 0, Advance 1, Advance 0, Advance 0]"


end
