(* ===== verification/Event_Id.thy ===== *)
theory Event_Id
  imports Session
begin

text \<open>
  The derivation of an event's identity (\<^verbatim>\<open>internal/ingest/eventid/eventid.go\<close>): the
  length-prefixed \<open>encode\<close>, the \<open>itoa\<close> loop, and the two derivations
  \<open>FromBackendEventID\<close> and \<open>FromFields\<close>. \<open>uuid.NewSHA1\<close> is a third-party function and is
  the parameter \<open>newSHA1\<close> of both. What is proved is about the bytes the derivation hashes:
  two derivations hash the same bytes exactly when they are about the same event, so two
  distinct events share an id only through a collision of the hash itself.
\<close>

section \<open>encode\<close>

text \<open>
  \<open>binary.BigEndian.PutUint32(l[:], uint32(len(f)))\<close>: the length is cut to 32 bits, and byte
  \<open>k\<close> is \<open>byte(v >> k)\<close>, high byte first.
\<close>

definition putUint32 :: "32 word \<Rightarrow> bytes" where
  "putUint32 w = map (\<lambda>k. char_of (unat w div 2 ^ k)) [24, 16, 8, 0]"

definition encode_field :: "string \<Rightarrow> bytes" where
  "encode_field f = putUint32 (of_nat (length f)) @ f"

text \<open>The loop appends the prefix and the bytes of each field to the buffer.\<close>

definition encode :: "string list \<Rightarrow> bytes" where
  "encode fs = foldl (\<lambda>buf f. buf @ putUint32 (of_nat (length f)) @ f) [] fs"

section \<open>itoa\<close>

text \<open>
  \<open>b[i:]\<close> is the list built so far: writing \<open>b[i-1]\<close> puts a character in front of it. The
  20-byte array is long enough when the result has at most 20 characters, which
  \<open>length_itoa\<close> states.
\<close>

function itoa_loop :: "int \<Rightarrow> string \<Rightarrow> string" where
  "itoa_loop n b = (if n > 0 then itoa_loop (n div 10) (char_of (48 + nat (n mod 10)) # b) else b)"
  by pat_completeness auto
termination
  by (relation "measure (\<lambda>(n, b). nat n)") auto

declare itoa_loop.simps [simp del]

definition itoa :: "int \<Rightarrow> string" where
  "itoa n =
     (if n = 0 then ''0''
      else let neg = n < 0; n' = (if neg then wrap64 (- n) else n); b = itoa_loop n' []
           in if neg then CHR ''-'' # b else b)"

section \<open>The derivations\<close>

definition Namespace :: string where
  "Namespace = ''6f1d5b0e-4c2a-5f7b-9e83-2d4a1c6b8f30''"

definition scheme :: string where
  "scheme = ''v1''"

type_synonym 'u sha1_uuid = "string \<Rightarrow> bytes \<Rightarrow> 'u"

definition FromBackendEventID :: "'u sha1_uuid \<Rightarrow> Backend \<Rightarrow> string \<Rightarrow> 'u" where
  "FromBackendEventID newSHA1 backend backendEventID =
     newSHA1 Namespace (encode [scheme, backend, backendEventID])"

record Fields =
  f_Backend :: Backend
  f_EventType :: EventType
  f_Room :: string
  f_ParticipantIdentity :: string
  f_ParticipantSID :: string
  f_TrackSID :: string
  f_OccurredAt :: Time
  f_DeliveryOrdinal :: int

definition identity_fields :: "Fields \<Rightarrow> string list" where
  "identity_fields f =
     [scheme, f_Backend f, f_EventType f, f_Room f, f_ParticipantIdentity f, f_ParticipantSID f,
      f_TrackSID f, format_rfc3339nano (UTC (f_OccurredAt f)), itoa (f_DeliveryOrdinal f)]"

definition FromFields :: "'u sha1_uuid \<Rightarrow> Fields \<Rightarrow> 'u" where
  "FromFields newSHA1 f = newSHA1 Namespace (encode (identity_fields f))"

section \<open>Prefix-free codes\<close>

text \<open>
  The interface between a field encoder and the joined encoding: a code whose words are not
  empty and of which none is a proper prefix of another can be concatenated without losing
  the boundaries.
\<close>

locale prefix_code =
  fixes enc :: "'a \<Rightarrow> 'b list"
    and ok :: "'a \<Rightarrow> bool"
  assumes enc_not_Nil: "ok x \<Longrightarrow> enc x \<noteq> []"
    and enc_prefix_free: "ok x \<Longrightarrow> ok y \<Longrightarrow> enc x @ r = enc y @ s \<Longrightarrow> x = y \<and> r = s"
begin

lemma concat_inj:
  "list_all ok xs \<Longrightarrow> list_all ok ys \<Longrightarrow> concat (map enc xs) = concat (map enc ys) \<Longrightarrow> xs = ys"
proof (induction xs arbitrary: ys)
  case Nil
  then show ?case by (cases ys) (auto simp: enc_not_Nil)
next
  case (Cons x xs)
  then show ?case by (cases ys) (auto simp: enc_not_Nil dest: enc_prefix_free)
qed

lemma concat_inj_iff:
  "list_all ok xs \<Longrightarrow> list_all ok ys \<Longrightarrow> concat (map enc xs) = concat (map enc ys) \<longleftrightarrow> xs = ys"
  using concat_inj by blast

end

section \<open>Lemmas: encode\<close>

definition fits32 :: "string \<Rightarrow> bool" where
  "fits32 f \<longleftrightarrow> length f < 2 ^ 32"

lemma length_putUint32 [simp]: "length (putUint32 w) = 4"
  by (simp add: putUint32_def)

lemma bytes4:
  fixes a b :: nat
  assumes "a < 2 ^ 32" "b < 2 ^ 32"
    and "a div 2 ^ 24 mod 256 = b div 2 ^ 24 mod 256" "a div 2 ^ 16 mod 256 = b div 2 ^ 16 mod 256"
    and "a div 2 ^ 8 mod 256 = b div 2 ^ 8 mod 256" "a mod 256 = b mod 256"
  shows "a = b"
proof -
  have split: "n = 256 * (256 * (256 * (n div 2 ^ 24 mod 256) + n div 2 ^ 16 mod 256)
      + n div 2 ^ 8 mod 256) + n mod 256" if "n < 2 ^ 32" for n :: nat
  proof -
    have "n div 2 ^ 24 < 256" using that by (simp add: less_mult_imp_div_less)
    moreover have "n div 2 ^ 8 = n div 256" "n div 2 ^ 16 = n div 256 div 256"
      "n div 2 ^ 24 = n div 256 div 256 div 256" by (simp_all add: div_mult2_eq)
    ultimately show ?thesis by (metis mod_less mult_div_mod_eq)
  qed
  from split [OF assms(1)] split [OF assms(2)] assms(3-6) show ?thesis by metis
qed

lemma char_of_eq_mod: "char_of m = char_of n \<longleftrightarrow> m mod 256 = n mod (256 :: nat)"
  by (metis char_of_mod_256 of_char_of)

lemma putUint32_inj:
  assumes "putUint32 v = putUint32 w"
  shows "v = w"
proof -
  have bound: "unat u < 2 ^ 32" for u :: "32 word"
    using unsigned_less [of u, where ?'a = nat] by simp
  have byte: "unat v div 2 ^ k mod 256 = unat w div 2 ^ k mod 256" if "k \<in> {24, 16, 8, 0}" for k
    using assms that by (auto simp: putUint32_def char_of_eq_mod simp del: power_numeral)
  have "unat v = unat w"
    using bytes4 [OF bound bound byte [of 24] byte [of 16] byte [of 8]] byte [of 0] by simp
  then show ?thesis by (rule unsigned_word_eqI)
qed

lemma encode_concat: "encode fs = concat (map encode_field fs)"
proof -
  have "foldl (\<lambda>buf f. buf @ putUint32 (of_nat (length f)) @ f) b fs = b @ concat (map encode_field fs)" for b
    by (induction fs arbitrary: b) (simp_all add: encode_field_def)
  then show ?thesis by (simp add: encode_def)
qed

interpretation field_code: prefix_code encode_field fits32
proof
  fix x y r s
  assume "fits32 x" "fits32 y" and eq: "encode_field x @ r = encode_field y @ s"
  then have "(of_nat (length x) :: 32 word) = of_nat (length y)"
    by (auto simp: encode_field_def dest: putUint32_inj)
  then have "length x mod 2 ^ 32 = length y mod 2 ^ 32"
    by (simp add: word_of_nat_eq_iff take_bit_eq_mod)
  with \<open>fits32 x\<close> \<open>fits32 y\<close> have "length x = length y" by (simp add: fits32_def)
  with eq show "x = y \<and> r = s" by (simp add: encode_field_def)
qed (simp add: encode_field_def putUint32_def)

lemma encode_eq_iff:
  "list_all fits32 xs \<Longrightarrow> list_all fits32 ys \<Longrightarrow> encode xs = encode ys \<longleftrightarrow> xs = ys"
  by (simp add: encode_concat field_code.concat_inj_iff)

section \<open>Lemmas: itoa\<close>

lemma itoa_loop_dec: "0 < n \<Longrightarrow> itoa_loop n b = dec (nat n) @ b"
proof (induction n b rule: itoa_loop.induct)
  case (1 n b)
  have step: "itoa_loop n b = itoa_loop (n div 10) (digit_char (nat (n mod 10)) # b)"
    using "1.prems" by (simp add: itoa_loop.simps [of n b] digit_char_def)
  have mod10: "nat (n mod 10) = nat n mod 10" and div10: "nat (n div 10) = nat n div 10"
    using "1.prems" by (simp_all add: nat_mod_distrib nat_div_distrib)
  show ?case
  proof (cases "n < 10")
    case True
    with "1.prems" have "n div 10 = 0" by simp
    with step mod10 True "1.prems" show ?thesis
      by (simp add: itoa_loop.simps [of 0] dec.simps [of "nat n"])
  next
    case False
    with "1.prems" have pos: "0 < n div 10" by (simp add: pos_imp_zdiv_pos_iff)
    with "1.IH" "1.prems" have "itoa_loop (n div 10) (digit_char (nat (n mod 10)) # b)
        = dec (nat n div 10) @ digit_char (nat n mod 10) # b"
      by (simp add: digit_char_def mod10 div10)
    with step False show ?thesis by (simp add: dec.simps [of "nat n"])
  qed
qed

lemma itoa_loop_nonpos: "n \<le> 0 \<Longrightarrow> itoa_loop n b = b"
  by (simp add: itoa_loop.simps [of n b])

lemma itoa_pos: "0 < n \<Longrightarrow> itoa n = dec (nat n)"
  by (simp add: itoa_def itoa_loop_dec)

lemma itoa_neg:
  assumes "n < 0" "int64_range n" "n \<noteq> minInt64"
  shows "itoa n = CHR ''-'' # dec (nat (- n))"
proof -
  from assms have "int64_range (- n)" by (auto simp: int64_defs)
  with assms show ?thesis by (simp add: itoa_def itoa_loop_dec)
qed

text \<open>The one value whose negation overflows: the loop does not run.\<close>

lemma itoa_minInt64: "itoa minInt64 = ''-''"
  using wrap64_neg_minInt64 by (simp add: itoa_def itoa_loop_nonpos minInt64_def)

lemma itoa_zero: "itoa 0 = dec 0"
  by (simp add: itoa_def dec.simps digit_char_0)

lemma dec_no_minus: "dec n \<noteq> CHR ''-'' # s" "CHR ''-'' # s \<noteq> dec n"
proof -
  have "CHR ''-'' \<notin> set (dec n)" using dec_digits [of "CHR ''-''" n] by (auto simp: is_dec_digit_def)
  then show "dec n \<noteq> CHR ''-'' # s" and "CHR ''-'' # s \<noteq> dec n"
    by (metis list.set_intros(1))+
qed

lemma length_dec_int64: "int64_range n \<Longrightarrow> length (dec (nat \<bar>n\<bar>)) \<le> 19"
  by (rule dec_length) (auto simp: int64_defs nat_less_iff abs_if)

lemma minInt64_neg: "minInt64 < 0" "minInt64 \<noteq> 0"
  by (simp_all add: minInt64_def)

lemma itoa_cases:
  assumes "int64_range n"
  shows "itoa n = (if n = minInt64 then ''-''
                   else if n < 0 then CHR ''-'' # dec (nat \<bar>n\<bar>) else dec (nat \<bar>n\<bar>))"
  using assms by (cases "n = 0"; cases "n < 0") (auto simp: itoa_pos itoa_neg itoa_zero itoa_minInt64 minInt64_neg)

lemma length_itoa: "int64_range n \<Longrightarrow> length (itoa n) \<le> 20"
  using length_dec_int64 [of n] by (auto simp: itoa_cases abs_if split: if_splits)

lemma itoa_inj: "int64_range m \<Longrightarrow> int64_range n \<Longrightarrow> itoa m = itoa n \<Longrightarrow> m = n"
  by (auto simp: itoa_cases dec_no_minus dec_not_Nil [symmetric] split: if_splits dest!: injD [OF inj_dec])

section \<open>Lemmas: identity fields\<close>

definition fields_wf :: "Fields \<Rightarrow> bool" where
  "fields_wf f \<longleftrightarrow>
     list_all fits32 [f_Backend f, f_EventType f, f_Room f, f_ParticipantIdentity f,
       f_ParticipantSID f, f_TrackSID f]
     \<and> time_wf (f_OccurredAt f) \<and> int64_range (t_sec (f_OccurredAt f))
     \<and> int64_range (f_DeliveryOrdinal f)"

definition same_event :: "Fields \<Rightarrow> Fields \<Rightarrow> bool" where
  "same_event f g \<longleftrightarrow>
     f_Backend f = f_Backend g \<and> f_EventType f = f_EventType g \<and> f_Room f = f_Room g
     \<and> f_ParticipantIdentity f = f_ParticipantIdentity g
     \<and> f_ParticipantSID f = f_ParticipantSID g \<and> f_TrackSID f = f_TrackSID g
     \<and> same_instant (f_OccurredAt f) (f_OccurredAt g)
     \<and> f_DeliveryOrdinal f = f_DeliveryOrdinal g"

lemma format_UTC: "format_rfc3339nano (UTC t) = format_rfc3339nano t"
  by (simp add: format_rfc3339nano_def UTC_def)

lemma format_eq_iff:
  "time_wf t \<Longrightarrow> time_wf u \<Longrightarrow> format_rfc3339nano t = format_rfc3339nano u \<longleftrightarrow> same_instant t u"
  by (rule iffI, erule format_rfc3339nano_inj) (simp_all add: format_rfc3339nano_def same_instant_def)

lemma identity_fields_fit: "fields_wf f \<Longrightarrow> list_all fits32 (identity_fields f)"
  using length_format [of "f_OccurredAt f"] length_itoa [of "f_DeliveryOrdinal f"]
  by (auto simp: identity_fields_def fields_wf_def fits32_def scheme_def format_UTC)

lemma identity_fields_eq_iff:
  "fields_wf f \<Longrightarrow> fields_wf g \<Longrightarrow> identity_fields f = identity_fields g \<longleftrightarrow> same_event f g"
  by (auto simp: identity_fields_def fields_wf_def same_event_def format_UTC format_eq_iff
      dest: itoa_inj)

section \<open>Properties\<close>

text \<open>
  C29. The length-prefixed join is unambiguous: for fields shorter than \<open>2^32\<close> bytes two field
  lists, of any number of fields, encode to the same bytes only if they are the same list.
\<close>
theorem encode_unambiguous:
  assumes "list_all fits32 xs" and "list_all fits32 ys"
  shows "encode xs = encode ys \<longleftrightarrow> xs = ys"
  using assms by (rule encode_eq_iff)

theorem encode_unambiguous_witness: "encode [''a'', ''bc''] \<noteq> encode [''ab'', ''c'']"
  using encode_unambiguous [of "[''a'', ''bc'']" "[''ab'', ''c'']"] by (simp add: fits32_def)

text \<open>
  C30. The fallback derivation neither collapses nor splits: two field tuples hash the same bytes
  exactly when they agree on every field and denote the same instant. In particular the zone
  the time is expressed in does not matter, and every field, the track and the ordinal
  included, does.
\<close>
theorem FromFields_input_iff_same_event:
  assumes "fields_wf f" and "fields_wf g"
  shows "encode (identity_fields f) = encode (identity_fields g) \<longleftrightarrow> same_event f g"
  using assms by (simp add: encode_eq_iff identity_fields_fit identity_fields_eq_iff)

definition example_fields :: Fields where
  "example_fields = \<lparr>f_Backend = BackendLiveKit, f_EventType = EventTrackPublished, f_Room = ''standup'',
     f_ParticipantIdentity = ''alice'', f_ParticipantSID = ''PA_aaa'', f_TrackSID = ''TR_video'',
     f_OccurredAt = (time_Unix 1787791385)\<lparr>t_nsec := 123456789\<rparr>, f_DeliveryOrdinal = 0\<rparr>"

lemma fields_wf_example: "fields_wf (example_fields\<lparr>f_TrackSID := ''TR_audio''\<rparr>)" "fields_wf example_fields"
  by (simp_all add: fields_wf_def example_fields_def fits32_def time_wf_def time_Unix_def
      BackendLiveKit_def EventTrackPublished_def) (simp_all add: int64_defs)

theorem FromFields_input_iff_same_event_witness:
  "encode (identity_fields example_fields)
     \<noteq> encode (identity_fields (example_fields\<lparr>f_TrackSID := ''TR_audio''\<rparr>))"
  using FromFields_input_iff_same_event [OF fields_wf_example(2) fields_wf_example(1)]
  by (simp add: same_event_def example_fields_def)

text \<open>
  If two derivations produce the same id for distinct events, or one derivation by native id
  and one by fields meet, then the hash itself collides: there are two different inputs with
  one image under \<open>uuid.NewSHA1\<close>. Field boundaries and scheme never cause it.
\<close>
theorem id_collision_is_hash_collision:
  assumes "fields_wf f" and "fields_wf g" and "fits32 b" and "fits32 i"
    and "(FromFields newSHA1 f = FromFields newSHA1 g \<and> \<not> same_event f g)
         \<or> FromFields newSHA1 f = FromBackendEventID newSHA1 b i"
  shows "\<exists>x y. x \<noteq> y \<and> newSHA1 Namespace x = newSHA1 Namespace y"
proof -
  have "list_all fits32 [scheme, b, i]" using assms(3,4) by (simp add: fits32_def scheme_def)
  moreover have "identity_fields f \<noteq> [scheme, b, i]" by (simp add: identity_fields_def)
  ultimately have "encode (identity_fields f) \<noteq> encode [scheme, b, i]"
    using assms(1) by (simp add: encode_eq_iff identity_fields_fit)
  moreover have "encode (identity_fields f) \<noteq> encode (identity_fields g)" if "\<not> same_event f g"
    using that assms(1,2) by (simp add: encode_eq_iff identity_fields_fit identity_fields_eq_iff)
  ultimately show ?thesis
    using assms(5) unfolding FromFields_def FromBackendEventID_def by blast
qed

text \<open>A hash that keeps only the length of its input: the hypotheses can hold together.\<close>

theorem id_collision_is_hash_collision_witness:
  "\<exists>x y. x \<noteq> y \<and> (\<lambda>ns b. length b) Namespace x = (\<lambda>ns b. length b) Namespace (y :: bytes)"
proof -
  have "FromFields (\<lambda>ns b. length b) example_fields
      = FromFields (\<lambda>ns b. length b) (example_fields\<lparr>f_TrackSID := ''TR_audio''\<rparr>)"
    by (simp add: FromFields_def identity_fields_def encode_concat encode_field_def example_fields_def)
  moreover have "\<not> same_event example_fields (example_fields\<lparr>f_TrackSID := ''TR_audio''\<rparr>)"
    by (simp add: same_event_def example_fields_def)
  ultimately show ?thesis
    using id_collision_is_hash_collision [OF fields_wf_example(2,1), of "''livekit''" "''EV_1''" "\<lambda>ns b. length b"]
    by (auto simp: fits32_def)
qed

text \<open>
  \<open>itoa\<close> prints every 64-bit integer but the smallest in decimal, within its 20-byte buffer,
  and no two integers alike. The smallest one prints as a lone minus sign, because its
  negation overflows to itself and the digit loop does not run.
\<close>
theorem itoa_decimal:
  assumes "int64_range n"
  shows "itoa n = (if n = minInt64 then ''-''
                   else if n < 0 then CHR ''-'' # dec (nat \<bar>n\<bar>) else dec (nat \<bar>n\<bar>))
         \<and> length (itoa n) \<le> 20 \<and> (\<forall>m. int64_range m \<longrightarrow> itoa m = itoa n \<longrightarrow> m = n)"
  using assms itoa_cases length_itoa itoa_inj by blast

theorem itoa_decimal_witness: "itoa (- 120) = ''-120'' \<and> itoa minInt64 = ''-''"
proof -
  have "int64_range (- 120)" "int64_range minInt64" by (simp_all add: int64_defs)
  note itoa_decimal [OF this(1)] itoa_decimal [OF this(2)]
  moreover have "dec 120 = ''120''" by (simp add: dec.simps digit_char_def char_of_eq_iff)
  ultimately show ?thesis by (simp add: minInt64_def)
qed

text \<open>
  C40. The 32-bit length prefix is what bounds the guarantee: one field of \<open>2^32\<close> zero bytes has a
  prefix that wraps to zero and encodes to the same bytes as a list of empty fields.
\<close>
theorem encode_wraps_at_4GiB:
  "encode [replicate (2 ^ 32) (CHR 0x00)] = encode (replicate (2 ^ 30 + 1) [])"
proof -
  have zero: "putUint32 0 = replicate 4 (CHR 0x00)"
    by (simp add: putUint32_def char_of_eq_iff numeral_eq_Suc)
  have "concat (replicate k (replicate 4 c)) = replicate (4 * k) c" for k and c :: char
    by (induction k) (simp_all add: replicate_add [symmetric])
  then have "encode (replicate (2 ^ 30 + 1) []) = replicate (4 * (2 ^ 30 + 1)) (CHR 0x00)"
    by (simp only: encode_concat map_replicate encode_field_def list.size semiring_1_class.of_nat_0 zero append_Nil2)
  moreover have "encode [replicate (2 ^ 32) (CHR 0x00)] = replicate (4 + 2 ^ 32) (CHR 0x00)"
  proof -
    have "(of_nat (2 ^ 32) :: 32 word) = 0" by simp
    then show ?thesis
      by (simp only: encode_concat encode_field_def list.map concat.simps length_replicate zero
          replicate_add append_Nil2)
  qed
  ultimately show ?thesis by simp
qed

end
