(* ===== verification/Go_Json.thy ===== *)
theory Go_Json
  imports Go_Prelude
begin

text \<open>
  The part of Go's \<open>encoding/json\<close> the LiveKit adapter uses: the byte-at-a-time scanner
  (\<open>scanner.go\<close>: one state per position in the grammar, a stack of open arrays and objects,
  at most 10000 deep), here building the value it reads, and the unquoting of string
  literals (\<open>unquote\<close>: escapes, surrogate pairs, replacement of invalid UTF-8). Numbers and
  strings keep their literal text, which is what \<open>UnmarshalJSON\<close> methods receive.
\<close>

section \<open>Values\<close>

datatype json =
    JNull
  | JBool bool
  | JNum string                   \<comment> \<open>the literal\<close>
  | JStr string                   \<comment> \<open>the text between the quotes, escapes not resolved\<close>
  | JArr "json list"
  | JObj "(string \<times> json) list"  \<comment> \<open>keys as the text between the quotes, in order\<close>

section \<open>The scanner\<close>

definition c_quote :: char where "c_quote = CHR 0x22"
definition c_bslash :: char where "c_bslash = CHR 0x5C"

definition json_space :: "char \<Rightarrow> bool" where
  "json_space c \<longleftrightarrow> c \<in> {CHR '' '', CHR 0x09, CHR 0x0D, CHR 0x0A}"

definition is_hex :: "char \<Rightarrow> bool" where
  "is_hex c \<longleftrightarrow> is_dec_digit c \<or> c \<in> set ''abcdefABCDEF''"

text \<open>Where in a number literal the scanner is; \<open>state1\<close> is \<open>NInt\<close>, \<open>stateDot0\<close> is \<open>NFrac\<close>.\<close>

datatype numstate = NNeg | NZero | NInt | NDot | NFrac | NExp | NExpSign | NExpDigits

fun num_step :: "numstate \<Rightarrow> char \<Rightarrow> numstate option" where
  "num_step NNeg c = (if c = CHR ''0'' then Some NZero else if is_dec_digit c then Some NInt else None)"
| "num_step NZero c =
     (if c = CHR ''.'' then Some NDot else if c = CHR ''e'' \<or> c = CHR ''E'' then Some NExp else None)"
| "num_step NInt c =
     (if is_dec_digit c then Some NInt
      else if c = CHR ''.'' then Some NDot else if c = CHR ''e'' \<or> c = CHR ''E'' then Some NExp else None)"
| "num_step NDot c = (if is_dec_digit c then Some NFrac else None)"
| "num_step NFrac c =
     (if is_dec_digit c then Some NFrac else if c = CHR ''e'' \<or> c = CHR ''E'' then Some NExp else None)"
| "num_step NExp c =
     (if c = CHR ''+'' \<or> c = CHR ''-'' then Some NExpSign
      else if is_dec_digit c then Some NExpDigits else None)"
| "num_step NExpSign c = (if is_dec_digit c then Some NExpDigits else None)"
| "num_step NExpDigits c = (if is_dec_digit c then Some NExpDigits else None)"

definition num_final :: "numstate \<Rightarrow> bool" where
  "num_final q \<longleftrightarrow> q \<in> {NZero, NInt, NFrac, NExpDigits}"

text \<open>The first byte of a number.\<close>

definition num_begin :: "char \<Rightarrow> numstate option" where
  "num_begin c = (if c = CHR ''-'' then Some NNeg else num_step NNeg c)"

datatype pstate =
    BeginValue
  | BeginValueOrEmpty
  | BeginString
  | BeginStringOrEmpty
  | InString string
  | InStringEsc string
  | InStringEscU string nat
  | InNum numstate string
  | InLit string json
  | AfterKey
  | AfterValue
  | EndTop json

datatype frame = FArr "json list" | FObj "(string \<times> json) list" | FKey "(string \<times> json) list" string

type_synonym machine = "pstate \<times> frame list"

definition maxNestingDepth :: nat where
  "maxNestingDepth = 10000"

text \<open>A value is complete: it goes to the innermost open array or object.\<close>

fun deliver :: "json \<Rightarrow> frame list \<Rightarrow> machine option" where
  "deliver v [] = Some (EndTop v, [])"
| "deliver v (FArr vs # st) = Some (AfterValue, FArr (vs @ [v]) # st)"
| "deliver v (FKey kvs k # st) = Some (AfterValue, FObj (kvs @ [(k, v)]) # st)"
| "deliver (JStr k) (FObj kvs # st) = Some (AfterKey, FKey kvs k # st)"
| "deliver v (FObj kvs # st) = None"

definition push_frame :: "frame \<Rightarrow> pstate \<Rightarrow> frame list \<Rightarrow> machine option" where
  "push_frame f p st = (if length st < maxNestingDepth then Some (p, f # st) else None)"

text \<open>\<open>stateEndValue\<close> and \<open>stateEndTop\<close>.\<close>

fun after_value :: "machine \<Rightarrow> char \<Rightarrow> machine option" where
  "after_value (EndTop v, st) c = (if json_space c then Some (EndTop v, st) else None)"
| "after_value (AfterKey, st) c =
     (if json_space c then Some (AfterKey, st) else if c = CHR '':'' then Some (BeginValue, st) else None)"
| "after_value (AfterValue, FArr vs # st) c =
     (if json_space c then Some (AfterValue, FArr vs # st)
      else if c = CHR '','' then Some (BeginValue, FArr vs # st)
      else if c = CHR '']'' then deliver (JArr vs) st else None)"
| "after_value (AfterValue, FObj kvs # st) c =
     (if json_space c then Some (AfterValue, FObj kvs # st)
      else if c = CHR '','' then Some (BeginString, FObj kvs # st)
      else if c = CHR ''}'' then deliver (JObj kvs) st else None)"
| "after_value m c = None"

definition begin_value :: "frame list \<Rightarrow> char \<Rightarrow> machine option" where
  "begin_value st c =
     (if json_space c then Some (BeginValue, st)
      else if c = CHR ''{'' then push_frame (FObj []) BeginStringOrEmpty st
      else if c = CHR ''['' then push_frame (FArr []) BeginValueOrEmpty st
      else if c = c_quote then Some (InString [], st)
      else if c = CHR ''t'' then Some (InLit ''rue'' (JBool True), st)
      else if c = CHR ''f'' then Some (InLit ''alse'' (JBool False), st)
      else if c = CHR ''n'' then Some (InLit ''ull'' JNull, st)
      else map_option (\<lambda>q. (InNum q [c], st)) (num_begin c))"

definition begin_string :: "frame list \<Rightarrow> char \<Rightarrow> machine option" where
  "begin_string st c =
     (if json_space c then Some (BeginString, st)
      else if c = c_quote then Some (InString [], st) else None)"

fun scan_step :: "machine \<Rightarrow> char \<Rightarrow> machine option" where
  "scan_step (BeginValue, st) c = begin_value st c"
| "scan_step (BeginValueOrEmpty, st) c =
     (if json_space c then Some (BeginValueOrEmpty, st)
      else if c = CHR '']'' then (case st of FArr vs # st' \<Rightarrow> deliver (JArr vs) st' | _ \<Rightarrow> None)
      else begin_value st c)"
| "scan_step (BeginString, st) c = begin_string st c"
| "scan_step (BeginStringOrEmpty, st) c =
     (if json_space c then Some (BeginStringOrEmpty, st)
      else if c = CHR ''}'' then (case st of FObj kvs # st' \<Rightarrow> deliver (JObj kvs) st' | _ \<Rightarrow> None)
      else begin_string st c)"
| "scan_step (InString s, st) c =
     (if c = c_quote then deliver (JStr s) st
      else if c = c_bslash then Some (InStringEsc (s @ [c]), st)
      else if (of_char c :: nat) < 0x20 then None
      else Some (InString (s @ [c]), st))"
| "scan_step (InStringEsc s, st) c =
     (if c \<in> set ''bfnrt/'' \<or> c = c_bslash \<or> c = c_quote then Some (InString (s @ [c]), st)
      else if c = CHR ''u'' then Some (InStringEscU (s @ [c]) 3, st)
      else None)"
| "scan_step (InStringEscU s n, st) c =
     (if \<not> is_hex c then None
      else if n = 0 then Some (InString (s @ [c]), st)
      else Some (InStringEscU (s @ [c]) (n - 1), st))"
| "scan_step (InNum q s, st) c =
     (case num_step q c of
        Some q' \<Rightarrow> Some (InNum q' (s @ [c]), st)
      | None \<Rightarrow> if num_final q then Option.bind (deliver (JNum s) st) (\<lambda>m. after_value m c) else None)"
| "scan_step (InLit w v, st) c =
     (case w of [] \<Rightarrow> None
      | d # w' \<Rightarrow> if c \<noteq> d then None else if w' = [] then deliver v st else Some (InLit w' v, st))"
| "scan_step m c = after_value m c"

fun scan :: "machine \<Rightarrow> string \<Rightarrow> machine option" where
  "scan m [] = Some m"
| "scan m (c # s) = (case scan_step m c of None \<Rightarrow> None | Some m' \<Rightarrow> scan m' s)"

text \<open>\<open>scanner.eof\<close>: the end of the input ends a number and nothing else.\<close>

fun scan_eof :: "machine \<Rightarrow> json option" where
  "scan_eof (EndTop v, st) = Some v"
| "scan_eof (InNum q s, []) = (if num_final q then Some (JNum s) else None)"
| "scan_eof m = None"

definition parse_json :: "bytes \<Rightarrow> json option" where
  "parse_json b = Option.bind (scan (BeginValue, []) b) scan_eof"

section \<open>String literals\<close>

definition hex_val :: "char \<Rightarrow> nat" where
  "hex_val c = (let n = of_char c in
     if n < 58 then n - 48 else if n < 71 then n - 55 else n - 87)"

text \<open>\<open>getu4\<close> after the \<open>u\<close>: four hex digits.\<close>

definition hex4 :: "string \<Rightarrow> nat option" where
  "hex4 s = (if 4 \<le> length s \<and> list_all is_hex (take 4 s)
             then Some (foldl (\<lambda>v c. 16 * v + hex_val c) 0 (take 4 s)) else None)"

definition utf8_encode :: "nat \<Rightarrow> bytes" where
  "utf8_encode r =
     (if r < 0x80 then [char_of r]
      else if r < 0x800 then [char_of (0xC0 + r div 64), char_of (0x80 + r mod 64)]
      else if r < 0x10000 then [char_of (0xE0 + r div 4096), char_of (0x80 + r div 64 mod 64),
          char_of (0x80 + r mod 64)]
      else [char_of (0xF0 + r div 262144), char_of (0x80 + r div 4096 mod 64),
          char_of (0x80 + r div 64 mod 64), char_of (0x80 + r mod 64)])"

definition replacementChar :: bytes where
  "replacementChar = map char_of [0xEF, 0xBF, 0xBD :: nat]"

definition byte_in :: "nat \<Rightarrow> nat \<Rightarrow> string \<Rightarrow> nat \<Rightarrow> bool" where
  "byte_in lo hi s i \<longleftrightarrow> i < length s \<and> lo \<le> of_char (s ! i) \<and> of_char (s ! i) \<le> hi"

text \<open>The length of the well-formed UTF-8 sequence at the front, 0 if there is none.\<close>

definition utf8_len :: "string \<Rightarrow> nat" where
  "utf8_len s =
     (if byte_in 0 0x7F s 0 then 1
      else if byte_in 0xC2 0xDF s 0 \<and> byte_in 0x80 0xBF s 1 then 2
      else if byte_in 0xE0 0xE0 s 0 \<and> byte_in 0xA0 0xBF s 1 \<and> byte_in 0x80 0xBF s 2 then 3
      else if byte_in 0xED 0xED s 0 \<and> byte_in 0x80 0x9F s 1 \<and> byte_in 0x80 0xBF s 2 then 3
      else if byte_in 0xE1 0xEF s 0 \<and> \<not> byte_in 0xED 0xED s 0
           \<and> byte_in 0x80 0xBF s 1 \<and> byte_in 0x80 0xBF s 2 then 3
      else if byte_in 0xF0 0xF0 s 0 \<and> byte_in 0x90 0xBF s 1
           \<and> byte_in 0x80 0xBF s 2 \<and> byte_in 0x80 0xBF s 3 then 4
      else if byte_in 0xF1 0xF3 s 0 \<and> byte_in 0x80 0xBF s 1
           \<and> byte_in 0x80 0xBF s 2 \<and> byte_in 0x80 0xBF s 3 then 4
      else if byte_in 0xF4 0xF4 s 0 \<and> byte_in 0x80 0x8F s 1
           \<and> byte_in 0x80 0xBF s 2 \<and> byte_in 0x80 0xBF s 3 then 4
      else 0)"

definition simple_escape :: "char \<Rightarrow> char" where
  "simple_escape e =
     (if e = CHR ''b'' then CHR 0x08 else if e = CHR ''f'' then CHR 0x0C
      else if e = CHR ''n'' then CHR 0x0A else if e = CHR ''r'' then CHR 0x0D
      else if e = CHR ''t'' then CHR 0x09 else e)"

text \<open>
  The second half of a surrogate pair: \<open>\\uDC00\<close> to \<open>\\uDFFF\<close> right after a high surrogate.
\<close>

definition low_surrogate :: "string \<Rightarrow> nat option" where
  "low_surrogate s =
     (if 2 \<le> length s \<and> s ! 0 = c_bslash \<and> s ! 1 = CHR ''u'' then
        (case hex4 (drop 2 s) of
           Some lo \<Rightarrow> if 0xDC00 \<le> lo \<and> lo < 0xE000 then Some lo else None
         | None \<Rightarrow> None)
      else None)"

fun unquote :: "string \<Rightarrow> string" where
  "unquote [] = []"
| "unquote (c # s) =
     (if c = c_bslash then
        (case s of [] \<Rightarrow> []
         | e # s' \<Rightarrow>
            if e = CHR ''u'' then
              (case hex4 s' of None \<Rightarrow> []
               | Some r \<Rightarrow>
                  if 0xD800 \<le> r \<and> r < 0xE000 then
                    (case (if r < 0xDC00 then low_surrogate (drop 4 s') else None) of
                       Some lo \<Rightarrow>
                         utf8_encode (0x10000 + (r - 0xD800) * 1024 + (lo - 0xDC00)) @ unquote (drop 10 s')
                     | None \<Rightarrow> replacementChar @ unquote (drop 4 s'))
                  else utf8_encode r @ unquote (drop 4 s'))
            else simple_escape e # unquote s')
      else
        (let n = utf8_len (c # s) in
         if n = 0 then replacementChar @ unquote s
         else take n (c # s) @ unquote (drop (n - 1) s)))"

declare unquote.simps(2) [simp del]

section \<open>Printing\<close>

text \<open>The literal text of a value, without optional space.\<close>

fun raw_json :: "json \<Rightarrow> string"
  and raw_list :: "json list \<Rightarrow> string"
  and raw_members :: "(string \<times> json) list \<Rightarrow> string" where
  "raw_json JNull = ''null''"
| "raw_json (JBool b) = (if b then ''true'' else ''false'')"
| "raw_json (JNum n) = n"
| "raw_json (JStr s) = c_quote # s @ [c_quote]"
| "raw_json (JArr vs) = CHR ''['' # raw_list vs @ '']''"
| "raw_json (JObj kvs) = CHR ''{'' # raw_members kvs @ ''}''"
| "raw_list [] = []"
| "raw_list (v # vs) = raw_json v @ (if vs = [] then [] else CHR '','' # raw_list vs)"
| "raw_members [] = []"
| "raw_members (kv # kvs) =
     c_quote # fst kv @ c_quote # CHR '':'' # raw_json (snd kv)
     @ (if kvs = [] then [] else CHR '','' # raw_members kvs)"

section \<open>Well-formed values\<close>

text \<open>Number and string literals as the scanner accepts them, and the nesting depth.\<close>

fun num_run :: "numstate \<Rightarrow> string \<Rightarrow> numstate option" where
  "num_run q [] = Some q"
| "num_run q (c # s) = (case num_step q c of None \<Rightarrow> None | Some q' \<Rightarrow> num_run q' s)"

definition num_ok :: "string \<Rightarrow> bool" where
  "num_ok n = (case n of [] \<Rightarrow> False
     | c # s \<Rightarrow> (case num_begin c of None \<Rightarrow> False
        | Some q \<Rightarrow> (case num_run q s of None \<Rightarrow> False | Some q' \<Rightarrow> num_final q')))"

text \<open>Inside a string literal: plain text, after a backslash, in the hex digits of an escape.\<close>

datatype strstate = SPlain | SEsc | SEscU nat

fun str_step :: "strstate \<Rightarrow> char \<Rightarrow> strstate option" where
  "str_step SPlain c =
     (if c = c_quote then None else if c = c_bslash then Some SEsc
      else if (of_char c :: nat) < 0x20 then None else Some SPlain)"
| "str_step SEsc c =
     (if c \<in> set ''bfnrt/'' \<or> c = c_bslash \<or> c = c_quote then Some SPlain
      else if c = CHR ''u'' then Some (SEscU 3) else None)"
| "str_step (SEscU n) c =
     (if \<not> is_hex c then None else if n = 0 then Some SPlain else Some (SEscU (n - 1)))"

fun str_run :: "strstate \<Rightarrow> string \<Rightarrow> strstate option" where
  "str_run q [] = Some q"
| "str_run q (c # s) = (case str_step q c of None \<Rightarrow> None | Some q' \<Rightarrow> str_run q' s)"

definition str_ok :: "string \<Rightarrow> bool" where
  "str_ok s \<longleftrightarrow> str_run SPlain s = Some SPlain"

fun wf_json :: "json \<Rightarrow> bool" where
  "wf_json JNull = True"
| "wf_json (JBool b) = True"
| "wf_json (JNum n) = num_ok n"
| "wf_json (JStr s) = str_ok s"
| "wf_json (JArr vs) = list_all wf_json vs"
| "wf_json (JObj kvs) = list_all (\<lambda>kv. str_ok (fst kv) \<and> wf_json (snd kv)) kvs"

fun jdepth :: "json \<Rightarrow> nat" where
  "jdepth (JArr vs) = Suc (foldr max (map jdepth vs) 0)"
| "jdepth (JObj kvs) = Suc (foldr max (map (\<lambda>kv. jdepth (snd kv)) kvs) 0)"
| "jdepth v = 0"

section \<open>Lemmas: scanning\<close>

lemma scan_append: "scan m (s @ t) = Option.bind (scan m s) (\<lambda>m'. scan m' t)"
  by (induction s arbitrary: m) (auto split: option.splits)

lemma scan_num: "num_run q s = Some q' \<Longrightarrow> scan (InNum q a, st) s = Some (InNum q' (a @ s), st)"
proof (induction s arbitrary: q a)
  case (Cons c s)
  then show ?case by (cases "num_step q c") (auto dest: Cons.IH [of _ "a @ [c]"])
qed simp

fun str_pstate :: "strstate \<Rightarrow> string \<Rightarrow> pstate" where
  "str_pstate SPlain a = InString a"
| "str_pstate SEsc a = InStringEsc a"
| "str_pstate (SEscU n) a = InStringEscU a n"

lemma scan_step_str:
  "str_step q c = Some q' \<Longrightarrow> scan_step (str_pstate q a, st) c = Some (str_pstate q' (a @ [c]), st)"
  by (cases q) (auto split: if_splits)

lemma scan_str: "str_run q s = Some q' \<Longrightarrow> scan (str_pstate q a, st) s = Some (str_pstate q' (a @ s), st)"
proof (induction s arbitrary: q a)
  case (Cons c s)
  then obtain q1 where q1: "str_step q c = Some q1" "str_run q1 s = Some q'"
    by (auto split: option.splits)
  with Cons.IH [OF q1(2), of "a @ [c]"] show ?case by (simp add: scan_step_str)
qed simp

lemma scan_str_literal:
  "str_ok s \<Longrightarrow> scan (InString [], st) (s @ c_quote # r) = Option.bind (deliver (JStr s) st) (\<lambda>m. scan m r)"
  using scan_str [of SPlain s SPlain "[]" st]
  by (auto simp: str_ok_def scan_append split: option.splits)

text \<open>
  A machine that has read the value \<open>v\<close>: the next delimiter, or the end of the input, finds
  \<open>v\<close> delivered. A number is the one value whose end is seen only then.
\<close>

definition ready :: "machine \<Rightarrow> json \<Rightarrow> frame list \<Rightarrow> bool" where
  "ready m v st \<longleftrightarrow>
     (\<forall>c \<in> set '',]}''. scan_step m c = Option.bind (deliver v st) (\<lambda>m'. scan_step m' c))
     \<and> (st = [] \<longrightarrow> scan_eof m = Some v)"

definition value_position :: "frame list \<Rightarrow> bool" where
  "value_position st \<longleftrightarrow> (case st of FObj _ # _ \<Rightarrow> False | _ \<Rightarrow> True)"

lemma ready_deliver:
  assumes "value_position st"
  shows "\<exists>m. deliver v st = Some m \<and> ready m v st"
proof (cases st)
  case (Cons f fs)
  with assms show ?thesis by (cases f) (auto simp: ready_def value_position_def)
qed (simp add: ready_def)

lemma scan_ready:
  "ready m v st \<Longrightarrow> c \<in> set '',]}'' \<Longrightarrow> scan m (c # r) = Option.bind (deliver v st) (\<lambda>m'. scan m' (c # r))"
  by (auto simp: ready_def split: option.splits Option.bind_splits)

lemma after_scan_step:
  "deliver v st = Some m \<Longrightarrow> c \<in> set '',]}'' \<Longrightarrow> value_position st \<Longrightarrow> scan_step m c = after_value m c"
  by (cases st; cases "hd st") (auto simp: value_position_def)

lemma ready_num:
  assumes "num_final q" and "value_position st"
  shows "ready (InNum q n, st) (JNum n) st"
proof -
  have no_step: "num_step q c = None" if "c \<in> set '',]}''" for c
    using that assms(1) by (auto simp: num_final_def is_dec_digit_def)
  obtain m where m: "deliver (JNum n) st = Some m" using ready_deliver [OF assms(2)] by blast
  show ?thesis
    unfolding ready_def using assms no_step m after_scan_step [OF m]
    by (cases st) auto
qed

lemma num_begin_char:
  assumes "num_begin c = Some q"
  shows "c \<notin> {CHR ''{'', CHR ''['', CHR '']'', c_quote, CHR ''t'', CHR ''f'', CHR ''n''}" and "\<not> json_space c"
proof -
  from assms have "c = CHR ''-'' \<or> is_dec_digit c"
    by (auto simp: num_begin_def is_dec_digit_def split: if_splits)
  then show "c \<notin> {CHR ''{'', CHR ''['', CHR '']'', c_quote, CHR ''t'', CHR ''f'', CHR ''n''}" and "\<not> json_space c"
    by (elim disjE; auto simp: is_dec_digit_def c_quote_def json_space_def)+
qed

lemma begin_value_num: "num_begin c = Some q \<Longrightarrow> begin_value st c = Some (InNum q [c], st)"
  using num_begin_char [of c q] by (simp add: begin_value_def)

lemma raw_first:
  assumes "wf_json v"
  obtains c r where "raw_json v = c # r"
    and "\<forall>st. scan_step (BeginValueOrEmpty, st) c = scan_step (BeginValue, st) c"
proof -
  have "\<exists>c r. raw_json v = c # r \<and> c \<noteq> CHR '']'' \<and> \<not> json_space c"
  proof (cases v)
    case (JNum n)
    with assms show ?thesis
      by (auto simp: num_ok_def split: list.splits option.splits dest: num_begin_char)
  qed (auto simp: json_space_def c_quote_def)
  with that show thesis by auto
qed

text \<open>
  Printing a well-formed value and scanning it gives the value back, wherever in an array or
  object it stands: for one value, for the elements of an array, and for the members of an
  object.
\<close>

abbreviation depth_fits :: "nat \<Rightarrow> frame list \<Rightarrow> bool" where
  "depth_fits d st \<equiv> d + length st \<le> maxNestingDepth"

lemma scan_raw:
  "wf_json v \<Longrightarrow> value_position st \<Longrightarrow> depth_fits (jdepth v) st \<Longrightarrow>
     \<exists>m. scan (BeginValue, st) (raw_json v) = Some m \<and> ready m v st"
  "list_all wf_json vs \<Longrightarrow> vs \<noteq> [] \<Longrightarrow> depth_fits (Suc (foldr max (map jdepth vs) 0)) st \<Longrightarrow>
     scan (BeginValue, FArr acc # st) (raw_list vs @ '']'') = deliver (JArr (acc @ vs)) st"
  "list_all (\<lambda>kv. str_ok (fst kv) \<and> wf_json (snd kv)) kvs \<Longrightarrow> kvs \<noteq> [] \<Longrightarrow>
     depth_fits (Suc (foldr max (map (\<lambda>kv. jdepth (snd kv)) kvs) 0)) st \<Longrightarrow>
     scan (BeginString, FObj oacc # st) (raw_members kvs @ ''}'') = deliver (JObj (oacc @ kvs)) st"
proof (induction v and vs and kvs arbitrary: st and st acc and st oacc
    rule: raw_json_raw_list_raw_members.induct)
  case 1
  then show ?case using ready_deliver [of st JNull]
    by (auto simp: begin_value_def json_space_def c_quote_def)
next
  case (2 b)
  then show ?case using ready_deliver [of st "JBool b"]
    by (cases b) (auto simp: begin_value_def json_space_def c_quote_def)
next
  case (3 n)
  then obtain c s q q' where n: "n = c # s" "num_begin c = Some q" "num_run q s = Some q'" "num_final q'"
    by (auto simp: num_ok_def split: list.splits option.splits)
  then have "begin_value st c = Some (InNum q [c], st)" by (simp add: begin_value_num)
  then have "scan (BeginValue, st) n = Some (InNum q' n, st)"
    using n scan_num [of q s q' "[c]" st] by simp
  with ready_num [OF n(4) "3.prems"(2), of n] show ?case by auto
next
  case (4 s)
  then show ?case using ready_deliver [of st "JStr s"] scan_str_literal [of s st "[]"]
    by (auto simp: begin_value_def json_space_def c_quote_def)
next
  case (5 vs)
  then have room: "length st < maxNestingDepth" by simp
  have open_arr: "scan (BeginValue, st) (CHR ''['' # r) = scan (BeginValueOrEmpty, FArr [] # st) r" for r
    using room by (simp add: begin_value_def json_space_def c_quote_def push_frame_def)
  have "scan (BeginValueOrEmpty, FArr [] # st) (raw_list vs @ '']'') = deliver (JArr vs) st"
  proof (cases vs)
    case Nil
    then show ?thesis by (simp add: json_space_def split: option.splits)
  next
    case (Cons w ws)
    with "5.prems" have "wf_json w" by simp
    then obtain c r where "raw_json w = c # r"
      and "\<forall>st. scan_step (BeginValueOrEmpty, st) c = scan_step (BeginValue, st) c"
      by (rule raw_first) blast
    with Cons have "scan (BeginValueOrEmpty, FArr [] # st) (raw_list vs @ '']'')
        = scan (BeginValue, FArr [] # st) (raw_list vs @ '']'')" by simp
    with "5.IH" [of st "[]"] "5.prems" Cons show ?thesis by simp
  qed
  with open_arr ready_deliver [OF "5.prems"(2), of "JArr vs"] show ?case by auto
next
  case (6 kvs)
  then have room: "length st < maxNestingDepth" by simp
  have open_obj: "scan (BeginValue, st) (CHR ''{'' # r) = scan (BeginStringOrEmpty, FObj [] # st) r" for r
    using room by (simp add: begin_value_def json_space_def c_quote_def push_frame_def)
  have "scan (BeginStringOrEmpty, FObj [] # st) (raw_members kvs @ ''}'') = deliver (JObj kvs) st"
  proof (cases kvs)
    case Nil
    then show ?thesis by (simp add: json_space_def split: option.splits)
  next
    case (Cons w ws)
    then have "scan (BeginStringOrEmpty, FObj [] # st) (raw_members kvs @ ''}'')
        = scan (BeginString, FObj [] # st) (raw_members kvs @ ''}'')"
      by (simp add: json_space_def c_quote_def)
    with "6.IH" [of st "[]"] "6.prems" Cons show ?thesis by simp
  qed
  with open_obj ready_deliver [OF "6.prems"(2), of "JObj kvs"] show ?case by auto
next
  case 7
  then show ?case by simp
next
  case (8 v vs)
  have "\<exists>m. scan (BeginValue, FArr acc # st) (raw_json v) = Some m \<and> ready m v (FArr acc # st)"
    using "8.prems" by (intro "8.IH"(1)) (simp_all add: value_position_def)
  then obtain m where m: "scan (BeginValue, FArr acc # st) (raw_json v) = Some m"
    and rdy: "ready m v (FArr acc # st)" by blast
  show ?case
  proof (cases "vs = []")
    case True
    with m scan_ready [OF rdy, of "CHR '']''" "[]"] show ?thesis
      by (simp add: scan_append json_space_def split: option.splits)
  next
    case False
    with "8.IH"(2) [of st "acc @ [v]"] "8.prems"
    have "scan (BeginValue, FArr (acc @ [v]) # st) (raw_list vs @ '']'') = deliver (JArr (acc @ v # vs)) st"
      by simp
    with False m scan_ready [OF rdy, of "CHR '',''" "raw_list vs @ '']''"] show ?thesis
      by (simp add: scan_append json_space_def)
  qed
next
  case 9
  then show ?case by simp
next
  case (10 kv kvs)
  obtain k v where kv: "kv = (k, v)" by force
  with "10.prems" have "str_ok k" by simp
  then have key: "scan (BeginString, FObj oacc # st) (c_quote # k @ c_quote # CHR '':'' # r)
      = scan (BeginValue, FKey oacc k # st) r" for r
    by (simp add: begin_string_def json_space_def c_quote_def scan_str_literal [unfolded c_quote_def])
  have "\<exists>m. scan (BeginValue, FKey oacc k # st) (raw_json (snd kv)) = Some m
      \<and> ready m (snd kv) (FKey oacc k # st)"
    using "10.prems" by (intro "10.IH"(1)) (simp_all add: value_position_def)
  with kv obtain m where m: "scan (BeginValue, FKey oacc k # st) (raw_json v) = Some m"
    and rdy: "ready m v (FKey oacc k # st)" by auto
  show ?case
  proof (cases "kvs = []")
    case True
    with m kv key scan_ready [OF rdy, of "CHR ''}''" "[]"] show ?thesis
      by (simp add: scan_append json_space_def split: option.splits)
  next
    case False
    with "10.IH"(2) [of st "oacc @ [kv]"] "10.prems"
    have "scan (BeginString, FObj (oacc @ [kv]) # st) (raw_members kvs @ ''}'') = deliver (JObj (oacc @ kv # kvs)) st"
      by simp
    with False m kv key scan_ready [OF rdy, of "CHR '',''" "raw_members kvs @ ''}''"] show ?thesis
      by (simp add: scan_append json_space_def)
  qed
qed

theorem parse_raw_json:
  assumes "wf_json v" and "jdepth v \<le> maxNestingDepth"
  shows "parse_json (raw_json v) = Some v"
  using scan_raw(1) [of v "[]"] assms by (auto simp: parse_json_def value_position_def ready_def)

section \<open>Lemmas: plain ASCII literals\<close>

definition plain_char :: "char \<Rightarrow> bool" where
  "plain_char c \<longleftrightarrow> 0x20 \<le> (of_char c :: nat) \<and> (of_char c :: nat) < 0x80 \<and> c \<noteq> c_quote \<and> c \<noteq> c_bslash"

lemma utf8_len_ascii: "(of_char c :: nat) < 0x80 \<Longrightarrow> utf8_len (c # s) = 1"
  by (simp add: utf8_len_def byte_in_def)

lemma unquote_plain: "list_all plain_char s \<Longrightarrow> unquote s = s"
  by (induction s) (simp_all add: plain_char_def utf8_len_ascii unquote.simps(2))

lemma str_ok_plain: "list_all plain_char s \<Longrightarrow> str_ok s"
proof -
  have "list_all plain_char s \<Longrightarrow> str_run SPlain s = Some SPlain"
    by (induction s) (auto simp: plain_char_def)
  then show "list_all plain_char s \<Longrightarrow> str_ok s" by (simp add: str_ok_def)
qed

lemma num_run_digits:
  "list_all is_dec_digit s \<Longrightarrow> num_run NInt s = Some NInt"
  by (induction s) auto

end
