(* ===== verification/Go_Strconv.thy ===== *)
theory Go_Strconv
  imports Go_Prelude
begin

text \<open>
  The parts of \<open>strconv\<close>, \<open>strings\<close> and \<open>bytes\<close> the program uses: \<open>ParseInt(s, 10, 64)\<close>, the
  integer part of \<open>ParseFloat(s, 64)\<close> (all the program ever takes of a float), \<open>TrimSpace\<close>
  and \<open>ToLower\<close>.
\<close>

section \<open>ParseInt\<close>

definition split_sign :: "string \<Rightarrow> bool \<times> string" where
  "split_sign s = (case s of [] \<Rightarrow> (False, [])
     | c # r \<Rightarrow> if c = CHR ''-'' then (True, r) else if c = CHR ''+'' then (False, r) else (False, s))"

text \<open>\<open>strconv.ParseInt(s, 10, 64)\<close>; \<open>None\<close> is \<open>ErrSyntax\<close> or \<open>ErrRange\<close>.\<close>

definition ParseInt :: "string \<Rightarrow> int option" where
  "ParseInt s =
     (case split_sign s of (neg, d) \<Rightarrow>
        if d = [] \<or> \<not> list_all is_dec_digit d then None
        else let n = int (dec_val d) in
          if neg then (if n \<le> 2 ^ 63 then Some (- n) else None)
          else (if n < 2 ^ 63 then Some n else None))"

section \<open>ParseFloat, integer part\<close>

text \<open>The exponent stops growing once it passes 10000, as \<open>readFloat\<close> has it.\<close>

definition exp_val :: "string \<Rightarrow> int" where
  "exp_val s = (case split_sign s of (neg, d) \<Rightarrow>
     (if neg then -1 else 1)
     * int (foldl (\<lambda>e c. if e < 10000 then 10 * e + digit_val c else e) 0 d))"

text \<open>Sign, digits and decimal exponent of a number literal.\<close>

definition float_parts :: "string \<Rightarrow> bool \<times> nat \<times> int" where
  "float_parts s =
     (case split_sign s of (neg, s1) \<Rightarrow>
        let ip = takeWhile is_dec_digit s1; s2 = dropWhile is_dec_digit s1;
            frac = s2 \<noteq> [] \<and> hd s2 = CHR ''.'';
            fp = (if frac then takeWhile is_dec_digit (tl s2) else []);
            s3 = (if frac then dropWhile is_dec_digit (tl s2) else s2);
            ex = (if s3 \<noteq> [] then exp_val (tl s3) else 0)
        in (neg, dec_val (ip @ fp), ex - int (length fp)))"

fun bitlen :: "nat \<Rightarrow> nat" where
  "bitlen n = (if n = 0 then 0 else Suc (bitlen (n div 2)))"

declare bitlen.simps [simp del]

text \<open>Division rounded to nearest, ties to even.\<close>

definition round_half_even :: "nat \<Rightarrow> nat \<Rightarrow> nat" where
  "round_half_even a b =
     (let q = a div b; r = a mod b in
      if 2 * r < b \<or> (2 * r = b \<and> even q) then q else q + 1)"

text \<open>
  The integer part of the double nearest to \<open>a / b\<close>, \<open>None\<close> when it overflows. Below 1 the
  nearest double is 1 from \<open>1 - 2^-54\<close> on; from 1 up a double has 53 significant bits.
\<close>

definition f64_int_part :: "nat \<Rightarrow> nat \<Rightarrow> nat option" where
  "f64_int_part a b =
     (if a < b then Some (if (2 ^ 54 - 1) * b \<le> a * 2 ^ 54 then 1 else 0)
      else let k = bitlen (a div b) - 1;
               v = (if k \<le> 52 then round_half_even (a * 2 ^ (52 - k)) b div 2 ^ (52 - k)
                    else round_half_even a (b * 2 ^ (k - 52)) * 2 ^ (k - 52))
           in if v < 2 ^ 1024 then Some v else None)"

definition float_int_part :: "string \<Rightarrow> int option" where
  "float_int_part s =
     (case float_parts s of (neg, m, e) \<Rightarrow>
        map_option (\<lambda>v. if neg then - int v else int v)
          (if 0 \<le> e then f64_int_part (m * 10 ^ nat e) 1 else f64_int_part m (10 ^ nat (- e))))"

section \<open>TrimSpace, ToLower\<close>

text \<open>The UTF-8 encodings of the code points \<open>unicode.IsSpace\<close> holds for.\<close>

definition space_runes :: "bytes list" where
  "space_runes = map (map char_of)
     ([[9], [10], [11], [12], [13], [32], [0xC2, 0x85], [0xC2, 0xA0], [0xE1, 0x9A, 0x80],
       [0xE2, 0x80, 0xA8], [0xE2, 0x80, 0xA9], [0xE2, 0x80, 0xAF], [0xE2, 0x81, 0x9F], [0xE3, 0x80, 0x80]]
      @ map (\<lambda>k. [0xE2, 0x80, k]) [0x80 ..< 0x8B] :: nat list list)"

definition starts_with :: "string \<Rightarrow> string \<Rightarrow> bool" where
  "starts_with s w \<longleftrightarrow> take (length w) s = w"

function trim_front :: "bytes list \<Rightarrow> string \<Rightarrow> string" where
  "trim_front ws s =
     (case find (\<lambda>w. w \<noteq> [] \<and> starts_with s w) ws of
        None \<Rightarrow> s | Some w \<Rightarrow> trim_front ws (drop (length w) s))"
  by pat_completeness auto
termination
proof (relation "measure (\<lambda>(ws, s). length s)")
  fix ws s w
  assume "find (\<lambda>w. w \<noteq> [] \<and> starts_with s w) ws = Some w"
  then have "w \<noteq> []" "take (length w) s = w"
    by (auto simp: find_Some_iff starts_with_def)
  then have "0 < length w" "s \<noteq> []" by auto
  then show "((ws, drop (length w) s), ws, s) \<in> measure (\<lambda>(ws, s). length s)" by simp
qed simp

declare trim_front.simps [simp del]

definition TrimSpace :: "string \<Rightarrow> string" where
  "TrimSpace s = rev (trim_front (map rev space_runes) (rev (trim_front space_runes s)))"

text \<open>
  \<open>strings.ToLower\<close> on the letters A to Z; what it does to other letters cannot turn them into
  a letter any caller compares with.
\<close>

definition ToLower :: "string \<Rightarrow> string" where
  "ToLower s = map (\<lambda>c. if 65 \<le> (of_char c :: nat) \<and> (of_char c :: nat) \<le> 90
                        then char_of (of_char c + 32 :: nat) else c) s"

section \<open>Lemmas\<close>

text \<open>The decimal text of an integer, as Go prints it.\<close>

definition int_text :: "int \<Rightarrow> string" where
  "int_text n = (if n < 0 then CHR ''-'' # dec (nat (- n)) else dec (nat n))"

lemma dec_split_sign: "split_sign (dec n) = (False, dec n)"
proof -
  obtain c r where "dec n = c # r" by (cases "dec n") auto
  moreover from this have "is_dec_digit c" using dec_digits [of c n] by simp
  ultimately show ?thesis by (auto simp: split_sign_def is_dec_digit_def)
qed

lemma split_sign_minus: "split_sign (CHR ''-'' # r) = (True, r)"
  by (simp add: split_sign_def)

lemma list_all_dec: "list_all is_dec_digit (dec n)"
  by (auto simp: list_all_iff dec_digits)

lemma ParseInt_int_text: "int64_range n \<Longrightarrow> ParseInt (int_text n) = Some n"
  by (cases "n < 0")
    (simp_all add: ParseInt_def int_text_def dec_split_sign list_all_dec int64_defs split_sign_minus)

lemma ParseInt_range: "ParseInt s = Some n \<Longrightarrow> int64_range n"
  by (auto simp: ParseInt_def int64_defs Let_def split: prod.splits if_splits)

lemma round_half_even_exact: "0 < b \<Longrightarrow> round_half_even (q * b) b = q"
  by (simp add: round_half_even_def)

lemma bitlen_less: "n < 2 ^ k \<Longrightarrow> bitlen n \<le> k"
proof (induction n arbitrary: k rule: bitlen.induct)
  case (1 n)
  show ?case
  proof (cases "n = 0")
    case True
    then show ?thesis by (simp add: bitlen.simps)
  next
    case False
    with "1.prems" obtain j where k: "k = Suc j" by (cases k) auto
    with "1.prems" have "n div 2 < 2 ^ j" by (simp add: less_mult_imp_div_less)
    with False "1.IH" k show ?thesis by (simp add: bitlen.simps [of n])
  qed
qed

text \<open>An integer below \<open>2^53\<close> is a double: the integer part is exact.\<close>

lemma f64_int_part_exact:
  assumes "n < 2 ^ 53" and "0 < b"
  shows "f64_int_part (n * b) b = Some n"
proof (cases "n = 0")
  case True
  with assms(2) show ?thesis by (simp add: f64_int_part_def)
next
  case False
  have "bitlen n \<le> 53" using assms(1) by (rule bitlen_less)
  then have k: "bitlen n - 1 \<le> 52" by simp
  let ?j = "52 - (bitlen n - 1)"
  have "n * b * 2 ^ ?j = (n * 2 ^ ?j) * b" by simp
  then have "round_half_even (n * b * 2 ^ ?j) b = n * 2 ^ ?j"
    using assms(2) by (simp only: round_half_even_exact)
  moreover have "n < 2 ^ 1024"
    using assms(1) power_increasing [of 53 1024 "2 :: nat"] by simp
  moreover have "\<not> n * b < b" using False by simp
  ultimately show ?thesis
    using k assms(2) by (simp add: f64_int_part_def Let_def del: power_numeral)
qed

lemma dec_append_split_sign: "split_sign (dec n @ r) = (False, dec n @ r)"
  using dec_split_sign [of n] by (cases "dec n") (auto simp: split_sign_def split: if_splits)

lemma takeWhile_dec: "takeWhile is_dec_digit (dec n @ CHR ''.'' # r) = dec n"
  "dropWhile is_dec_digit (dec n @ CHR ''.'' # r) = CHR ''.'' # r"
proof -
  have "\<not> is_dec_digit (CHR ''.'')" by (simp add: is_dec_digit_def)
  then show "takeWhile is_dec_digit (dec n @ CHR ''.'' # r) = dec n"
    and "dropWhile is_dec_digit (dec n @ CHR ''.'' # r) = CHR ''.'' # r"
    by (simp_all add: takeWhile_append2 dropWhile_append2 dec_digits)
qed

lemma float_int_part_decimal_zero: "n < 2 ^ 53 \<Longrightarrow> float_int_part (dec n @ ''.0'') = Some (int n)"
proof -
  assume n: "n < 2 ^ 53"
  have "float_parts (dec n @ ''.0'') = (False, n * 10, - 1)"
    by (simp add: float_parts_def dec_append_split_sign takeWhile_dec Let_def is_dec_digit_def digit_val_def)
  with f64_int_part_exact [OF n, of 10] show ?thesis by (simp add: float_int_part_def)
qed

lemma float_parts_dec: "float_parts (dec n) = (False, n, 0)"
proof -
  have "takeWhile is_dec_digit (dec n) = dec n" "dropWhile is_dec_digit (dec n) = []"
    by (simp_all add: dec_digits)
  then show ?thesis
    unfolding float_parts_def dec_split_sign Let_def prod.case by (simp only:) simp
qed

lemma bitlen_power2: "bitlen (2 ^ k) = Suc k"
proof (induction k)
  case (Suc k)
  have "bitlen (2 ^ Suc k) = Suc (bitlen (2 ^ Suc k div 2))"
    by (subst bitlen.simps) simp
  with Suc show ?case by simp
qed (simp add: bitlen.simps)

text \<open>The first integer past the \<open>int64\<close> range is a double.\<close>

lemma float_int_part_maxInt64_succ: "float_int_part (dec (2 ^ 63)) = Some (2 ^ 63)"
  using bitlen_power2 [of 63]
  by (simp add: float_int_part_def float_parts_dec f64_int_part_def round_half_even_def Let_def)

lemma trim_front_id: "find (\<lambda>w. w \<noteq> [] \<and> starts_with s w) ws = None \<Longrightarrow> trim_front ws s = s"
  by (simp add: trim_front.simps)

section \<open>Lemmas: TrimSpace\<close>

definition visible :: "char \<Rightarrow> bool" where
  "visible c \<longleftrightarrow> 0x20 < (of_char c :: nat) \<and> (of_char c :: nat) < 0x80"

lemma space_runes_invisible:
  "list_all (\<lambda>w. w \<noteq> [] \<longrightarrow> \<not> visible (hd w)) space_runes"
  "list_all (\<lambda>w. w \<noteq> [] \<longrightarrow> \<not> visible (hd w)) (map rev space_runes)"
  by (simp_all add: space_runes_def visible_def upt_conv_Cons)

lemma trim_front_visible:
  assumes "list_all (\<lambda>w. w \<noteq> [] \<longrightarrow> \<not> visible (hd w)) ws" and "visible c"
  shows "trim_front ws (c # s) = c # s"
proof (rule trim_front_id)
  show "find (\<lambda>w. w \<noteq> [] \<and> starts_with (c # s) w) ws = None"
    unfolding find_None_iff
  proof
    assume "\<exists>w. w \<in> set ws \<and> w \<noteq> [] \<and> starts_with (c # s) w"
    then obtain w where w: "w \<in> set ws" "w \<noteq> []" "starts_with (c # s) w" by blast
    from w(2,3) have "hd w = c" by (cases w) (auto simp: starts_with_def)
    with w assms show False by (auto simp: list_all_iff)
  qed
qed

lemma TrimSpace_visible:
  assumes "s \<noteq> []" and "visible (hd s)" and "visible (last s)"
  shows "TrimSpace s = s"
proof -
  from assms obtain c r where s: "s = c # r" "visible c" by (cases s) auto
  from assms(1,3) obtain d t where t: "rev s = d # t" "visible d"
    by (cases s rule: rev_cases) auto
  show ?thesis
    using trim_front_visible [OF space_runes_invisible(1) s(2), of r]
      trim_front_visible [OF space_runes_invisible(2) t(2), of t] s t
    by (metis TrimSpace_def rev_rev_ident)
qed

lemma TrimSpace_Nil [simp]: "TrimSpace [] = []"
proof -
  have "find (\<lambda>w. w \<noteq> [] \<and> starts_with [] w) ws = None" for ws
    by (auto simp: find_None_iff starts_with_def)
  then have "trim_front ws [] = []" for ws by (rule trim_front_id)
  then show ?thesis by (simp add: TrimSpace_def)
qed

lemma int_text_visible: "int_text n \<noteq> []" "list_all visible (int_text n)"
proof -
  have "dec k \<noteq> [] \<and> list_all visible (dec k)" for k
    using list_all_dec [of k] dec_length [of k]
    by (auto simp: list_all_iff visible_def is_dec_digit_def)
  then show "int_text n \<noteq> []" "list_all visible (int_text n)"
    by (simp_all add: int_text_def visible_def)
qed

lemma TrimSpace_int_text: "TrimSpace (int_text n) = int_text n"
  using int_text_visible [of n] by (intro TrimSpace_visible) (auto simp: list_all_iff)

end
