(* ===== verification/Livekit_Translate.thy ===== *)
theory Livekit_Translate
  imports Event_Id Go_Json Go_Strconv "HOL-Library.Multiset"
begin

text \<open>
  The LiveKit adapter's decoding and translation (\<^verbatim>\<open>internal/ingest/adapter/livekit\<close>):
  \<open>protoInt64.UnmarshalJSON\<close> of \<^verbatim>\<open>jsonnum.go\<close>, and the payload struct, \<open>Classify\<close>, \<open>occurredAt\<close>
  and \<open>Translate\<close> of \<^verbatim>\<open>translate.go\<close>. A body is decoded from its bytes: \<open>json.Unmarshal\<close> into
  the payload struct is modelled with the package's own rules (keys match exactly first and
  then by folded case, a repeated key is decoded over the earlier value, \<open>null\<close> leaves a
  string unchanged and resets a pointer, unknown keys are skipped).
\<close>

section \<open>Code outside the repository\<close>

text \<open>
  \<open>uuid.NewSHA1\<close> and \<open>UUID.String\<close> of github.com/google/uuid, and the result the platform gives
  for converting a float that is out of range to \<open>int64\<close>, which the language leaves open.
\<close>

record 'u deps =
  dep_newSHA1 :: "'u sha1_uuid"
  dep_uuidString :: "'u \<Rightarrow> string"
  dep_f64_overflow :: "int \<Rightarrow> int"

section \<open>protoInt64\<close>

text \<open>\<open>json.Unmarshal(b, &f)\<close> into a fresh \<open>float64\<close>, of which only the integer part is used.\<close>

definition unmarshal_float64 :: "bytes \<Rightarrow> int option" where
  "unmarshal_float64 b = (case parse_json b of
       Some (JNum r) \<Rightarrow> float_int_part r
     | Some JNull \<Rightarrow> Some 0
     | _ \<Rightarrow> None)"

definition float64_to_int64 :: "(int \<Rightarrow> int) \<Rightarrow> int \<Rightarrow> int" where
  "float64_to_int64 overflow x = (if int64_range x then x else overflow x)"

definition protoInt64_UnmarshalJSON :: "(int \<Rightarrow> int) \<Rightarrow> bytes \<Rightarrow> int option" where
  "protoInt64_UnmarshalJSON overflow raw =
     (let b = TrimSpace raw in
      if b = [] \<or> b = ''null'' then Some 0
      else let quoted = 2 \<le> length b \<and> hd b = c_quote \<and> last b = c_quote;
               b' = (if quoted then butlast (tl b) else b)
           in if quoted \<and> b' = [] then Some 0
              else (case ParseInt b' of
                      Some n \<Rightarrow> Some n
                    | None \<Rightarrow> map_option (float64_to_int64 overflow) (unmarshal_float64 b')))"

section \<open>The payload struct\<close>

record PayloadRoom =
  pr_SID :: string
  pr_Name :: string
  pr_CreationTime :: int

record PayloadParticipant =
  pp_SID :: string
  pp_Identity :: string
  pp_JoinedAt :: int

record PayloadTrack =
  pt_SID :: string

record payload =
  p_Event :: string
  p_ID :: string
  p_CreatedAt :: int
  p_Room :: "PayloadRoom option"
  p_Participant :: "PayloadParticipant option"
  p_Track :: "PayloadTrack option"

definition zeroRoom :: PayloadRoom where
  "zeroRoom = \<lparr>pr_SID = [], pr_Name = [], pr_CreationTime = 0\<rparr>"

definition zeroParticipant :: PayloadParticipant where
  "zeroParticipant = \<lparr>pp_SID = [], pp_Identity = [], pp_JoinedAt = 0\<rparr>"

definition zeroTrack :: PayloadTrack where
  "zeroTrack = \<lparr>pt_SID = []\<rparr>"

definition zeroPayload :: payload where
  "zeroPayload = \<lparr>p_Event = [], p_ID = [], p_CreatedAt = 0, p_Room = None,
     p_Participant = None, p_Track = None\<rparr>"

section \<open>Decoding into the struct\<close>

text \<open>
  Key folding of \<open>encoding/json\<close>: ASCII letters to upper case; the long s and the Kelvin sign
  are the two other characters that fold to an ASCII letter.
\<close>

fun fold_name :: "string \<Rightarrow> string" where
  "fold_name [] = []"
| "fold_name (c # s) =
     (if c = char_of (0xC5 :: nat) \<and> s \<noteq> [] \<and> hd s = char_of (0xBF :: nat)
      then CHR ''S'' # fold_name (drop 1 s)
      else if c = char_of (0xE2 :: nat) \<and> take 2 s = map char_of [0x84 :: nat, 0xAA]
      then CHR ''K'' # fold_name (drop 2 s)
      else (if 97 \<le> (of_char c :: nat) \<and> (of_char c :: nat) \<le> 122
            then char_of (of_char c - 32 :: nat) else c) # fold_name s)"

definition match_field :: "string list \<Rightarrow> string \<Rightarrow> string option" where
  "match_field names k =
     (if k \<in> set names then Some k
      else find (\<lambda>n. fold_name n = fold_name k) names)"

fun decode_string :: "json \<Rightarrow> string \<Rightarrow> string option" where
  "decode_string (JStr raw) old = Some (unquote raw)"
| "decode_string JNull old = Some old"
| "decode_string v old = None"

definition decode_int64 :: "(int \<Rightarrow> int) \<Rightarrow> json \<Rightarrow> int option" where
  "decode_int64 overflow v = protoInt64_UnmarshalJSON overflow (raw_json v)"

text \<open>An object's members are decoded in order, each over the struct so far.\<close>

fun decode_members ::
  "string list \<Rightarrow> (string \<Rightarrow> json \<Rightarrow> 'r \<Rightarrow> 'r option) \<Rightarrow> (string \<times> json) list \<Rightarrow> 'r \<Rightarrow> 'r option"
where
  "decode_members names setf [] r = Some r"
| "decode_members names setf ((k, v) # kvs) r =
     (case match_field names (unquote k) of
        None \<Rightarrow> decode_members names setf kvs r
      | Some n \<Rightarrow> (case setf n v r of None \<Rightarrow> None | Some r' \<Rightarrow> decode_members names setf kvs r'))"

text \<open>A pointer to a struct: \<open>null\<close> resets it, an object is decoded over what it points to.\<close>

definition decode_pointer ::
  "string list \<Rightarrow> (string \<Rightarrow> json \<Rightarrow> 'r \<Rightarrow> 'r option) \<Rightarrow> 'r \<Rightarrow> json \<Rightarrow> 'r option \<Rightarrow> 'r option option"
where
  "decode_pointer names setf zero v old =
     (case v of
        JNull \<Rightarrow> Some None
      | JObj kvs \<Rightarrow> map_option Some (decode_members names setf kvs (case old of None \<Rightarrow> zero | Some r \<Rightarrow> r))
      | _ \<Rightarrow> None)"

definition room_names :: "string list" where
  "room_names = [''sid'', ''name'', ''creationTime'']"

definition set_room :: "(int \<Rightarrow> int) \<Rightarrow> string \<Rightarrow> json \<Rightarrow> PayloadRoom \<Rightarrow> PayloadRoom option" where
  "set_room overflow n v r =
     (if n = ''sid'' then map_option (\<lambda>x. r\<lparr>pr_SID := x\<rparr>) (decode_string v (pr_SID r))
      else if n = ''name'' then map_option (\<lambda>x. r\<lparr>pr_Name := x\<rparr>) (decode_string v (pr_Name r))
      else map_option (\<lambda>x. r\<lparr>pr_CreationTime := x\<rparr>) (decode_int64 overflow v))"

definition participant_names :: "string list" where
  "participant_names = [''sid'', ''identity'', ''joinedAt'']"

definition set_participant ::
  "(int \<Rightarrow> int) \<Rightarrow> string \<Rightarrow> json \<Rightarrow> PayloadParticipant \<Rightarrow> PayloadParticipant option" where
  "set_participant overflow n v r =
     (if n = ''sid'' then map_option (\<lambda>x. r\<lparr>pp_SID := x\<rparr>) (decode_string v (pp_SID r))
      else if n = ''identity'' then map_option (\<lambda>x. r\<lparr>pp_Identity := x\<rparr>) (decode_string v (pp_Identity r))
      else map_option (\<lambda>x. r\<lparr>pp_JoinedAt := x\<rparr>) (decode_int64 overflow v))"

definition track_names :: "string list" where
  "track_names = [''sid'']"

definition set_track :: "string \<Rightarrow> json \<Rightarrow> PayloadTrack \<Rightarrow> PayloadTrack option" where
  "set_track n v r = map_option (\<lambda>x. r\<lparr>pt_SID := x\<rparr>) (decode_string v (pt_SID r))"

definition payload_names :: "string list" where
  "payload_names = [''event'', ''id'', ''createdAt'', ''room'', ''participant'', ''track'']"

definition set_payload :: "(int \<Rightarrow> int) \<Rightarrow> string \<Rightarrow> json \<Rightarrow> payload \<Rightarrow> payload option" where
  "set_payload overflow n v p =
     (if n = ''event'' then map_option (\<lambda>x. p\<lparr>p_Event := x\<rparr>) (decode_string v (p_Event p))
      else if n = ''id'' then map_option (\<lambda>x. p\<lparr>p_ID := x\<rparr>) (decode_string v (p_ID p))
      else if n = ''createdAt'' then map_option (\<lambda>x. p\<lparr>p_CreatedAt := x\<rparr>) (decode_int64 overflow v)
      else if n = ''room'' then
        map_option (\<lambda>x. p\<lparr>p_Room := x\<rparr>)
          (decode_pointer room_names (set_room overflow) zeroRoom v (p_Room p))
      else if n = ''participant'' then
        map_option (\<lambda>x. p\<lparr>p_Participant := x\<rparr>)
          (decode_pointer participant_names (set_participant overflow) zeroParticipant v (p_Participant p))
      else
        map_option (\<lambda>x. p\<lparr>p_Track := x\<rparr>) (decode_pointer track_names set_track zeroTrack v (p_Track p)))"

definition unmarshal_payload :: "(int \<Rightarrow> int) \<Rightarrow> bytes \<Rightarrow> payload option" where
  "unmarshal_payload overflow body =
     (case parse_json body of
        Some (JObj kvs) \<Rightarrow> decode_members payload_names (set_payload overflow) kvs zeroPayload
      | Some JNull \<Rightarrow> Some zeroPayload
      | _ \<Rightarrow> None)"

section \<open>Translate\<close>

datatype Disposition = Ingest | Reject | Store

datatype translate_error = DecodeError | NoEventType

definition canonical :: "string \<rightharpoonup> EventType" where
  "canonical = map_of
     [(''room_started'', EventRoomStarted), (''room_finished'', EventRoomFinished),
      (''participant_joined'', EventParticipantJoined), (''participant_left'', EventParticipantLeft),
      (''track_published'', EventTrackPublished), (''track_unpublished'', EventTrackUnpublished)]"

definition rejected_types :: "string list" where
  "rejected_types = [''egress_started'', ''egress_updated'', ''egress_ended'',
     ''ingress_started'', ''ingress_ended'']"

definition Classify :: "string \<Rightarrow> Disposition" where
  "Classify eventName =
     (if canonical eventName \<noteq> None then Ingest
      else if eventName \<in> set rejected_types then Reject
      else Store)"

definition occurredAt :: "payload \<Rightarrow> Time" where
  "occurredAt p =
     (if p_CreatedAt p > 0 then time_Unix (p_CreatedAt p)
      else if p_Participant p \<noteq> None \<and> pp_JoinedAt (the (p_Participant p)) > 0
      then time_Unix (pp_JoinedAt (the (p_Participant p)))
      else if p_Room p \<noteq> None \<and> pr_CreationTime (the (p_Room p)) > 0
      then time_Unix (pr_CreationTime (the (p_Room p)))
      else zeroTime)"

text \<open>The event before its id is derived: lines 117 to 138.\<close>

definition build_event :: "payload \<Rightarrow> bytes \<Rightarrow> Disposition \<Rightarrow> Event" where
  "build_event p body disp =
     (let ev = zeroEvent\<lparr>ev_Backend := BackendLiveKit, ev_BackendEventID := p_ID p,
                 ev_Type := (case canonical (p_Event p) of Some t \<Rightarrow> t | None \<Rightarrow> []),
                 ev_OccurredAt := occurredAt p, ev_Payload := body\<rparr>;
          ev = (if disp = Store then ev\<lparr>ev_Type := p_Event p\<rparr> else ev);
          ev = (case p_Room p of None \<Rightarrow> ev
                | Some r \<Rightarrow> ev\<lparr>ev_RoomSID := pr_SID r, ev_RoomName := pr_Name r\<rparr>);
          ev = (case p_Participant p of None \<Rightarrow> ev
                | Some pp \<Rightarrow> ev\<lparr>ev_ParticipantSID := pp_SID pp, ev_ParticipantIdentity := pp_Identity pp\<rparr>)
      in (case p_Track p of None \<Rightarrow> ev | Some t \<Rightarrow> ev\<lparr>ev_TrackSID := pt_SID t\<rparr>))"

definition derive_id :: "'u deps \<Rightarrow> payload \<Rightarrow> Event \<Rightarrow> int \<Rightarrow> string" where
  "derive_id d p ev ordinal =
     dep_uuidString d
       (if p_ID p \<noteq> [] then FromBackendEventID (dep_newSHA1 d) BackendLiveKit (p_ID p)
        else FromFields (dep_newSHA1 d)
          \<lparr>f_Backend = BackendLiveKit, f_EventType = ev_Type ev, f_Room = ev_RoomName ev,
           f_ParticipantIdentity = ev_ParticipantIdentity ev,
           f_ParticipantSID = ev_ParticipantSID ev, f_TrackSID = ev_TrackSID ev,
           f_OccurredAt = ev_OccurredAt ev, f_DeliveryOrdinal = ordinal\<rparr>)"

definition Translate ::
  "'u deps \<Rightarrow> bytes \<Rightarrow> int \<Rightarrow> Event \<times> Disposition \<times> translate_error option" where
  "Translate d body ordinal =
     (case unmarshal_payload (dep_f64_overflow d) body of
        None \<Rightarrow> (zeroEvent, Store, Some DecodeError)
      | Some p \<Rightarrow>
          if p_Event p = [] then (zeroEvent, Store, Some NoEventType)
          else let disp = Classify (p_Event p) in
            if disp = Reject then
              (zeroEvent\<lparr>ev_Backend := BackendLiveKit, ev_Type := p_Event p\<rparr>, Reject, None)
            else let ev = build_event p body disp
                 in (ev\<lparr>ev_ID := derive_id d p ev ordinal\<rparr>, disp, None))"

section \<open>Lemmas: protoInt64\<close>

lemma visible_digit: "is_dec_digit c \<Longrightarrow> visible c"
  by (simp add: visible_def is_dec_digit_def)

lemma int_text_ends: "int_text n \<noteq> []" "visible (hd (int_text n))" "visible (last (int_text n))"
proof -
  have "is_dec_digit (hd (dec k))" "is_dec_digit (last (dec k))" for k
    using dec_digits [OF hd_in_set [OF dec_not_Nil]] dec_digits [OF last_in_set [OF dec_not_Nil]] by auto
  then show "int_text n \<noteq> []" "visible (hd (int_text n))" "visible (last (int_text n))"
    by (auto simp: int_text_def visible_digit) (simp add: visible_def)
qed

lemma int_text_chars: "c \<in> set (int_text n) \<Longrightarrow> is_dec_digit c \<or> c = CHR ''-''"
  by (auto simp: int_text_def dec_digits split: if_splits)

lemma int_text_not_quote: "hd (int_text n) \<noteq> c_quote"
  using int_text_chars [of "hd (int_text n)" n] int_text_ends(1) [of n]
  by (auto simp: c_quote_def is_dec_digit_def)

lemma int_text_not_null: "int_text n \<noteq> ''null''"
  using int_text_chars [of "CHR ''n''" n] by (auto simp: is_dec_digit_def)

lemma quoted_ends: "visible c_quote" "TrimSpace (c_quote # s @ [c_quote]) = c_quote # s @ [c_quote]"
proof -
  show q: "visible c_quote" by (simp add: visible_def c_quote_def)
  show "TrimSpace (c_quote # s @ [c_quote]) = c_quote # s @ [c_quote]"
    by (rule TrimSpace_visible) (simp_all add: q)
qed

lemma c_quote_not_n: "c_quote \<noteq> CHR ''n''"
  by (simp add: c_quote_def)

lemma protoInt64_number:
  "int64_range n \<Longrightarrow> protoInt64_UnmarshalJSON ovf (int_text n) = Some n"
  using int_text_ends [of n] int_text_not_quote [of n] int_text_not_null [of n]
  by (simp add: protoInt64_UnmarshalJSON_def TrimSpace_visible ParseInt_int_text Let_def)

lemma protoInt64_string:
  "int64_range n \<Longrightarrow> protoInt64_UnmarshalJSON ovf (c_quote # int_text n @ [c_quote]) = Some n"
  using int_text_ends(1) [of n]
  by (simp add: protoInt64_UnmarshalJSON_def quoted_ends ParseInt_int_text Let_def c_quote_not_n butlast_append)

lemma protoInt64_null: "protoInt64_UnmarshalJSON ovf ''null'' = Some 0"
  using TrimSpace_visible [of "''null''"] by (simp add: protoInt64_UnmarshalJSON_def visible_def)

lemma protoInt64_empty: "protoInt64_UnmarshalJSON ovf [c_quote, c_quote] = Some 0"
  using quoted_ends(2) [of "[]"] by (simp add: protoInt64_UnmarshalJSON_def Let_def c_quote_not_n)

lemma protoInt64_quoted:
  "b \<noteq> [] \<Longrightarrow> ParseInt b = None \<Longrightarrow>
   protoInt64_UnmarshalJSON ovf (c_quote # b @ [c_quote])
     = map_option (float64_to_int64 ovf) (unmarshal_float64 b)"
  by (simp add: protoInt64_UnmarshalJSON_def quoted_ends Let_def c_quote_not_n butlast_append)

lemma parse_digits_tail:
  assumes "num_ok (dec n @ r)"
  shows "unmarshal_float64 (dec n @ r) = float_int_part (dec n @ r)"
  using parse_raw_json [of "JNum (dec n @ r)"] assms by (simp add: unmarshal_float64_def)

lemma num_ok_dec: "num_ok (dec n)" "num_ok (dec n @ ''.0'')"
proof -
  obtain c r where d: "dec n = c # r" by (cases "dec n") auto
  have digits: "is_dec_digit c" "list_all is_dec_digit r" using list_all_dec [of n] d by auto
  have zero: "r = []" if "c = CHR ''0''"
  proof -
    from that d have "hd (dec n) = CHR ''0''" by simp
    then have "n = 0" using dec_first_digit [of n] by blast
    with d show ?thesis by (simp add: dec.simps)
  qed
  have run: "num_run NInt (r @ t) = num_run NInt t" for t
    using digits(2) by (induction r) auto
  show "num_ok (dec n)" "num_ok (dec n @ ''.0'')"
    using digits(1) zero run [of "[]"] run [of "''.0''"] d
    by (cases "c = CHR ''0''"; auto simp: num_ok_def num_begin_def num_final_def is_dec_digit_def)+
qed

lemma protoInt64_float:
  assumes "m < 2 ^ 53"
  shows "protoInt64_UnmarshalJSON ovf (c_quote # (dec m @ ''.0'') @ [c_quote]) = Some (int m)"
proof -
  have "ParseInt (dec m @ ''.0'') = None"
    by (simp add: ParseInt_def dec_append_split_sign is_dec_digit_def)
  moreover have "int64_range (int m)" using assms by (simp add: int64_defs)
  moreover have "unmarshal_float64 (dec m @ ''.0'') = Some (int m)"
    using float_int_part_decimal_zero [OF assms] parse_digits_tail [OF num_ok_dec(2)] by simp
  ultimately show ?thesis
    using protoInt64_quoted [of "dec m @ ''.0''" ovf] by (simp add: float64_to_int64_def)
qed

lemma protoInt64_overflow:
  "protoInt64_UnmarshalJSON ovf (c_quote # dec (2 ^ 63) @ [c_quote]) = Some (ovf (2 ^ 63))"
proof -
  have "ParseInt (dec (2 ^ 63)) = None"
    by (simp add: ParseInt_def dec_split_sign list_all_dec)
  moreover note float_int_part_maxInt64_succ
  moreover have "\<not> int64_range (2 ^ 63)" by (simp add: int64_defs)
  ultimately show ?thesis
    using protoInt64_quoted [of "dec (2 ^ 63)" ovf] parse_digits_tail [of "2 ^ 63" "[]"] num_ok_dec(1)
    by (simp add: float64_to_int64_def)
qed

section \<open>Lemmas: decoding\<close>

lemma unquote_keys [simp]:
  "unquote ''event'' = ''event''" "unquote ''id'' = ''id''" "unquote ''createdAt'' = ''createdAt''"
  "unquote ''room'' = ''room''" "unquote ''participant'' = ''participant''" "unquote ''track'' = ''track''"
  "unquote ''sid'' = ''sid''" "unquote ''name'' = ''name''" "unquote ''creationTime'' = ''creationTime''"
  "unquote ''identity'' = ''identity''" "unquote ''joinedAt'' = ''joinedAt''"
  by (rule unquote_plain, simp add: plain_char_def c_quote_def c_bslash_def)+

lemma str_ok_keys [simp]:
  "str_ok ''event''" "str_ok ''id''" "str_ok ''createdAt''" "str_ok ''room''" "str_ok ''participant''"
  "str_ok ''track''" "str_ok ''sid''" "str_ok ''name''" "str_ok ''creationTime''"
  "str_ok ''identity''" "str_ok ''joinedAt''"
  by (rule str_ok_plain, simp add: plain_char_def c_quote_def c_bslash_def)+

lemma match_field_exact [simp]: "k \<in> set names \<Longrightarrow> match_field names k = Some k"
  by (simp add: match_field_def)

text \<open>
  A delivery as LiveKit sends it: the members in order, string literals with their escapes, and the times either
  as JSON numbers or, as protobuf's JSON mapping has it, as strings. The room comes with its SID, name and creation
  time, the participant with its SID, identity and joining time, the track with its SID; each of the three is
  there or not, as the type of the event has it.
\<close>

definition delivery ::
    "string \<Rightarrow> string \<Rightarrow> json \<Rightarrow> (string \<times> string \<times> json) option \<Rightarrow> (string \<times> string \<times> json) option \<Rightarrow> string option \<Rightarrow> json" where
  "delivery e i t room participant track =
     JObj ([(''event'', JStr e), (''id'', JStr i), (''createdAt'', t)] @
       (case room of None \<Rightarrow> []
        | Some (sid, name, at) \<Rightarrow> [(''room'', JObj [(''sid'', JStr sid), (''name'', JStr name), (''creationTime'', at)])]) @
       (case participant of None \<Rightarrow> []
        | Some (sid, ident, at) \<Rightarrow> [(''participant'', JObj [(''sid'', JStr sid), (''identity'', JStr ident), (''joinedAt'', at)])]) @
       (case track of None \<Rightarrow> [] | Some sid \<Rightarrow> [(''track'', JObj [(''sid'', JStr sid)])]))"

definition int64_json :: "int \<Rightarrow> json \<Rightarrow> bool" where
  "int64_json n t \<longleftrightarrow> t = JNum (int_text n) \<or> t = JStr (int_text n)"

lemma num_ok_int_text: "0 \<le> n \<Longrightarrow> num_ok (int_text n)"
  by (simp add: int_text_def num_ok_dec)

lemma str_ok_int_text: "str_ok (int_text n)"
  by (rule str_ok_plain)
    (auto simp: list_all_iff plain_char_def is_dec_digit_def c_quote_def c_bslash_def dest!: int_text_chars)

lemma decode_int64_json: "int64_json n t \<Longrightarrow> int64_range n \<Longrightarrow> decode_int64 ovf t = Some n"
  by (auto simp: int64_json_def decode_int64_def protoInt64_number protoInt64_string)

text \<open>A time \<open>n\<close> of a delivery, and an object with two strings and a time (\<open>0\<close> when the object is not there).\<close>

definition time_json :: "int \<Rightarrow> json \<Rightarrow> bool" where
  "time_json n t \<longleftrightarrow> int64_json n t \<and> 0 \<le> n \<and> n \<le> maxInt64"

definition object_json :: "int \<Rightarrow> (string \<times> string \<times> json) option \<Rightarrow> bool" where
  "object_json n obj \<longleftrightarrow> (case obj of None \<Rightarrow> n = 0 | Some (a, b, t) \<Rightarrow> str_ok a \<and> str_ok b \<and> time_json n t)"

lemma time_json_wf: "time_json n t \<Longrightarrow> wf_json t" "time_json n t \<Longrightarrow> jdepth t = 0" "time_json n t \<Longrightarrow> int64_range n"
  by (auto simp: time_json_def int64_json_def num_ok_int_text str_ok_int_text int64_defs)

lemma decode_time_json: "time_json n t \<Longrightarrow> decode_int64 ovf t = Some n"
  using decode_int64_json time_json_wf(3) by (auto simp: time_json_def)

lemma parse_delivery:
  assumes "str_ok e" "str_ok i" "time_json n t" "object_json nr room" "object_json np participant"
    and "\<forall>sid. track = Some sid \<longrightarrow> str_ok sid"
  shows "parse_json (raw_json (delivery e i t room participant track)) = Some (delivery e i t room participant track)"
proof (rule parse_raw_json)
  show "wf_json (delivery e i t room participant track)" "jdepth (delivery e i t room participant track) \<le> maxNestingDepth"
    using assms time_json_wf
    by (auto simp: delivery_def object_json_def maxNestingDepth_def split: option.splits)
qed

lemma unmarshal_delivery:
  assumes "str_ok e" "str_ok i" "time_json n t" "object_json nr room" "object_json np participant"
    and "\<forall>sid. track = Some sid \<longrightarrow> str_ok sid"
  shows "unmarshal_payload ovf (raw_json (delivery e i t room participant track)) =
    Some \<lparr>p_Event = unquote e, p_ID = unquote i, p_CreatedAt = n,
      p_Room = map_option (\<lambda>(sid, name, at). \<lparr>pr_SID = unquote sid, pr_Name = unquote name, pr_CreationTime = nr\<rparr>) room,
      p_Participant = map_option (\<lambda>(sid, ident, at). \<lparr>pp_SID = unquote sid, pp_Identity = unquote ident, pp_JoinedAt = np\<rparr>) participant,
      p_Track = map_option (\<lambda>sid. \<lparr>pt_SID = unquote sid\<rparr>) track\<rparr>"
proof -
  have "decode_int64 ovf at = Some nr" if "room = Some (sid, name, at)" for sid name at
    using assms(4) that decode_time_json by (simp add: object_json_def)
  moreover have "decode_int64 ovf at = Some np" if "participant = Some (sid, ident, at)" for sid ident at
    using assms(5) that decode_time_json by (simp add: object_json_def)
  moreover note decode_time_json [OF assms(3), of ovf]
  ultimately show ?thesis
    unfolding unmarshal_payload_def parse_delivery [OF assms]
    by (cases room; cases participant; cases track)
      (auto simp: delivery_def set_payload_def decode_pointer_def set_room_def set_participant_def set_track_def
        payload_names_def room_names_def participant_names_def track_names_def
        zeroPayload_def zeroRoom_def zeroParticipant_def zeroTrack_def)
qed

section \<open>Lemmas: the order of an object's members\<close>

definition member_step ::
  "string list \<Rightarrow> (string \<Rightarrow> json \<Rightarrow> 'r \<Rightarrow> 'r option) \<Rightarrow> string \<times> json \<Rightarrow> 'r \<Rightarrow> 'r option" where
  "member_step names setf kv r =
     (case match_field names (unquote (fst kv)) of None \<Rightarrow> Some r | Some n \<Rightarrow> setf n (snd kv) r)"

definition matched :: "string list \<Rightarrow> string \<times> json \<Rightarrow> string option" where
  "matched names kv = match_field names (unquote (fst kv))"

text \<open>No field of the struct is given twice.\<close>

definition members_distinct :: "string list \<Rightarrow> (string \<times> json) list \<Rightarrow> bool" where
  "members_distinct names kvs \<longleftrightarrow> distinct (filter (\<lambda>m. m \<noteq> None) (map (matched names) kvs))"

lemma match_field_in: "match_field names k = Some n \<Longrightarrow> n \<in> set names"
  by (auto simp: match_field_def find_Some_iff split: if_splits)

lemma matched_in: "matched names kv = Some n \<Longrightarrow> n \<in> set names"
  by (simp add: matched_def match_field_in)

lemma member_step_None: "matched names kv = None \<Longrightarrow> member_step names setf kv = Some"
  by (simp add: member_step_def matched_def fun_eq_iff)

lemma member_step_Some: "matched names kv = Some n \<Longrightarrow> member_step names setf kv = setf n (snd kv)"
  by (simp add: member_step_def matched_def fun_eq_iff)

lemma members_distinct_inj:
  "members_distinct names kvs \<Longrightarrow> x \<in> set kvs \<Longrightarrow> y \<in> set kvs \<Longrightarrow> matched names x \<noteq> None \<Longrightarrow>
   matched names x = matched names y \<Longrightarrow> x = y"
  by (induction kvs) (auto simp: members_distinct_def split: if_splits, (metis imageI)+)

lemma fold_bind_None: "fold (\<lambda>kv r. Option.bind r (f kv)) kvs None = None"
  by (induction kvs) simp_all

lemma decode_members_fold:
  "decode_members names setf kvs r = fold (\<lambda>kv ro. Option.bind ro (member_step names setf kv)) kvs (Some r)"
proof (induction names setf kvs r rule: decode_members.induct)
  case (2 names setf k v kvs r)
  then show ?case
    by (cases "match_field names (unquote k)"; cases "setf (the (match_field names (unquote k))) v r")
      (simp_all add: member_step_def fold_bind_None)
qed simp

text \<open>
  The interface a struct's field setters offer the decoder: setters of different fields
  commute. Then members given once each can come in any order.
\<close>

locale field_setters =
  fixes names :: "string list"
    and setf :: "string \<Rightarrow> json \<Rightarrow> 'r \<Rightarrow> 'r option"
  assumes setf_commute: "m \<in> set names \<Longrightarrow> n \<in> set names \<Longrightarrow> m \<noteq> n \<Longrightarrow>
      Option.bind (setf m v r) (setf n w) = Option.bind (setf n w r) (setf m v)"
begin

lemma member_step_commute:
  assumes "members_distinct names kvs" "x \<in> set kvs" "y \<in> set kvs"
  shows "Option.bind (member_step names setf x r) (member_step names setf y)
       = Option.bind (member_step names setf y r) (member_step names setf x)"
proof (cases "x = y")
  case False
  then have "matched names x = None \<or> matched names x \<noteq> matched names y"
    using members_distinct_inj [OF assms(1)] assms(2,3) by blast
  then show ?thesis
    by (cases "matched names x"; cases "matched names y")
      (simp_all add: member_step_None member_step_Some setf_commute matched_in)
qed simp

lemma decode_members_perm:
  assumes "members_distinct names kvs" and "mset kvs = mset kvs'"
  shows "decode_members names setf kvs r = decode_members names setf kvs' r"
proof -
  let ?f = "\<lambda>kv ro. Option.bind ro (member_step names setf kv)"
  have "fold ?f kvs = fold ?f kvs'"
  proof (rule fold_multiset_equiv [OF _ assms(2)])
    fix x y
    assume "x \<in> set kvs" "y \<in> set kvs"
    then have "?f x (?f y ro) = ?f y (?f x ro)" for ro
      using member_step_commute [OF assms(1), of y x] by (cases ro) simp_all
    then show "?f x \<circ> ?f y = ?f y \<circ> ?f x" by (simp add: fun_eq_iff)
  qed
  then show ?thesis by (simp add: decode_members_fold)
qed

end

lemma bind_map_option:
  "Option.bind (map_option f a) g = (case a of None \<Rightarrow> None | Some x \<Rightarrow> g (f x))"
  by (cases a) simp_all

interpretation room_fields: field_setters room_names "set_room ovf" for ovf
  by unfold_locales
    (simp add: room_names_def, elim disjE; simp add: set_room_def bind_map_option split: option.split)

interpretation participant_fields: field_setters participant_names "set_participant ovf" for ovf
  by unfold_locales
    (simp add: participant_names_def, elim disjE;
      simp add: set_participant_def bind_map_option split: option.split)

interpretation track_fields: field_setters track_names set_track
  by unfold_locales (simp add: track_names_def)

interpretation payload_fields: field_setters payload_names "set_payload ovf" for ovf
  by unfold_locales
    (simp add: payload_names_def, elim disjE; simp add: set_payload_def bind_map_option split: option.split)

section \<open>Lemmas: classification, time and identity\<close>

lemma map_of_self: "map_of (map (\<lambda>t. (t, t)) xs) e = (if e \<in> set xs then Some e else None)"
  by (induction xs) auto

lemma canonical_eq: "canonical e = (if e \<in> set CorrelatedEventTypes then Some e else None)"
proof -
  have "canonical = map_of (map (\<lambda>t. (t, t)) CorrelatedEventTypes)"
    by (simp add: canonical_def CorrelatedEventTypes_def event_type_defs)
  then show ?thesis by (metis map_of_self)
qed

lemma canonical_iff: "canonical e = Some t \<longleftrightarrow> e = t \<and> t \<in> set CorrelatedEventTypes"
  by (auto simp: canonical_eq)

lemma rejected_not_correlated: "e \<in> set rejected_types \<Longrightarrow> e \<notin> set CorrelatedEventTypes"
  by (auto simp: rejected_types_def CorrelatedEventTypes_def event_type_defs)

lemma wrap64_pos_not_zero: "0 < x \<Longrightarrow> x < 2 ^ 64 \<Longrightarrow> wrap64 x \<noteq> 0"
proof -
  assume x: "0 < x" "x < 2 ^ 64"
  show ?thesis
  proof (cases "x + 2 ^ 63 < 2 ^ 64")
    case True
    with x show ?thesis by (simp add: wrap64_def)
  next
    case False
    have "(x + 2 ^ 63) mod 2 ^ 64 = (x + 2 ^ 63 - 2 ^ 64) mod 2 ^ 64" by (simp only: minus_mod_self2)
    also have "\<dots> = x + 2 ^ 63 - 2 ^ 64" using False x by (intro mod_pos_pos_trivial) simp_all
    finally show ?thesis using x by (simp add: wrap64_def)
  qed
qed

lemma time_Unix_not_zero: "0 < n \<Longrightarrow> n \<le> maxInt64 \<Longrightarrow> \<not> IsZero (time_Unix n)"
  by (simp add: IsZero_def time_Unix_def wrap64_pos_not_zero unixToInternal_def maxInt64_def)

text \<open>The times a payload carries, in the order \<open>occurredAt\<close> consults them.\<close>

definition payload_times :: "payload \<Rightarrow> int list" where
  "payload_times p =
     p_CreatedAt p
     # (case p_Participant p of None \<Rightarrow> [] | Some pp \<Rightarrow> [pp_JoinedAt pp])
     @ (case p_Room p of None \<Rightarrow> [] | Some r \<Rightarrow> [pr_CreationTime r])"

lemma occurredAt_find:
  "occurredAt p = (case find (\<lambda>n. 0 < n) (payload_times p) of None \<Rightarrow> zeroTime | Some n \<Rightarrow> time_Unix n)"
  by (auto simp: occurredAt_def payload_times_def split: option.splits)

lemma Translate_payload_only:
  assumes "unmarshal_payload (dep_f64_overflow d) body = unmarshal_payload (dep_f64_overflow d) body'"
  shows "(fst (Translate d body k))\<lparr>ev_Payload := []\<rparr> = (fst (Translate d body' k))\<lparr>ev_Payload := []\<rparr>
         \<and> snd (Translate d body k) = snd (Translate d body' k)"
proof -
  have "(build_event p body disp)\<lparr>ev_ID := i, ev_Payload := b\<rparr>
      = (build_event p body' disp)\<lparr>ev_ID := i, ev_Payload := b\<rparr>" for p disp i b
    by (simp add: build_event_def Let_def split: option.split)
  moreover have "derive_id d p (build_event p body disp) k = derive_id d p (build_event p body' disp) k" for p disp
    by (simp add: derive_id_def build_event_def Let_def split: option.split)
  ultimately show ?thesis
    using assms by (simp add: Translate_def Let_def split: option.split)
qed

lemma Translate_delivery:
  assumes "str_ok e" "str_ok i" "time_json n t" "object_json nr room" "object_json np participant"
    and "\<forall>sid. track = Some sid \<longrightarrow> str_ok sid"
    and "unquote e \<in> set CorrelatedEventTypes" "unquote i \<noteq> []"
  shows "Translate d (raw_json (delivery e i t room participant track)) k =
    (\<lparr>ev_ID = dep_uuidString d (FromBackendEventID (dep_newSHA1 d) BackendLiveKit (unquote i)),
      ev_Backend = BackendLiveKit, ev_BackendEventID = unquote i, ev_Type = unquote e,
      ev_OccurredAt = (if 0 < n then time_Unix n else if 0 < np then time_Unix np
                       else if 0 < nr then time_Unix nr else zeroTime),
      ev_ReceivedAt = zeroTime,
      ev_RoomName = (case room of None \<Rightarrow> [] | Some (sid, name, at) \<Rightarrow> unquote name),
      ev_RoomSID = (case room of None \<Rightarrow> [] | Some (sid, name, at) \<Rightarrow> unquote sid),
      ev_ParticipantIdentity = (case participant of None \<Rightarrow> [] | Some (sid, ident, at) \<Rightarrow> unquote ident),
      ev_ParticipantSID = (case participant of None \<Rightarrow> [] | Some (sid, ident, at) \<Rightarrow> unquote sid),
      ev_TrackSID = (case track of None \<Rightarrow> [] | Some sid \<Rightarrow> unquote sid), ev_Payload = raw_json (delivery e i t room participant track)\<rparr>, Ingest, None)"
proof -
  have "canonical (unquote e) = Some (unquote e)" using assms(7) by (simp add: canonical_iff)
  moreover from this have "unquote e \<noteq> []" by (auto simp: canonical_def)
  moreover have "room = None \<Longrightarrow> nr = 0" "participant = None \<Longrightarrow> np = 0" using assms(4,5) by (simp_all add: object_json_def)
  moreover note unmarshal_delivery [OF assms(1-6), of "dep_f64_overflow d"]
  ultimately show ?thesis
    using assms(8)
    by (cases room; cases participant; cases track)
      (auto simp: Translate_def Classify_def build_event_def occurredAt_def derive_id_def zeroEvent_def Let_def)
qed

text \<open>What a translated event is made of, whatever the body: the types and ranges its consumers rely on.\<close>

definition event_typed :: "bytes \<Rightarrow> Event \<Rightarrow> Disposition \<Rightarrow> bool" where
  "event_typed body ev disp \<longleftrightarrow>
     ev_Backend ev = BackendLiveKit \<and> ev_Type ev \<noteq> [] \<and> disp = Classify (ev_Type ev) \<and>
     (disp = Ingest \<longleftrightarrow> ev_Type ev \<in> set CorrelatedEventTypes) \<and>
     time_wf (ev_OccurredAt ev) \<and> t_nsec (ev_OccurredAt ev) = 0 \<and> UTC (ev_OccurredAt ev) = ev_OccurredAt ev \<and>
     ev_ReceivedAt ev = zeroTime \<and>
     (if disp = Reject then ev = zeroEvent\<lparr>ev_Backend := BackendLiveKit, ev_Type := ev_Type ev\<rparr>
      else ev_Payload ev = body)"

lemma build_event_simps:
  "ev_Backend (build_event p body disp) = BackendLiveKit"
  "ev_Type (build_event p body disp) = (if disp = Store then p_Event p else case canonical (p_Event p) of Some t \<Rightarrow> t | None \<Rightarrow> [])"
  "ev_OccurredAt (build_event p body disp) = occurredAt p" "ev_ReceivedAt (build_event p body disp) = zeroTime"
  "ev_Payload (build_event p body disp) = body"
  by (simp_all add: build_event_def Let_def zeroEvent_def split: option.splits)

lemma occurredAt_typed:
  "time_wf (occurredAt p)" "t_nsec (occurredAt p) = 0" "UTC (occurredAt p) = occurredAt p"
  by (simp_all add: occurredAt_def time_wf_def UTC_def time_Unix_def zeroTime_def)

lemma build_event_typed:
  assumes "p_Event p \<noteq> []" "Classify (p_Event p) \<noteq> Reject"
  shows "event_typed body ((build_event p body (Classify (p_Event p)))\<lparr>ev_ID := i\<rparr>) (Classify (p_Event p))"
proof -
  have "ev_Type (build_event p body (Classify (p_Event p))) = p_Event p"
    using assms(2) by (auto simp: build_event_simps Classify_def canonical_eq split: if_splits)
  then show ?thesis
    using assms by (simp add: event_typed_def build_event_simps occurredAt_typed)
      (auto simp: Classify_def canonical_eq)
qed

section \<open>Properties\<close>

text \<open>
  C28. A genuine delivery is translated field by field from its bytes, for every shape LiveKit sends: room,
  participant and track each present or not, their times included, and each time written as a JSON number or, as
  protobuf's JSON mapping does, as a string. The event carries the canonical type, the decoded names and SIDs of
  room, participant and track (empty when the object is not there), the verbatim body, and the id derived from LiveKit's event
  id; it occurred at \<open>createdAt\<close>, and where that is zero at the participant's \<open>joinedAt\<close>, and where that is zero
  too at the room's \<open>creationTime\<close>, and never at a time of the receiver.
\<close>
theorem Translate_genuine_delivery:
  assumes "str_ok e" "str_ok i" "time_json n t" "object_json nr room" "object_json np participant"
    and "\<forall>sid. track = Some sid \<longrightarrow> str_ok sid"
    and "unquote e \<in> set CorrelatedEventTypes" "unquote i \<noteq> []"
  defines "body \<equiv> raw_json (delivery e i t room participant track)"
  shows "Translate d body k =
    (\<lparr>ev_ID = dep_uuidString d (FromBackendEventID (dep_newSHA1 d) BackendLiveKit (unquote i)),
      ev_Backend = BackendLiveKit, ev_BackendEventID = unquote i, ev_Type = unquote e,
      ev_OccurredAt = (if 0 < n then time_Unix n else if 0 < np then time_Unix np
                       else if 0 < nr then time_Unix nr else zeroTime),
      ev_ReceivedAt = zeroTime,
      ev_RoomName = (case room of None \<Rightarrow> [] | Some (sid, name, at) \<Rightarrow> unquote name),
      ev_RoomSID = (case room of None \<Rightarrow> [] | Some (sid, name, at) \<Rightarrow> unquote sid),
      ev_ParticipantIdentity = (case participant of None \<Rightarrow> [] | Some (sid, ident, at) \<Rightarrow> unquote ident),
      ev_ParticipantSID = (case participant of None \<Rightarrow> [] | Some (sid, ident, at) \<Rightarrow> unquote sid),
      ev_TrackSID = (case track of None \<Rightarrow> [] | Some sid \<Rightarrow> unquote sid), ev_Payload = body\<rparr>, Ingest, None)"
  unfolding body_def by (rule Translate_delivery [OF assms(1-8)])

definition demo_deps :: "string deps" where
  "demo_deps = \<lparr>dep_newSHA1 = (\<lambda>ns b. b), dep_uuidString = (\<lambda>u. u), dep_f64_overflow = (\<lambda>_. minInt64)\<rparr>"

text \<open>The body of \<^verbatim>\<open>TestTranslateAcceptsProtobufJSONIntegers\<close>, and one whose own time is missing.\<close>

definition real_delivery :: "int \<Rightarrow> json" where
  "real_delivery n = delivery ''participant_joined'' ''EV_real'' (JStr (int_text n))
     (Some (''RM_1'', ''standup'', JStr (int_text 1787791380))) (Some (''PA_1'', ''alice'', JStr (int_text 1787791385))) None"

lemma real_fields:
  "str_ok ''participant_joined''" "str_ok ''EV_real''" "unquote ''participant_joined'' = ''participant_joined''"
  "unquote ''EV_real'' = ''EV_real''" "unquote ''RM_1'' = ''RM_1''" "unquote ''standup'' = ''standup''"
  "unquote ''PA_1'' = ''PA_1''" "unquote ''alice'' = ''alice''"
  "object_json 1787791380 (Some (''RM_1'', ''standup'', JStr (int_text 1787791380)))"
  "object_json 1787791385 (Some (''PA_1'', ''alice'', JStr (int_text 1787791385)))"
proof -
  have plain: "list_all plain_char s \<Longrightarrow> str_ok s \<and> unquote s = s" for s
    by (simp add: str_ok_plain unquote_plain)
  have "list_all (list_all plain_char)
      [''participant_joined'', ''EV_real'', ''RM_1'', ''standup'', ''PA_1'', ''alice'']"
    by (simp add: plain_char_def c_quote_def c_bslash_def)
  then show "str_ok ''participant_joined''" "str_ok ''EV_real''" "unquote ''participant_joined'' = ''participant_joined''"
    "unquote ''EV_real'' = ''EV_real''" "unquote ''RM_1'' = ''RM_1''" "unquote ''standup'' = ''standup''"
    "unquote ''PA_1'' = ''PA_1''" "unquote ''alice'' = ''alice''"
    "object_json 1787791380 (Some (''RM_1'', ''standup'', JStr (int_text 1787791380)))"
    "object_json 1787791385 (Some (''PA_1'', ''alice'', JStr (int_text 1787791385)))"
    using plain by (simp_all add: object_json_def time_json_def int64_json_def maxInt64_def)
qed

theorem Translate_genuine_delivery_witness:
  "ev_OccurredAt (fst (Translate demo_deps (raw_json (real_delivery 1787791390)) 0)) = time_Unix 1787791390 \<and>
   ev_OccurredAt (fst (Translate demo_deps (raw_json (real_delivery 0)) 0)) = time_Unix 1787791385 \<and>
   ev_RoomName (fst (Translate demo_deps (raw_json (real_delivery 0)) 0)) = ''standup''"
proof -
  have "time_json 1787791390 (JStr (int_text 1787791390))" "time_json 0 (JStr (int_text 0))"
    by (simp_all add: time_json_def int64_json_def maxInt64_def)
  from this [THEN Translate_genuine_delivery [OF real_fields(1,2) _ real_fields(9,10), of _ _ None demo_deps 0]]
  show ?thesis
    by (simp add: real_delivery_def real_fields CorrelatedEventTypes_def event_type_defs)
qed

text \<open>
  Re-serialising a delivery does not split its identity: two bodies whose top-level members
  are the same in a different order translate to the same id, disposition and error, and to
  the same event but for the retained payload.
\<close>
theorem Translate_member_order:
  assumes "parse_json body = Some (JObj kvs)" and "parse_json body' = Some (JObj kvs')"
    and "mset kvs = mset kvs'" and "members_distinct payload_names kvs"
  shows "(fst (Translate d body k))\<lparr>ev_Payload := []\<rparr> = (fst (Translate d body' k))\<lparr>ev_Payload := []\<rparr>
         \<and> snd (Translate d body k) = snd (Translate d body' k)"
proof (rule Translate_payload_only)
  show "unmarshal_payload (dep_f64_overflow d) body = unmarshal_payload (dep_f64_overflow d) body'"
    using payload_fields.decode_members_perm [OF assms(4,3)] assms(1,2)
    by (simp add: unmarshal_payload_def)
qed

theorem Translate_member_order_witness:
  "ev_ID (fst (Translate demo_deps (raw_json (JObj [(''id'', JStr ''EV_9''), (''event'', JStr ''room_started'')])) 0))
   = ev_ID (fst (Translate demo_deps (raw_json (JObj [(''event'', JStr ''room_started''), (''id'', JStr ''EV_9'')])) 0))"
proof -
  let ?a = "[(''id'', JStr ''EV_9''), (''event'', JStr ''room_started'')]"
  let ?b = "[(''event'', JStr ''room_started''), (''id'', JStr ''EV_9'')]"
  have ok: "str_ok ''EV_9''" "str_ok ''room_started''"
    by (rule str_ok_plain, simp add: plain_char_def c_quote_def c_bslash_def)+
  have a: "parse_json (raw_json (JObj ?a)) = Some (JObj ?a)" and b: "parse_json (raw_json (JObj ?b)) = Some (JObj ?b)"
    by (rule parse_raw_json; simp add: ok maxNestingDepth_def)+
  have "mset ?a = mset ?b" by simp
  moreover have "members_distinct payload_names ?a"
    by (simp add: members_distinct_def matched_def payload_names_def)
  ultimately show ?thesis
    using Translate_member_order [OF a b, of demo_deps 0] 
    by (auto dest!: arg_cong [where f = ev_ID])
qed

text \<open>
  Intake policy: a type is ingested exactly when it is one of the six correlated types,
  refused exactly when it is an egress or ingress type, and anything else is stored under the
  backend's own name; the adapter never turns an unknown name into a canonical one.
\<close>
theorem Classify_policy:
  "(Classify e = Ingest \<longleftrightarrow> e \<in> set CorrelatedEventTypes)
   \<and> (Classify e = Reject \<longleftrightarrow> e \<in> set rejected_types)
   \<and> (Classify e = Store \<longleftrightarrow> e \<notin> set CorrelatedEventTypes \<and> e \<notin> set rejected_types)
   \<and> (\<forall>t. canonical e = Some t \<longleftrightarrow> t = e \<and> Classify e = Ingest)"
  using rejected_not_correlated [of e]
  by (auto simp: Classify_def canonical_eq)

text \<open>
  The event time is always the backend's: it is the first positive one of \<open>createdAt\<close>, the
  participant's \<open>joinedAt\<close> and the room's \<open>creationTime\<close>, and it is the zero time exactly when
  none of them is positive.
\<close>
theorem occurredAt_is_backend_time:
  assumes "list_all int64_range (payload_times p)"
  shows "occurredAt p = (case find (\<lambda>n. 0 < n) (payload_times p) of None \<Rightarrow> zeroTime | Some n \<Rightarrow> time_Unix n)
         \<and> (IsZero (occurredAt p) \<longleftrightarrow> (\<forall>n \<in> set (payload_times p). n \<le> 0))"
proof -
  define r where "r = find (\<lambda>n. 0 < n) (payload_times p)"
  have some: "\<not> IsZero (time_Unix n)" "\<exists>m \<in> set (payload_times p). 0 < m" if "r = Some n" for n
    using that assms time_Unix_not_zero [of n]
    by (auto simp: r_def find_Some_iff list_all_length int64_defs)
  have none: "\<forall>m \<in> set (payload_times p). m \<le> 0" if "r = None"
    using that by (auto simp: r_def find_None_iff not_less)
  have "occurredAt p = (case r of None \<Rightarrow> zeroTime | Some n \<Rightarrow> time_Unix n)"
    by (simp only: r_def occurredAt_find)
  moreover have "IsZero zeroTime" by (simp add: IsZero_def zeroTime_def)
  ultimately have "IsZero (occurredAt p) \<longleftrightarrow> (\<forall>n \<in> set (payload_times p). n \<le> 0)"
    using some none by (cases r) (force simp: not_le [symmetric])+
  with occurredAt_find show ?thesis by blast
qed

theorem occurredAt_is_backend_time_witness:
  "occurredAt (zeroPayload\<lparr>p_Room := Some (zeroRoom\<lparr>pr_CreationTime := 5\<rparr>)\<rparr>) = time_Unix 5"
  using occurredAt_is_backend_time [of "zeroPayload\<lparr>p_Room := Some (zeroRoom\<lparr>pr_CreationTime := 5\<rparr>)\<rparr>"]
  by (simp add: payload_times_def zeroPayload_def zeroRoom_def int64_defs)

text \<open>
  C36. \<open>protoInt64\<close> decodes every 64-bit integer exactly from a JSON number and from a JSON string,
  and a float-formatted integer below \<open>2^53\<close> exactly; \<open>null\<close> and the empty string are zero. An
  integer literal one past the range is not an error: it takes the float path and becomes
  whatever the platform converts an out-of-range float to.
\<close>
theorem protoInt64_decodes:
  assumes "int64_range n" and "m < 2 ^ 53"
  shows "protoInt64_UnmarshalJSON ovf (raw_json (JNum (int_text n))) = Some n
    \<and> protoInt64_UnmarshalJSON ovf (raw_json (JStr (int_text n))) = Some n
    \<and> protoInt64_UnmarshalJSON ovf (raw_json (JStr (dec m @ ''.0''))) = Some (int m)
    \<and> protoInt64_UnmarshalJSON ovf (raw_json JNull) = Some 0
    \<and> protoInt64_UnmarshalJSON ovf (raw_json (JStr [])) = Some 0
    \<and> protoInt64_UnmarshalJSON ovf (raw_json (JStr (dec (2 ^ 63)))) = Some (ovf (2 ^ 63))"
  using assms protoInt64_float [of m ovf]
  by (simp add: protoInt64_number protoInt64_string protoInt64_null protoInt64_empty
      protoInt64_overflow [simplified])

theorem protoInt64_decodes_witness:
  "protoInt64_UnmarshalJSON (\<lambda>_. minInt64) (raw_json (JStr (int_text (- 7)))) = Some (- 7)"
  using protoInt64_decodes [of "- 7" 0] by (simp add: int64_defs)

text \<open>C27. Every body translates to a well-formed event or to an error with the zero event. A translated event
  is LiveKit's, its type is not empty and decides its disposition (ingested exactly when canonical),
  its time is a UTC time in whole seconds and in range, the receive time is left for the server, and
  the payload is the body itself; a rejected delivery carries its type and nothing else.\<close>

theorem Translate_well_typed:
  "case Translate d body ordinal of
     (ev, disp, Some e) \<Rightarrow> ev = zeroEvent \<and> disp = Store
   | (ev, disp, None) \<Rightarrow> event_typed body ev disp"
proof (cases "unmarshal_payload (dep_f64_overflow d) body")
  case None
  then show ?thesis by (simp add: Translate_def)
next
  case (Some p)
  consider "p_Event p = []" | "p_Event p \<noteq> []" "Classify (p_Event p) = Reject"
    | "p_Event p \<noteq> []" "Classify (p_Event p) \<noteq> Reject" by blast
  then show ?thesis
  proof cases
    case 1
    then show ?thesis using Some by (simp add: Translate_def)
  next
    case 2
    then have "p_Event p \<notin> set CorrelatedEventTypes" by (auto simp: Classify_def canonical_eq)
    then show ?thesis
      using Some 2 by (simp add: Translate_def event_typed_def zeroEvent_def time_wf_def UTC_def zeroTime_def)
  next
    case 3
    then show ?thesis using Some build_event_typed [OF 3] by (simp add: Translate_def Let_def)
  qed
qed

end
