(* ===== verification/Go_Crypto.thy ===== *)
theory Go_Crypto
  imports Go_Prelude
begin

unbundle bit_operations_syntax

text \<open>
  The standard-library functions signature verification rests on: \<open>sha256.Sum256\<close>,
  \<open>base64.StdEncoding.EncodeToString\<close> and \<open>subtle.ConstantTimeCompare\<close>. The encoding is proved
  injective and the comparison exact, so that the digest check of the verifier is equality
  of digests.
\<close>

section \<open>SHA-256\<close>

type_synonym w32 = "32 word"

text \<open>The constants are not tabulated but computed as FIPS 180-4 defines them: the first 32 bits of
  the fractional parts of the cube roots of the first 64 primes, and, for the initial state, of the
  square roots of the first eight. \<open>root_bits k n b r\<close> settles the \<open>b\<close> low bits of the integer
  \<open>k\<close>-th root of \<open>n\<close>, from the highest down.\<close>

fun root_bits :: "nat \<Rightarrow> int \<Rightarrow> nat \<Rightarrow> int \<Rightarrow> int" where
  "root_bits k n 0 r = r"
| "root_bits k n (Suc b) r = root_bits k n b (if (r + 2 ^ b) ^ k \<le> n then r + 2 ^ b else r)"

definition root_fraction :: "nat \<Rightarrow> int \<Rightarrow> w32" where
  "root_fraction k p = of_int (root_bits k (p * 2 ^ (32 * k)) 37 0)"

definition small_primes :: "int list" where
  "small_primes = filter (\<lambda>p. \<forall>d \<in> set [2 .. p - 1]. p mod d \<noteq> 0) [2 .. 311]"

definition sha256_K :: "w32 list" where
  "sha256_K = map (root_fraction 3) small_primes"

definition sha256_init :: "w32 list" where
  "sha256_init = map (root_fraction 2) [2, 3, 5, 7, 11, 13, 17, 19]"

definition sha_small :: "nat \<Rightarrow> nat \<Rightarrow> nat \<Rightarrow> w32 \<Rightarrow> w32" where
  "sha_small r s k x = word_rotr r x XOR word_rotr s x XOR drop_bit k x"

definition sha_big :: "nat \<Rightarrow> nat \<Rightarrow> nat \<Rightarrow> w32 \<Rightarrow> w32" where
  "sha_big r s u x = word_rotr r x XOR word_rotr s x XOR word_rotr u x"

text \<open>One more word of the message schedule; the newest word is in front.\<close>

definition schedule_next :: "w32 list \<Rightarrow> w32" where
  "schedule_next ws = sha_small 17 19 10 (ws ! 1) + ws ! 6 + sha_small 7 18 3 (ws ! 14) + ws ! 15"

fun schedule_extend :: "nat \<Rightarrow> w32 list \<Rightarrow> w32 list" where
  "schedule_extend 0 ws = ws"
| "schedule_extend (Suc n) ws = schedule_extend n (schedule_next ws # ws)"

fun sha256_round :: "w32 list \<Rightarrow> w32 \<times> w32 \<Rightarrow> w32 list" where
  "sha256_round [a, b, c, d, e, f, g, h] (k, w) =
     (let t1 = h + sha_big 6 11 25 e + ((e AND f) XOR (NOT e AND g)) + k + w;
          t2 = sha_big 2 13 22 a + ((a AND b) XOR (a AND c) XOR (b AND c))
      in [t1 + t2, a, b, c, d + t1, e, f, g])"
| "sha256_round st kw = st"

definition be32 :: "bytes \<Rightarrow> w32" where
  "be32 s = foldl (\<lambda>v c. 256 * v + of_nat (of_char c)) 0 s"

fun words_of :: "nat \<Rightarrow> bytes \<Rightarrow> w32 list" where
  "words_of 0 s = []"
| "words_of (Suc n) s = be32 (take 4 s) # words_of n (drop 4 s)"

definition sha256_block :: "w32 list \<Rightarrow> bytes \<Rightarrow> w32 list" where
  "sha256_block H blk =
     (let W = rev (schedule_extend 48 (rev (words_of 16 blk)))
      in map2 (+) H (foldl sha256_round H (zip sha256_K W)))"

fun sha256_blocks :: "nat \<Rightarrow> w32 list \<Rightarrow> bytes \<Rightarrow> w32 list" where
  "sha256_blocks 0 H s = H"
| "sha256_blocks (Suc n) H s = sha256_blocks n (sha256_block H (take 64 s)) (drop 64 s)"

definition be_bytes :: "nat \<Rightarrow> nat \<Rightarrow> bytes" where
  "be_bytes k v = map (\<lambda>i. char_of (v div 256 ^ i)) (rev [0 ..< k])"

definition sha256_pad :: "bytes \<Rightarrow> bytes" where
  "sha256_pad m = m @ char_of (0x80 :: nat) # replicate ((119 - length m mod 64) mod 64) (char_of (0 :: nat))
     @ be_bytes 8 (8 * length m)"

definition sha256_Sum256 :: "bytes \<Rightarrow> bytes" where
  "sha256_Sum256 m =
     (let p = sha256_pad m
      in concat (map (\<lambda>w. be_bytes 4 (unat w)) (sha256_blocks (length p div 64) sha256_init p)))"

section \<open>Base64\<close>

definition b64_alphabet :: string where
  "b64_alphabet = ''ABCDEFGHIJKLMNOPQRSTUVWXYZabcdefghijklmnopqrstuvwxyz0123456789+/''"

definition b64_char :: "nat \<Rightarrow> char" where
  "b64_char n = b64_alphabet ! (n mod 64)"

fun b64_encode :: "bytes \<Rightarrow> string" where
  "b64_encode [] = []"
| "b64_encode [a] =
     (let x = of_char a in [b64_char (x div 4), b64_char (x mod 4 * 16), CHR ''='', CHR ''=''])"
| "b64_encode [a, b] =
     (let x = of_char a; y = of_char b
      in [b64_char (x div 4), b64_char (x mod 4 * 16 + y div 16), b64_char (y mod 16 * 4), CHR ''=''])"
| "b64_encode (a # b # c # r) =
     (let x = of_char a; y = of_char b; z = of_char c
      in b64_char (x div 4) # b64_char (x mod 4 * 16 + y div 16) # b64_char (y mod 16 * 4 + z div 64)
         # b64_char (z mod 64) # b64_encode r)"

section \<open>Constant-time comparison\<close>

definition ConstantTimeCompare :: "bytes \<Rightarrow> bytes \<Rightarrow> nat" where
  "ConstantTimeCompare x y =
     (if length x \<noteq> length y then 0
      else let v = foldl (\<lambda>v (a, b). v OR (of_nat (of_char a) XOR of_nat (of_char b))) (0 :: 8 word) (zip x y)
           in if v = 0 then 1 else 0)"

section \<open>Lemmas\<close>

lemma b64_alphabet_props: "length b64_alphabet = 64" "distinct b64_alphabet" "CHR ''='' \<notin> set b64_alphabet"
  by (simp_all add: b64_alphabet_def)

lemma b64_char_eq: "m < 64 \<Longrightarrow> n < 64 \<Longrightarrow> b64_char m = b64_char n \<longleftrightarrow> m = n"
  by (simp add: b64_char_def nth_eq_iff_index_eq b64_alphabet_props)

lemma b64_char_not_pad [simp]: "b64_char n \<noteq> CHR ''=''" "CHR ''='' \<noteq> b64_char n"
proof -
  have "b64_char n \<in> set b64_alphabet" by (simp add: b64_char_def b64_alphabet_props)
  then show "b64_char n \<noteq> CHR ''=''" "CHR ''='' \<noteq> b64_char n"
    using b64_alphabet_props(3) by metis+
qed

lemma of_char_bound: "of_char c < (256 :: nat)"
  by (metis of_char_mod_256 mod_less_divisor zero_less_numeral)

lemma b64_index_bounds:
  "of_char a div 4 < (64 :: nat)" "of_char a mod 4 * 16 < (64 :: nat)"
  "of_char a mod 4 * 16 + of_char b div 16 < (64 :: nat)" "of_char b mod 16 * 4 < (64 :: nat)"
  "of_char b mod 16 * 4 + of_char c div 64 < (64 :: nat)"
proof -
  have "of_char a mod 4 < (4 :: nat)" "of_char b mod 16 < (16 :: nat)" by simp_all
  moreover have "of_char b div 16 < (16 :: nat)" "of_char c div 64 < (4 :: nat)"
    using of_char_bound [of b] of_char_bound [of c] by (simp_all add: less_mult_imp_div_less)
  ultimately show "of_char a mod 4 * 16 < (64 :: nat)" "of_char a mod 4 * 16 + of_char b div 16 < (64 :: nat)"
    "of_char b mod 16 * 4 < (64 :: nat)" "of_char b mod 16 * 4 + of_char c div 64 < (64 :: nat)"
    by linarith+
  show "of_char a div 4 < (64 :: nat)" using of_char_bound [of a] by (simp add: less_mult_imp_div_less)
qed

lemma radix_unique:
  fixes k :: nat
  assumes "p * k + q = p' * k + q'" "q < k" "q' < k"
  shows "p = p'" "q = q'"
proof -
  have "(p * k + q) div k = p" "(p' * k + q') div k = p'" using assms(2,3) by simp_all
  with assms(1) show "p = p'" by simp
  with assms(1) show "q = q'" by simp
qed

lemma b64_quad:
  fixes x y z x' y' z' :: nat
  assumes "x div 4 = x' div 4" "x mod 4 * 16 + y div 16 = x' mod 4 * 16 + y' div 16"
    "y mod 16 * 4 + z div 64 = y' mod 16 * 4 + z' div 64" "z mod 64 = z' mod 64"
    and "y < 256" "y' < 256" "z < 256" "z' < 256"
  shows "x = x'" "y = y'" "z = z'"
proof -
  have "y div 16 < 16" "y' div 16 < 16" "z div 64 < 4" "z' div 64 < 4"
    using assms(5-8) by (simp_all add: less_mult_imp_div_less)
  with radix_unique [OF assms(2)] radix_unique [OF assms(3)]
  have "x mod 4 = x' mod 4" "y div 16 = y' div 16" "y mod 16 = y' mod 16" "z div 64 = z' div 64"
    by simp_all
  with assms(1,4) show "x = x'" "y = y'" "z = z'" by (metis mult_div_mod_eq)+
qed

lemma of_char_inj: "of_char a = (of_char b :: nat) \<Longrightarrow> a = b"
  by simp

lemma b64_encode_inj: "b64_encode s = b64_encode t \<Longrightarrow> s = t"
proof (induction s arbitrary: t rule: b64_encode.induct)
  case 1
  then show ?case by (cases t rule: b64_encode.cases) (auto simp: Let_def)
next
  case (2 a)
  have "a = a'" if "of_char a div 4 = (of_char a' div 4 :: nat)" "of_char a mod 4 = (of_char a' mod 4 :: nat)" for a'
    using b64_quad(1) [of "of_char a" "of_char a'" 0 0 0 0] that by simp
  with 2 show ?case
    by (cases t rule: b64_encode.cases) (auto simp: Let_def b64_char_eq b64_index_bounds)
next
  case (3 a b)
  have "a = a' \<and> b = b'" if "of_char a div 4 = (of_char a' div 4 :: nat)"
    "of_char a mod 4 * 16 + of_char b div 16 = (of_char a' mod 4 * 16 + of_char b' div 16 :: nat)"
    "of_char b mod 16 = (of_char b' mod 16 :: nat)" for a' b'
    using b64_quad [of "of_char a" "of_char a'" "of_char b" "of_char b'" 0 0] that of_char_bound by simp
  with 3 show ?case
    by (cases t rule: b64_encode.cases) (auto simp: Let_def b64_char_eq b64_index_bounds)
next
  case (4 a b c r)
  have "a = a' \<and> b = b' \<and> c = c'" if "of_char a div 4 = (of_char a' div 4 :: nat)"
    "of_char a mod 4 * 16 + of_char b div 16 = (of_char a' mod 4 * 16 + of_char b' div 16 :: nat)"
    "of_char b mod 16 * 4 + of_char c div 64 = (of_char b' mod 16 * 4 + of_char c' div 64 :: nat)"
    "of_char c mod 64 = (of_char c' mod 64 :: nat)" for a' b' c'
    using b64_quad [of "of_char a" "of_char a'" "of_char b" "of_char b'" "of_char c" "of_char c'"] that
      of_char_bound by simp
  with 4 show ?case
    by (cases t rule: b64_encode.cases) (auto simp: Let_def b64_char_eq b64_index_bounds)
qed

lemma b64_encode_not_Nil: "s \<noteq> [] \<Longrightarrow> b64_encode s \<noteq> []"
  by (cases s rule: b64_encode.cases) (simp_all add: Let_def)

lemma xor_bytes_zero:
  "(of_nat (of_char a) XOR of_nat (of_char b) :: 8 word) = 0 \<longleftrightarrow> a = b"
proof -
  have "(of_nat (of_char a) :: 8 word) = of_nat (of_char b) \<longleftrightarrow> a = b"
    by (simp add: word_of_nat_eq_iff take_bit_eq_mod of_char_mod_256)
  moreover have "v XOR w = 0 \<longleftrightarrow> v = w" for v w :: "8 word"
    by (auto simp: bit_eq_iff bit_xor_iff)
  ultimately show ?thesis by simp
qed

lemma compare_fold:
  "length x = length y \<Longrightarrow>
   foldl (\<lambda>v (a, b). v OR (of_nat (of_char a) XOR of_nat (of_char b))) v (zip x y) = (0 :: 8 word)
     \<longleftrightarrow> v = 0 \<and> x = y"
proof (induction x y arbitrary: v rule: list_induct2)
  case (Cons a x b y)
  have "v OR w = 0 \<longleftrightarrow> v = 0 \<and> w = 0" for v w :: "8 word"
    by (rule or_eq_0_iff)
  with Cons show ?case by (simp add: xor_bytes_zero)
qed simp

lemma ConstantTimeCompare_iff: "ConstantTimeCompare x y = 1 \<longleftrightarrow> x = y"
  by (auto simp: ConstantTimeCompare_def compare_fold)

lemma length_be_bytes [simp]: "length (be_bytes k v) = k"
  by (simp add: be_bytes_def)

lemma length_sha256_round: "length st = 8 \<Longrightarrow> length (sha256_round st kw) = 8"
  by (cases "(st, kw)" rule: sha256_round.cases) (auto simp: Let_def)

lemma length_sha256_rounds: "length st = 8 \<Longrightarrow> length (foldl sha256_round st kws) = 8"
  by (induction kws arbitrary: st) (simp_all add: length_sha256_round)

lemma length_sha256_blocks: "length H = 8 \<Longrightarrow> length (sha256_blocks n H s) = 8"
  by (induction n arbitrary: H s) (simp_all add: sha256_block_def length_sha256_rounds Let_def)

lemma length_concat_const: "(\<And>x. length (f x) = k) \<Longrightarrow> length (concat (map f xs)) = k * length xs"
  by (induction xs) simp_all

lemma length_sha256: "length (sha256_Sum256 m) = 32"
  by (simp add: sha256_Sum256_def Let_def length_concat_const [where k = 4] length_sha256_blocks sha256_init_def)

end
