(* ===== verification/Livekit_Verify.thy ===== *)
theory Livekit_Verify
  imports Go_Crypto
begin

text \<open>
  Authentication of a LiveKit delivery (\<^verbatim>\<open>internal/ingest/adapter/livekit/verify.go\<close>). The JWT
  library is not part of the repository: \<open>jwt.ParseWithClaims\<close> is the parameter \<open>parse\<close>, a
  function of the options the code passes, of the key its key function returns and of the token.
  What the package documents of a successful parse is \<open>jwt_contract\<close>; the parse function of
  \<open>reference_parse\<close> satisfies it. The body digest, its base64 text and the constant-time
  comparison are those of \<open>Go_Crypto\<close>.
\<close>

section \<open>The program\<close>

record Verifier =
  vf_apiKey :: string
  vf_apiSecret :: bytes

datatype verifier_error = ErrNoSecret

definition NewVerifier :: "string \<Rightarrow> string \<Rightarrow> verifier_error + Verifier" where
  "NewVerifier apiKey apiSecret =
     (if apiSecret = [] then Inl ErrNoSecret
      else Inr \<lparr>vf_apiKey = apiKey, vf_apiSecret = apiSecret\<rparr>)"

text \<open>
  The claims of a token are a Go map with dynamically typed values; the code asks one of them
  whether it is a string. Every failure of \<open>Verify\<close> wraps the one error \<open>ErrUnverified\<close>; the
  constructors of \<open>unverified\<close> are its four return statements.
\<close>

datatype claim = ClaimString string | ClaimOther

type_synonym claims = "string \<rightharpoonup> claim"

record jwt_options =
  jo_validMethods :: "string list"
  jo_expirationRequired :: bool
  jo_issuer :: string

type_synonym jwt_parse = "jwt_options \<Rightarrow> bytes \<Rightarrow> string \<Rightarrow> claims option"

datatype unverified = NoAuthorization | BadToken | NoBodyDigest | DigestMismatch

definition verify_options :: "Verifier \<Rightarrow> jwt_options" where
  "verify_options v =
     \<lparr>jo_validMethods = [''HS256''], jo_expirationRequired = True, jo_issuer = vf_apiKey v\<rparr>"

definition string_claim :: "claims \<Rightarrow> string \<Rightarrow> string" where
  "string_claim c k = (case c k of Some (ClaimString s) \<Rightarrow> s | _ \<Rightarrow> [])"

definition Verify :: "jwt_parse \<Rightarrow> Verifier \<Rightarrow> string \<Rightarrow> bytes \<Rightarrow> unverified option" where
  "Verify parse v authorization body =
     (if authorization = [] then Some NoAuthorization
      else case parse (verify_options v) (vf_apiSecret v) authorization of
        None \<Rightarrow> Some BadToken
      | Some claims \<Rightarrow>
          let claimed = string_claim claims ''sha256''
          in if claimed = [] then Some NoBodyDigest
             else let expected = b64_encode (sha256_Sum256 body)
                  in if ConstantTimeCompare claimed expected \<noteq> 1 then Some DigestMismatch
                     else None)"

section \<open>What a successful parse promises\<close>

text \<open>
  The parts of a compact token a verifier looks at: the algorithm its header names, the bytes
  that were signed, the signature, and the claims with \<open>exp\<close> and \<open>iss\<close> read out. The
  library documents that a parse without error means: the algorithm is one of the valid methods,
  the signature is that algorithm's under the key, an expiry is present when one is required and
  lies after the current time, and the issuer is the expected one when an expected one is
  configured (an empty expectation is no check).
\<close>

record token_view =
  tv_alg :: string
  tv_input :: bytes
  tv_signature :: bytes
  tv_exp :: "int option"
  tv_iss :: string
  tv_claims :: claims

definition token_valid ::
    "(string \<Rightarrow> bytes \<Rightarrow> bytes \<Rightarrow> bytes) \<Rightarrow> int \<Rightarrow> jwt_options \<Rightarrow> bytes \<Rightarrow> token_view \<Rightarrow> bool" where
  "token_valid mac now opts key tv \<longleftrightarrow>
     tv_alg tv \<in> set (jo_validMethods opts) \<and>
     mac (tv_alg tv) key (tv_input tv) = tv_signature tv \<and>
     (case tv_exp tv of None \<Rightarrow> \<not> jo_expirationRequired opts | Some e \<Rightarrow> now < e) \<and>
     (jo_issuer opts = [] \<or> tv_iss tv = jo_issuer opts)"

definition jwt_contract ::
    "(string \<Rightarrow> bytes \<Rightarrow> bytes \<Rightarrow> bytes) \<Rightarrow> (string \<Rightarrow> token_view option) \<Rightarrow> int \<Rightarrow> jwt_parse \<Rightarrow> bool" where
  "jwt_contract mac view now parse \<longleftrightarrow>
     (\<forall>opts key tok c. parse opts key tok = Some c \<longrightarrow>
        (\<exists>tv. view tok = Some tv \<and> token_valid mac now opts key tv \<and> c = tv_claims tv))"

definition reference_parse ::
    "(string \<Rightarrow> bytes \<Rightarrow> bytes \<Rightarrow> bytes) \<Rightarrow> (string \<Rightarrow> token_view option) \<Rightarrow> int \<Rightarrow> jwt_parse" where
  "reference_parse mac view now opts key tok =
     (case view tok of
        None \<Rightarrow> None
      | Some tv \<Rightarrow> if token_valid mac now opts key tv then Some (tv_claims tv) else None)"

section \<open>Lemmas\<close>

lemma reference_parse_contract: "jwt_contract mac view now (reference_parse mac view now)"
  by (auto simp: jwt_contract_def reference_parse_def split: option.splits if_splits)

lemma digest_text_not_Nil [simp]: "b64_encode (sha256_Sum256 body) \<noteq> []"
proof -
  have "sha256_Sum256 body \<noteq> []"
    using length_sha256 [of body] by auto
  then show ?thesis by (rule b64_encode_not_Nil)
qed

lemma string_claim_iff:
  "s \<noteq> [] \<Longrightarrow> string_claim c k = s \<longleftrightarrow> c k = Some (ClaimString s)"
  by (auto simp: string_claim_def split: option.splits claim.splits)

lemma Verify_accepts:
  "Verify parse v authorization body = None \<longleftrightarrow>
     authorization \<noteq> [] \<and>
     (\<exists>c. parse (verify_options v) (vf_apiSecret v) authorization = Some c \<and>
          c ''sha256'' = Some (ClaimString (b64_encode (sha256_Sum256 body))))"
proof (cases "authorization = [] \<or> parse (verify_options v) (vf_apiSecret v) authorization = None")
  case True
  then show ?thesis by (auto simp: Verify_def)
next
  case False
  then obtain c where c: "authorization \<noteq> []"
      "parse (verify_options v) (vf_apiSecret v) authorization = Some c" by auto
  define d where "d = b64_encode (sha256_Sum256 body)"
  have d: "d \<noteq> []" unfolding d_def by (rule digest_text_not_Nil)
  have "Verify parse v authorization body = None \<longleftrightarrow> string_claim c ''sha256'' = d"
    using c d by (auto simp: Verify_def Let_def ConstantTimeCompare_iff [unfolded One_nat_def] d_def [symmetric])
  then show ?thesis
    using c by (simp add: string_claim_iff [OF d] d_def [symmetric])
qed

definition demo_mac :: "string \<Rightarrow> bytes \<Rightarrow> bytes \<Rightarrow> bytes" where
  "demo_mac alg key input = alg @ key @ input"

definition demo_view :: "bytes \<Rightarrow> string \<Rightarrow> token_view option" where
  "demo_view body tok = Some \<lparr>tv_alg = ''HS256'', tv_input = tok, tv_signature = ''HS256secret'' @ tok,
     tv_exp = Some 100, tv_iss = ''devkey'',
     tv_claims = [''sha256'' \<mapsto> ClaimString (b64_encode (sha256_Sum256 body))]\<rparr>"

definition demo_verifier :: Verifier where
  "demo_verifier = \<lparr>vf_apiKey = ''devkey'', vf_apiSecret = ''secret''\<rparr>"

definition demo_parse :: "bytes \<Rightarrow> jwt_parse" where
  "demo_parse body = reference_parse demo_mac (demo_view body) 42"

lemma demo_Verify: "Verify (demo_parse body) demo_verifier ''token'' body = None"
  by (simp add: Verify_accepts demo_parse_def reference_parse_def demo_view_def demo_mac_def
      token_valid_def verify_options_def demo_verifier_def)

section \<open>Properties\<close>

text \<open>A delivery is accepted exactly when a token is present, the library accepts it under the
  verifier's secret and options, and its \<open>sha256\<close> claim is a string equal to the base64 text of
  the SHA-256 digest of the very bytes received. In every other case (missing header, refused
  token, claim absent or of another type, other digest) the delivery is refused.\<close>

theorem Verify_accepts_iff:
  "Verify parse v authorization body = None \<longleftrightarrow>
     authorization \<noteq> [] \<and>
     (\<exists>c. parse (verify_options v) (vf_apiSecret v) authorization = Some c \<and>
          c ''sha256'' = Some (ClaimString (b64_encode (sha256_Sum256 body))))"
  by (rule Verify_accepts)

text \<open>C18. Under the documented behaviour of the JWT library, an accepted delivery carries a token
  whose header names HS256 and no other algorithm, whose signature is the HS256 code of the
  signed bytes under the configured secret, which has an expiry in the future, and whose issuer
  is the configured API key when one is configured. A token with \<open>alg=none\<close>, one without expiry,
  and one of another key holder are refused.\<close>

theorem Verify_accepts_only_genuine_tokens:
  assumes "jwt_contract mac view now parse"
    and "Verify parse v authorization body = None"
  shows "\<exists>tv. view authorization = Some tv \<and> tv_alg tv = ''HS256'' \<and>
           mac ''HS256'' (vf_apiSecret v) (tv_input tv) = tv_signature tv \<and>
           (\<exists>e. tv_exp tv = Some e \<and> now < e) \<and>
           (vf_apiKey v \<noteq> [] \<longrightarrow> tv_iss tv = vf_apiKey v) \<and>
           tv_claims tv ''sha256'' = Some (ClaimString (b64_encode (sha256_Sum256 body)))"
proof -
  obtain c where c: "parse (verify_options v) (vf_apiSecret v) authorization = Some c"
      "c ''sha256'' = Some (ClaimString (b64_encode (sha256_Sum256 body)))"
    using assms(2) unfolding Verify_accepts by blast
  obtain tv where "view authorization = Some tv" "c = tv_claims tv"
      "token_valid mac now (verify_options v) (vf_apiSecret v) tv"
    using assms(1) c(1) unfolding jwt_contract_def by blast
  then show ?thesis
    using c(2) by (auto simp: token_valid_def verify_options_def split: option.splits)
qed

theorem Verify_accepts_only_genuine_tokens_witness:
  "\<exists>tv. demo_view ''{}'' ''token'' = Some tv \<and> tv_alg tv = ''HS256'' \<and>
     demo_mac ''HS256'' ''secret'' (tv_input tv) = tv_signature tv \<and>
     (\<exists>e. tv_exp tv = Some e \<and> 42 < e) \<and> (''devkey'' \<noteq> [] \<longrightarrow> tv_iss tv = ''devkey'') \<and>
     tv_claims tv ''sha256'' = Some (ClaimString (b64_encode (sha256_Sum256 ''{}'')))"
  using Verify_accepts_only_genuine_tokens
      [OF reference_parse_contract demo_Verify [of "''{}''", unfolded demo_parse_def]]
  by (simp only: demo_verifier_def Verifier.simps)

text \<open>C19. A captured header cannot be replayed against another body: once a token is accepted with
  one body, it is accepted with another exactly when the two bodies have the same SHA-256 digest.
  A different body is accepted only on a collision of SHA-256.\<close>

theorem Verify_binds_body:
  assumes "Verify parse v authorization body = None"
  shows "Verify parse v authorization body' = None \<longleftrightarrow>
         sha256_Sum256 body' = sha256_Sum256 body"
proof -
  obtain c where c: "authorization \<noteq> []"
      "parse (verify_options v) (vf_apiSecret v) authorization = Some c"
      "c ''sha256'' = Some (ClaimString (b64_encode (sha256_Sum256 body)))"
    using assms unfolding Verify_accepts by blast
  have "Verify parse v authorization body' = None \<longleftrightarrow>
        b64_encode (sha256_Sum256 body') = b64_encode (sha256_Sum256 body)"
    unfolding Verify_accepts c(2) option.inject using c(1,3) by (metis claim.inject option.inject)
  then show ?thesis using b64_encode_inj by metis
qed

theorem Verify_binds_body_witness:
  "Verify (demo_parse ''{}'') demo_verifier ''token'' ''[]'' = None \<longleftrightarrow>
   sha256_Sum256 ''[]'' = sha256_Sum256 ''{}''"
  by (rule Verify_binds_body [OF demo_Verify])

end
