(* ===== verification/Metrics.thy ===== *)
theory Metrics
  imports Go_Prelude
begin

text \<open>
  The instruments of the write path (\<^verbatim>\<open>internal/ingest/metrics/metrics.go\<close>). The OpenTelemetry
  API is not part of the repository: creating an instrument is the parameter \<open>create\<close>, which
  either fails or does not, and an instrument is known by its name. What the receiver measures is
  the list of its calls to \<open>Add\<close> and \<open>Record\<close>, in order; a counter's value is the sum of its
  \<open>Add\<close>s. Descriptions of the instruments are not modelled. Durations are in nanoseconds, before
  the conversion to a floating-point number of seconds.
\<close>

section \<open>The program\<close>

datatype attr = AString string | ABool bool | AInt int

type_synonym attrs = "(string \<times> attr) list"

datatype measurement = Add string int attrs | Record string int attrs

record Ingest =
  in_requests :: string
  in_duration :: string
  in_stored :: string
  in_duplicates :: string
  in_rejected :: string
  in_unrecognised :: string
  in_partitionMissed :: string
  in_joinsOpened :: string
  in_joinsClosed :: string
  in_closeUnmatched :: string
  in_closeOutOfOrder :: string

text \<open>The closure \<open>c\<close> of \<open>NewIngest\<close>: once \<open>err\<close> is set no further instrument is created.\<close>

definition new_counter ::
    "(string \<Rightarrow> string \<Rightarrow> 'err option) \<Rightarrow> 'err option \<Rightarrow> string \<Rightarrow> string \<Rightarrow> string \<times> 'err option" where
  "new_counter create err name unit =
     (case err of
        Some e \<Rightarrow> ([], Some e)
      | None \<Rightarrow> (case create name unit of Some e \<Rightarrow> ([], Some e) | None \<Rightarrow> (name, None)))"

definition NewIngest :: "(string \<Rightarrow> string \<Rightarrow> 'err option) \<Rightarrow> 'err + Ingest" where
  "NewIngest create =
     (let (requests, err) = new_counter create None ''sap_ingest_webhook_requests_total'' ''{request}'';
          (stored, err) = new_counter create err ''sap_ingest_events_stored_total'' ''{event}'';
          (duplicates, err) = new_counter create err ''sap_ingest_events_duplicate_total'' ''{event}'';
          (rejected, err) = new_counter create err ''sap_ingest_events_rejected_total'' ''{event}'';
          (unrecognised, err) = new_counter create err ''sap_ingest_events_unrecognised_total'' ''{event}'';
          (partitionMissed, err) = new_counter create err ''sap_ingest_partition_missing_total'' ''{event}'';
          (joinsOpened, err) = new_counter create err ''sap_ingest_joins_opened_total'' ''{join}'';
          (joinsClosed, err) = new_counter create err ''sap_ingest_joins_closed_total'' ''{join}'';
          (closeUnmatched, err) = new_counter create err ''sap_ingest_join_close_unmatched_total'' ''{event}'';
          (closeOutOfOrder, err) = new_counter create err ''sap_ingest_join_close_out_of_order_total'' ''{event}'';
          (duration, err) = new_counter create err ''sap_ingest_webhook_duration_seconds'' ''s''
      in case err of
           Some e \<Rightarrow> Inl e
         | None \<Rightarrow> Inr \<lparr>in_requests = requests, in_duration = duration, in_stored = stored,
             in_duplicates = duplicates, in_rejected = rejected, in_unrecognised = unrecognised,
             in_partitionMissed = partitionMissed, in_joinsOpened = joinsOpened,
             in_joinsClosed = joinsClosed, in_closeUnmatched = closeUnmatched,
             in_closeOutOfOrder = closeOutOfOrder\<rparr>)"

definition backendAttr :: "string \<Rightarrow> attrs" where
  "backendAttr backend = [(''backend'', AString backend)]"

definition typedAttrs :: "string \<Rightarrow> string \<Rightarrow> attrs" where
  "typedAttrs backend eventType = [(''backend'', AString backend), (''event_type'', AString eventType)]"

definition Request :: "Ingest \<Rightarrow> string \<Rightarrow> string \<Rightarrow> bool \<Rightarrow> int \<Rightarrow> measurement list" where
  "Request i backend outcome verified elapsed =
     [Add (in_requests i) 1
        [(''backend'', AString backend), (''outcome'', AString outcome), (''verified'', ABool verified)],
      Record (in_duration i) elapsed (backendAttr backend)]"

definition Stored :: "Ingest \<Rightarrow> string \<Rightarrow> string \<Rightarrow> measurement list" where
  "Stored i backend eventType = [Add (in_stored i) 1 (typedAttrs backend eventType)]"

definition Duplicate :: "Ingest \<Rightarrow> string \<Rightarrow> string \<Rightarrow> measurement list" where
  "Duplicate i backend eventType = [Add (in_duplicates i) 1 (typedAttrs backend eventType)]"

definition Rejected :: "Ingest \<Rightarrow> string \<Rightarrow> string \<Rightarrow> measurement list" where
  "Rejected i backend eventType = [Add (in_rejected i) 1 (typedAttrs backend eventType)]"

definition Unrecognised :: "Ingest \<Rightarrow> string \<Rightarrow> string \<Rightarrow> measurement list" where
  "Unrecognised i backend eventType = [Add (in_unrecognised i) 1 (typedAttrs backend eventType)]"

definition PartitionMissing :: "Ingest \<Rightarrow> string \<Rightarrow> measurement list" where
  "PartitionMissing i backend = [Add (in_partitionMissed i) 1 (backendAttr backend)]"

definition JoinOpened :: "Ingest \<Rightarrow> string \<Rightarrow> measurement list" where
  "JoinOpened i backend = [Add (in_joinsOpened i) 1 (backendAttr backend)]"

definition JoinsClosed :: "Ingest \<Rightarrow> string \<Rightarrow> string \<Rightarrow> int \<Rightarrow> measurement list" where
  "JoinsClosed i backend endReason n =
     (if n \<le> 0 then []
      else [Add (in_joinsClosed i) n [(''backend'', AString backend), (''end_reason'', AString endReason)]])"

definition CloseUnmatched :: "Ingest \<Rightarrow> string \<Rightarrow> measurement list" where
  "CloseUnmatched i backend = [Add (in_closeUnmatched i) 1 (backendAttr backend)]"

definition CloseOutOfOrder :: "Ingest \<Rightarrow> string \<Rightarrow> measurement list" where
  "CloseOutOfOrder i backend = [Add (in_closeOutOfOrder i) 1 (backendAttr backend)]"

lemmas metric_ops = Request_def Stored_def Duplicate_def Rejected_def Unrecognised_def
  PartitionMissing_def JoinOpened_def JoinsClosed_def CloseUnmatched_def CloseOutOfOrder_def

section \<open>Counter values\<close>

fun added :: "string \<Rightarrow> measurement \<Rightarrow> int" where
  "added name (Add n v as) = (if n = name then v else 0)"
| "added name (Record n v as) = 0"

definition counter :: "string \<Rightarrow> measurement list \<Rightarrow> int" where
  "counter name ms = sum_list (map (added name) ms)"

lemma counter_simps [simp]:
  "counter name [] = 0" "counter name (m # ms) = added name m + counter name ms"
  "counter name (ms @ ms') = counter name ms + counter name ms'"
  by (simp_all add: counter_def)

definition instrument_names :: "Ingest \<Rightarrow> string list" where
  "instrument_names i =
     [in_requests i, in_stored i, in_duplicates i, in_rejected i, in_unrecognised i,
      in_partitionMissed i, in_joinsOpened i, in_joinsClosed i, in_closeUnmatched i,
      in_closeOutOfOrder i, in_duration i]"

definition instruments :: "(string \<times> string) list" where
  "instruments =
     [(''sap_ingest_webhook_requests_total'', ''{request}''),
      (''sap_ingest_events_stored_total'', ''{event}''),
      (''sap_ingest_events_duplicate_total'', ''{event}''),
      (''sap_ingest_events_rejected_total'', ''{event}''),
      (''sap_ingest_events_unrecognised_total'', ''{event}''),
      (''sap_ingest_partition_missing_total'', ''{event}''),
      (''sap_ingest_joins_opened_total'', ''{join}''),
      (''sap_ingest_joins_closed_total'', ''{join}''),
      (''sap_ingest_join_close_unmatched_total'', ''{event}''),
      (''sap_ingest_join_close_out_of_order_total'', ''{event}''),
      (''sap_ingest_webhook_duration_seconds'', ''s'')]"

fun first_error :: "(string \<Rightarrow> string \<Rightarrow> 'err option) \<Rightarrow> (string \<times> string) list \<Rightarrow> 'err option" where
  "first_error create [] = None"
| "first_error create ((n, u) # is) =
     (case create n u of Some e \<Rightarrow> Some e | None \<Rightarrow> first_error create is)"

lemma first_error_None: "first_error create is = None \<longleftrightarrow> (\<forall>i \<in> set is. create (fst i) (snd i) = None)"
  by (induction create "is" rule: first_error.induct) (auto split: option.splits)

lemma new_counter_simps [simp]:
  "new_counter create (Some e) name unit = ([], Some e)"
  "new_counter create None name unit =
     (case create name unit of Some e \<Rightarrow> ([], Some e) | None \<Rightarrow> (name, None))"
  by (simp_all add: new_counter_def)

lemma distinct_instruments: "distinct (map fst instruments)"
  by (simp add: instruments_def)

lemma NewIngest_cases:
  "NewIngest create =
     (case first_error create instruments of
        Some e \<Rightarrow> Inl e
      | None \<Rightarrow> Inr \<lparr>in_requests = ''sap_ingest_webhook_requests_total'',
          in_duration = ''sap_ingest_webhook_duration_seconds'', in_stored = ''sap_ingest_events_stored_total'',
          in_duplicates = ''sap_ingest_events_duplicate_total'', in_rejected = ''sap_ingest_events_rejected_total'',
          in_unrecognised = ''sap_ingest_events_unrecognised_total'',
          in_partitionMissed = ''sap_ingest_partition_missing_total'',
          in_joinsOpened = ''sap_ingest_joins_opened_total'', in_joinsClosed = ''sap_ingest_joins_closed_total'',
          in_closeUnmatched = ''sap_ingest_join_close_unmatched_total'',
          in_closeOutOfOrder = ''sap_ingest_join_close_out_of_order_total''\<rparr>)"
  unfolding NewIngest_def instruments_def by (simp split: option.split)

section \<open>Properties\<close>

text \<open>\<open>NewIngest\<close> is all or nothing: it returns the error of the first instrument, in the order
  of the code, that cannot be created, and otherwise the eleven instruments with their eleven
  pairwise different names, so that no two measurements share a series.\<close>

theorem NewIngest_all_or_first_error:
  "(\<forall>e. NewIngest create = Inl e \<longleftrightarrow> first_error create instruments = Some e) \<and>
   ((\<exists>i. NewIngest create = Inr i) \<longleftrightarrow> (\<forall>n \<in> set instruments. create (fst n) (snd n) = None)) \<and>
   (\<forall>i. NewIngest create = Inr i \<longrightarrow> instrument_names i = map fst instruments \<and> distinct (instrument_names i))"
proof -
  have "instrument_names i = map fst instruments" if "NewIngest create = Inr i" for i
    using that unfolding NewIngest_cases
    by (auto simp: instrument_names_def instruments_def split: option.splits)
  moreover have "(\<exists>i. NewIngest create = Inr i) \<longleftrightarrow> first_error create instruments = None"
    "\<And>e. NewIngest create = Inl e \<longleftrightarrow> first_error create instruments = Some e"
    unfolding NewIngest_cases by (auto split: option.splits)
  ultimately show ?thesis using distinct_instruments first_error_None [of create instruments] by auto
qed

theorem NewIngest_all_or_first_error_witness:
  "\<exists>i. NewIngest (\<lambda>n u. None :: nat option) = Inr i \<and> distinct (instrument_names i)"
  using NewIngest_all_or_first_error [of "\<lambda>n u. None :: nat option"] by blast

end
