(* ===== verification/Webhook.thy ===== *)
theory Webhook
  imports Livekit_Translate Livekit_Verify Store Metrics
begin

text \<open>
  The receiver (\<^verbatim>\<open>internal/ingest/webhook/handler.go\<close>). A request is its body as the connection
  delivers it (bytes, then end of file or an error), its \<open>Authorization\<close> header and the remote
  address. \<open>ServeHTTP\<close> returns the state its writer leaves and everything else it does as a list
  of effects in order: span attributes and status, log records, measurements, and the response.
  The writer is any implementation of \<open>RecordEvent\<close>; the verifier and the translator are those of
  the LiveKit adapter (\<open>serve\<close> takes them as functions, \<open>ServeHTTP\<close> supplies them).
\<close>

section \<open>The program\<close>

definition outcomeAccepted :: string where "outcomeAccepted = ''accepted''"
definition outcomeDuplicate :: string where "outcomeDuplicate = ''duplicate''"
definition outcomeIgnored :: string where "outcomeIgnored = ''ignored''"
definition outcomeUnverified :: string where "outcomeUnverified = ''unverified''"
definition outcomeMalformed :: string where "outcomeMalformed = ''malformed''"
definition outcomeTooLarge :: string where "outcomeTooLarge = ''too_large''"
definition outcomeDataLoss :: string where "outcomeDataLoss = ''partition_missing''"
definition outcomeStoreFailed :: string where "outcomeStoreFailed = ''store_failed''"

lemmas outcome_defs = outcomeAccepted_def outcomeDuplicate_def outcomeIgnored_def outcomeUnverified_def
  outcomeMalformed_def outcomeTooLarge_def outcomeDataLoss_def outcomeStoreFailed_def

datatype read_end = ReadEOF | ReadFailed string

record request =
  rq_body :: bytes
  rq_end :: read_end
  rq_authorization :: string
  rq_remote :: string

record LiveKitHandler =
  h_verifier :: Verifier
  h_metrics :: Ingest
  h_maxBodyBytes :: int

definition NewLiveKitHandler :: "Verifier \<Rightarrow> Ingest \<Rightarrow> int \<Rightarrow> LiveKitHandler" where
  "NewLiveKitHandler v m maxBody = \<lparr>h_verifier = v, h_metrics = m, h_maxBodyBytes = maxBody\<rparr>"

datatype level = LevelWarn | LevelError

datatype log_value = LString string | LTime Time | LTranslateError translate_error | LStoreError store_error

datatype effect =
    SpanAttribute string attr
  | SpanStatus string
  | Log level string "(string \<times> log_value) list"
  | Measure measurement
  | WriteHeader int

datatype read_error = MaxBytesError | OtherReadError string

text \<open>\<open>io.ReadAll(http.MaxBytesReader(w, r.Body, n))\<close>: more than \<open>n\<close> bytes is a \<open>MaxBytesError\<close>,
  however the connection ends (a negative limit counts as zero).\<close>

definition read_body :: "int \<Rightarrow> request \<Rightarrow> read_error + bytes" where
  "read_body n r =
     (if int (length (rq_body r)) > max 0 n then Inl MaxBytesError
      else case rq_end r of ReadEOF \<Rightarrow> Inr (rq_body r) | ReadFailed e \<Rightarrow> Inl (OtherReadError e))"

definition store_error_text :: "store_error \<Rightarrow> string" where
  "store_error_text e =
     (case e of
        ErrPartitionMissing \<Rightarrow> ''store: no partition covers occurred_at''
      | ErrCloseOutOfOrder \<Rightarrow> ''store: ended_at precedes started_at''
      | OtherError t \<Rightarrow> t)"

definition finish :: "Ingest \<Rightarrow> string \<Rightarrow> int \<Rightarrow> bool \<Rightarrow> int \<Rightarrow> string \<Rightarrow> effect list" where
  "finish m backend elapsed verified status outcome =
     [SpanAttribute ''sap.outcome'' (AString outcome),
      SpanAttribute ''sap.verified'' (ABool verified),
      SpanAttribute ''http.response.status_code'' (AInt status)] @
     map Measure (Request m backend outcome verified elapsed) @
     [WriteHeader status]"

definition endReason :: "EventType \<Rightarrow> string" where
  "endReason t = (if t = EventRoomFinished then EndRoomFinished else EndParticipantLeft)"

text \<open>The part of the handler after a delivery has been translated and is to be stored.\<close>

definition after_record :: "Ingest \<Rightarrow> string \<Rightarrow> int \<Rightarrow> Event \<Rightarrow> Result \<Rightarrow> store_error option \<Rightarrow> effect list" where
  "after_record m backend elapsed ev res err =
     (case err of
        Some ErrPartitionMissing \<Rightarrow>
          map Measure (PartitionMissing m backend) @
          [SpanStatus ''no partition covers occurred_at'',
           Log LevelError ''dropped event: no partition''
             [(''event_type'', LString (ev_Type ev)), (''occurred_at'', LTime (ev_OccurredAt ev))]] @
          finish m backend elapsed True 200 outcomeDataLoss
      | Some ErrCloseOutOfOrder \<Rightarrow>
          map Measure (CloseOutOfOrder m backend) @
          [Log LevelWarn ''close rejected: ended_at precedes started_at''
             [(''room'', LString (ev_RoomName ev)), (''identity'', LString (ev_ParticipantIdentity ev))]] @
          finish m backend elapsed True 200 outcomeAccepted
      | Some (OtherError t) \<Rightarrow>
          [SpanStatus (store_error_text (OtherError t)),
           Log LevelError ''store failed'' [(''error'', LStoreError (OtherError t))]] @
          finish m backend elapsed True 500 outcomeStoreFailed
      | None \<Rightarrow>
          if \<not> rs_Stored res then
            map Measure (Duplicate m backend (ev_Type ev)) @
            [SpanAttribute ''sap.duplicate'' (ABool True)] @
            finish m backend elapsed True 200 outcomeDuplicate
          else
            map Measure (Stored m backend (ev_Type ev)) @
            (if rs_JoinOpened res then map Measure (JoinOpened m backend) else []) @
            (if rs_JoinsClosed res > 0
             then map Measure (JoinsClosed m backend (endReason (ev_Type ev)) (rs_JoinsClosed res)) else []) @
            (if rs_CloseUnmatched res
             then map Measure (CloseUnmatched m backend) @
                  [Log LevelWarn ''close with no open join''
                     [(''room'', LString (ev_RoomName ev)), (''identity'', LString (ev_ParticipantIdentity ev))]]
             else []) @
            finish m backend elapsed True 200 outcomeAccepted)"

definition serve ::
    "(string \<Rightarrow> bytes \<Rightarrow> unverified option) \<Rightarrow>
     (bytes \<Rightarrow> int \<Rightarrow> Event \<times> Disposition \<times> translate_error option) \<Rightarrow>
     ('s, 'e) record_event \<Rightarrow> Ingest \<Rightarrow> int \<Rightarrow> 'e \<Rightarrow> int \<Rightarrow> 's \<Rightarrow> request \<Rightarrow> 's \<times> effect list" where
  "serve verify translate rec m maxBody env elapsed s r =
     (let backend = BackendLiveKit in
      case read_body maxBody r of
        Inl MaxBytesError \<Rightarrow> (s, finish m backend elapsed False 413 outcomeTooLarge)
      | Inl (OtherReadError e) \<Rightarrow> (s, finish m backend elapsed False 400 outcomeMalformed)
      | Inr body \<Rightarrow>
          (case verify (rq_authorization r) body of
             Some u \<Rightarrow>
               (s, [SpanStatus ''unverified'',
                    Log LevelWarn ''rejected unverified delivery''
                      [(''backend'', LString backend), (''remote'', LString (rq_remote r))]] @
                   finish m backend elapsed False 401 outcomeUnverified)
           | None \<Rightarrow>
               (case translate body 0 of
                  (ev, disposition, Some e) \<Rightarrow>
                    (s, [Log LevelError ''verified sender, undecodable body''
                           [(''backend'', LString backend), (''error'', LTranslateError e)]] @
                        finish m backend elapsed True 400 outcomeMalformed)
                | (ev, disposition, None) \<Rightarrow>
                    if disposition = Reject then
                      (s, map Measure (Rejected m backend (ev_Type ev)) @
                          [SpanAttribute ''sap.event_type'' (AString (ev_Type ev))] @
                          finish m backend elapsed True 200 outcomeIgnored)
                    else
                      let unknown = (if disposition = Store
                                     then map Measure (Unrecognised m backend (ev_Type ev)) else []);
                          attrs = [SpanAttribute ''sap.event_type'' (AString (ev_Type ev)),
                                   SpanAttribute ''sap.room'' (AString (ev_RoomName ev))];
                          (s', res, err) = rec env s ev
                      in (s', unknown @ attrs @ after_record m backend elapsed ev res err))))"

definition ServeHTTP ::
    "'u deps \<Rightarrow> jwt_parse \<Rightarrow> ('s, 'e) record_event \<Rightarrow> LiveKitHandler \<Rightarrow> 'e \<Rightarrow> int \<Rightarrow> 's \<Rightarrow> request
      \<Rightarrow> 's \<times> effect list" where
  "ServeHTTP d parse rec h =
     serve (Verify parse (h_verifier h)) (Translate d) rec (h_metrics h) (h_maxBodyBytes h)"

section \<open>Reading the effects\<close>

fun response :: "effect list \<Rightarrow> int list" where
  "response [] = []"
| "response (WriteHeader n # es) = n # response es"
| "response (_ # es) = response es"

fun measured :: "effect list \<Rightarrow> measurement list" where
  "measured [] = []"
| "measured (Measure m # es) = m # measured es"
| "measured (_ # es) = measured es"

lemma response_append [simp]: "response (xs @ ys) = response xs @ response ys"
  by (induction xs rule: response.induct) auto

lemma measured_append [simp]: "measured (xs @ ys) = measured xs @ measured ys"
  by (induction xs rule: measured.induct) auto

lemma response_Measure [simp]: "response (map Measure ms) = []"
  by (induction ms) auto

lemma measured_Measure [simp]: "measured (map Measure ms) = ms"
  by (induction ms) auto

lemma response_finish [simp]: "response (finish m b el v st out) = [st]"
  by (simp add: finish_def Request_def)

lemma measured_finish [simp]: "measured (finish m b el v st out) = Request m b out v el"
  by (simp add: finish_def Request_def)

lemma last_finish [simp]: "last (xs @ finish m b el v st out) = WriteHeader st"
  by (simp add: finish_def)

text \<open>What becomes of a delivery, as one value: the specification of the receiver.\<close>

datatype fate =
    TooLarge | Unreadable | Unauthenticated | Undecodable translate_error | OutOfScope Event
  | Handled Event Disposition

definition fate_of ::
    "(string \<Rightarrow> bytes \<Rightarrow> unverified option) \<Rightarrow>
     (bytes \<Rightarrow> int \<Rightarrow> Event \<times> Disposition \<times> translate_error option) \<Rightarrow> int \<Rightarrow> request \<Rightarrow> fate" where
  "fate_of verify translate maxBody r =
     (case read_body maxBody r of
        Inl MaxBytesError \<Rightarrow> TooLarge
      | Inl (OtherReadError e) \<Rightarrow> Unreadable
      | Inr body \<Rightarrow>
          if verify (rq_authorization r) body \<noteq> None then Unauthenticated
          else (case translate body 0 of
                  (ev, d, Some e) \<Rightarrow> Undecodable e
                | (ev, d, None) \<Rightarrow> if d = Reject then OutOfScope ev else Handled ev d))"

lemma serve_fate:
  "serve verify translate rec m maxBody env elapsed s r =
     (case fate_of verify translate maxBody r of
        TooLarge \<Rightarrow> (s, finish m BackendLiveKit elapsed False 413 outcomeTooLarge)
      | Unreadable \<Rightarrow> (s, finish m BackendLiveKit elapsed False 400 outcomeMalformed)
      | Unauthenticated \<Rightarrow>
          (s, [SpanStatus ''unverified'',
               Log LevelWarn ''rejected unverified delivery''
                 [(''backend'', LString BackendLiveKit), (''remote'', LString (rq_remote r))]] @
              finish m BackendLiveKit elapsed False 401 outcomeUnverified)
      | Undecodable e \<Rightarrow>
          (s, [Log LevelError ''verified sender, undecodable body''
                 [(''backend'', LString BackendLiveKit), (''error'', LTranslateError e)]] @
              finish m BackendLiveKit elapsed True 400 outcomeMalformed)
      | OutOfScope ev \<Rightarrow>
          (s, map Measure (Rejected m BackendLiveKit (ev_Type ev)) @
              [SpanAttribute ''sap.event_type'' (AString (ev_Type ev))] @
              finish m BackendLiveKit elapsed True 200 outcomeIgnored)
      | Handled ev d \<Rightarrow>
          (fst (rec env s ev),
           (if d = Store then map Measure (Unrecognised m BackendLiveKit (ev_Type ev)) else []) @
           [SpanAttribute ''sap.event_type'' (AString (ev_Type ev)),
            SpanAttribute ''sap.room'' (AString (ev_RoomName ev))] @
           after_record m BackendLiveKit elapsed ev (fst (snd (rec env s ev))) (snd (snd (rec env s ev)))))"
proof (cases "read_body maxBody r")
  case (Inl e)
  then show ?thesis by (cases e) (simp_all add: serve_def fate_of_def)
next
  case (Inr body)
  obtain ev d err where t: "translate body 0 = (ev, d, err)" by (metis prod_cases3)
  show ?thesis
  proof (cases "verify (rq_authorization r) body")
    case (Some u)
    then show ?thesis using Inr by (simp add: serve_def fate_of_def)
  next
    case None
    then show ?thesis
      using Inr t by (cases err) (simp_all add: serve_def fate_of_def Let_def case_prod_beta)
  qed
qed

text \<open>The answer each fate is due (ADR-0027): status, outcome label and \<open>verified\<close> label, the last
  rows depending on what the writer returned.\<close>

definition answer :: "fate \<Rightarrow> Result \<times> store_error option \<Rightarrow> int \<times> string \<times> bool" where
  "answer f w =
     (case f of
        TooLarge \<Rightarrow> (413, outcomeTooLarge, False)
      | Unreadable \<Rightarrow> (400, outcomeMalformed, False)
      | Unauthenticated \<Rightarrow> (401, outcomeUnverified, False)
      | Undecodable e \<Rightarrow> (400, outcomeMalformed, True)
      | OutOfScope ev \<Rightarrow> (200, outcomeIgnored, True)
      | Handled ev d \<Rightarrow>
          (case snd w of
             Some ErrPartitionMissing \<Rightarrow> (200, outcomeDataLoss, True)
           | Some ErrCloseOutOfOrder \<Rightarrow> (200, outcomeAccepted, True)
           | Some (OtherError t) \<Rightarrow> (500, outcomeStoreFailed, True)
           | None \<Rightarrow> (200, if rs_Stored (fst w) then outcomeAccepted else outcomeDuplicate, True)))"

definition http_fate :: "'u deps \<Rightarrow> jwt_parse \<Rightarrow> LiveKitHandler \<Rightarrow> request \<Rightarrow> fate" where
  "http_fate d parse h r =
     fate_of (Verify parse (h_verifier h)) (Translate d) (h_maxBodyBytes h) r"

definition writer_answer :: "('s, 'e) record_event \<Rightarrow> 'e \<Rightarrow> 's \<Rightarrow> fate \<Rightarrow> Result \<times> store_error option" where
  "writer_answer rec env s f = (case f of Handled ev d \<Rightarrow> snd (rec env s ev) | _ \<Rightarrow> (zeroResult, None))"

fun is_add :: "string \<Rightarrow> measurement \<Rightarrow> bool" where
  "is_add name (Add n v as) \<longleftrightarrow> n = name"
| "is_add name (Record n v as) \<longleftrightarrow> False"

lemma NewIngest_distinct:
  assumes "NewIngest create = Inr m"
  shows "distinct (instrument_names m)"
  using assms unfolding NewIngest_cases
  by (auto simp: instrument_names_def split: option.splits)

text \<open>The effects of a delivery are those before \<open>finish\<close>, which answer nothing and count no request,
  followed by one \<open>finish\<close>.\<close>

definition record_prefix :: "Ingest \<Rightarrow> string \<Rightarrow> Event \<Rightarrow> Result \<Rightarrow> store_error option \<Rightarrow> effect list" where
  "record_prefix m backend ev res err =
     (case err of
        Some ErrPartitionMissing \<Rightarrow>
          map Measure (PartitionMissing m backend) @
          [SpanStatus ''no partition covers occurred_at'',
           Log LevelError ''dropped event: no partition''
             [(''event_type'', LString (ev_Type ev)), (''occurred_at'', LTime (ev_OccurredAt ev))]]
      | Some ErrCloseOutOfOrder \<Rightarrow>
          map Measure (CloseOutOfOrder m backend) @
          [Log LevelWarn ''close rejected: ended_at precedes started_at''
             [(''room'', LString (ev_RoomName ev)), (''identity'', LString (ev_ParticipantIdentity ev))]]
      | Some (OtherError t) \<Rightarrow>
          [SpanStatus (store_error_text (OtherError t)),
           Log LevelError ''store failed'' [(''error'', LStoreError (OtherError t))]]
      | None \<Rightarrow>
          if \<not> rs_Stored res then
            map Measure (Duplicate m backend (ev_Type ev)) @ [SpanAttribute ''sap.duplicate'' (ABool True)]
          else
            map Measure (Stored m backend (ev_Type ev)) @
            (if rs_JoinOpened res then map Measure (JoinOpened m backend) else []) @
            (if rs_JoinsClosed res > 0
             then map Measure (JoinsClosed m backend (endReason (ev_Type ev)) (rs_JoinsClosed res)) else []) @
            (if rs_CloseUnmatched res
             then map Measure (CloseUnmatched m backend) @
                  [Log LevelWarn ''close with no open join''
                     [(''room'', LString (ev_RoomName ev)), (''identity'', LString (ev_ParticipantIdentity ev))]]
             else []))"

lemma after_record_finish:
  assumes "a = answer (Handled ev d) (res, err)"
  shows "after_record m b el ev res err = record_prefix m b ev res err @ finish m b el (snd (snd a)) (fst a) (fst (snd a))"
  unfolding assms after_record_def record_prefix_def answer_def
  by (cases err) (simp_all split: store_error.split)

definition serve_prefix :: "Ingest \<Rightarrow> request \<Rightarrow> fate \<Rightarrow> Result \<times> store_error option \<Rightarrow> effect list" where
  "serve_prefix m r f w =
     (case f of
        TooLarge \<Rightarrow> []
      | Unreadable \<Rightarrow> []
      | Unauthenticated \<Rightarrow>
          [SpanStatus ''unverified'',
           Log LevelWarn ''rejected unverified delivery''
             [(''backend'', LString BackendLiveKit), (''remote'', LString (rq_remote r))]]
      | Undecodable e \<Rightarrow>
          [Log LevelError ''verified sender, undecodable body''
             [(''backend'', LString BackendLiveKit), (''error'', LTranslateError e)]]
      | OutOfScope ev \<Rightarrow>
          map Measure (Rejected m BackendLiveKit (ev_Type ev)) @
          [SpanAttribute ''sap.event_type'' (AString (ev_Type ev))]
      | Handled ev d \<Rightarrow>
          (if d = Store then map Measure (Unrecognised m BackendLiveKit (ev_Type ev)) else []) @
          [SpanAttribute ''sap.event_type'' (AString (ev_Type ev)),
           SpanAttribute ''sap.room'' (AString (ev_RoomName ev))] @
          record_prefix m BackendLiveKit ev (fst w) (snd w))"

lemma serve_finish:
  assumes "f = fate_of verify translate maxBody r" "w = writer_answer rec env s f" "a = answer f w"
  shows "serve verify translate rec m maxBody env elapsed s r =
    (case f of Handled ev d \<Rightarrow> fst (rec env s ev) | _ \<Rightarrow> s,
     serve_prefix m r f w @ finish m BackendLiveKit elapsed (snd (snd a)) (fst a) (fst (snd a)))"
proof (cases f)
  case (Handled ev d)
  have w: "w = snd (rec env s ev)" by (simp add: assms(2) Handled writer_answer_def)
  have "a = answer (Handled ev d) (fst w, snd w)" by (simp add: assms(3) Handled)
  note after_record_finish [OF this, of m BackendLiveKit elapsed]
  then show ?thesis
    unfolding serve_fate assms(1) [symmetric] by (simp add: Handled w serve_prefix_def)
qed (unfold serve_fate assms(1) [symmetric], simp_all add: assms(3) serve_prefix_def answer_def)

lemma requests_apart:
  assumes "distinct (instrument_names m)"
  shows "filter (is_add (in_requests m)) (Stored m b t) = []"
    "filter (is_add (in_requests m)) (Duplicate m b t) = []"
    "filter (is_add (in_requests m)) (Rejected m b t) = []"
    "filter (is_add (in_requests m)) (Unrecognised m b t) = []"
    "filter (is_add (in_requests m)) (PartitionMissing m b) = []"
    "filter (is_add (in_requests m)) (JoinOpened m b) = []"
    "filter (is_add (in_requests m)) (JoinsClosed m b t n) = []"
    "filter (is_add (in_requests m)) (CloseUnmatched m b) = []"
    "filter (is_add (in_requests m)) (CloseOutOfOrder m b) = []"
  using assms by (auto simp: instrument_names_def metric_ops)

lemma record_prefix_silent:
  assumes "distinct (instrument_names m)"
  shows "response (record_prefix m b ev res err) = []"
    "filter (is_add (in_requests m)) (measured (record_prefix m b ev res err)) = []"
proof -
  show "response (record_prefix m b ev res err) = []"
    unfolding record_prefix_def by (cases err) (simp_all split: store_error.split)
  show "filter (is_add (in_requests m)) (measured (record_prefix m b ev res err)) = []"
    unfolding record_prefix_def
    by (cases err) (simp_all add: requests_apart [OF assms] split: store_error.split)
qed

lemma serve_prefix_silent:
  assumes "distinct (instrument_names m)"
  shows "response (serve_prefix m r f w) = []"
    "filter (is_add (in_requests m)) (measured (serve_prefix m r f w)) = []"
  by (cases f; simp add: serve_prefix_def requests_apart [OF assms] record_prefix_silent [OF assms])+

lemma serve_answer:
  assumes "distinct (instrument_names m)"
    and "f = fate_of verify translate maxBody r" and "a = answer f (writer_answer rec env s f)"
    and "es = snd (serve verify translate rec m maxBody env elapsed s r)"
  shows "response es = [fst a] \<and> last es = WriteHeader (fst a) \<and>
    filter (is_add (in_requests m)) (measured es) =
      [Add (in_requests m) 1 [(''backend'', AString BackendLiveKit), (''outcome'', AString (fst (snd a))),
         (''verified'', ABool (snd (snd a)))]]"
proof -
  have "es = serve_prefix m r f (writer_answer rec env s f) @
      finish m BackendLiveKit elapsed (snd (snd a)) (fst a) (fst (snd a))"
    unfolding assms(4) serve_finish [OF assms(2) refl assms(3)] by simp
  then show ?thesis
    using serve_prefix_silent [OF assms(1)] by (simp add: Request_def)
qed

section \<open>Counters of one delivery\<close>

lemma stored_apart:
  assumes "distinct (instrument_names m)"
  shows "counter (in_stored m) (Stored m b t) = 1"
    "counter (in_stored m) (Duplicate m b t) = 0" "counter (in_stored m) (Rejected m b t) = 0"
    "counter (in_stored m) (Unrecognised m b t) = 0" "counter (in_stored m) (PartitionMissing m b) = 0"
    "counter (in_stored m) (JoinOpened m b) = 0" "counter (in_stored m) (JoinsClosed m b t n) = 0"
    "counter (in_stored m) (CloseUnmatched m b) = 0" "counter (in_stored m) (CloseOutOfOrder m b) = 0"
    "counter (in_stored m) (Request m b out v el) = 0"
  using assms by (auto simp: instrument_names_def metric_ops)

lemma opened_apart:
  assumes "distinct (instrument_names m)"
  shows "counter (in_joinsOpened m) (JoinOpened m b) = 1"
    "counter (in_joinsOpened m) (Stored m b t) = 0"
    "counter (in_joinsOpened m) (Duplicate m b t) = 0" "counter (in_joinsOpened m) (Rejected m b t) = 0"
    "counter (in_joinsOpened m) (Unrecognised m b t) = 0" "counter (in_joinsOpened m) (PartitionMissing m b) = 0"
    "counter (in_joinsOpened m) (JoinsClosed m b t n) = 0"
    "counter (in_joinsOpened m) (CloseUnmatched m b) = 0" "counter (in_joinsOpened m) (CloseOutOfOrder m b) = 0"
    "counter (in_joinsOpened m) (Request m b out v el) = 0"
  using assms by (auto simp: instrument_names_def metric_ops)

lemma closed_apart:
  assumes "distinct (instrument_names m)"
  shows "counter (in_joinsClosed m) (JoinsClosed m b t n) = max 0 n"
    "counter (in_joinsClosed m) (Stored m b t) = 0" "counter (in_joinsClosed m) (JoinOpened m b) = 0"
    "counter (in_joinsClosed m) (Duplicate m b t) = 0" "counter (in_joinsClosed m) (Rejected m b t) = 0"
    "counter (in_joinsClosed m) (Unrecognised m b t) = 0" "counter (in_joinsClosed m) (PartitionMissing m b) = 0"
    "counter (in_joinsClosed m) (CloseUnmatched m b) = 0" "counter (in_joinsClosed m) (CloseOutOfOrder m b) = 0"
    "counter (in_joinsClosed m) (Request m b out v el) = 0"
  using assms by (auto simp: instrument_names_def metric_ops)

definition counts_of :: "Result \<times> store_error option \<Rightarrow> int \<times> int \<times> int" where
  "counts_of w =
     (if snd w = None \<and> rs_Stored (fst w)
      then (1, if rs_JoinOpened (fst w) then 1 else 0, max 0 (rs_JoinsClosed (fst w)))
      else (0, 0, 0))"

definition counters :: "Ingest \<Rightarrow> measurement list \<Rightarrow> int \<times> int \<times> int" where
  "counters m ms = (counter (in_stored m) ms, counter (in_joinsOpened m) ms, counter (in_joinsClosed m) ms)"

lemma record_prefix_counters:
  assumes "distinct (instrument_names m)"
  shows "counters m (measured (record_prefix m b ev res err)) = counts_of (res, err)"
  unfolding record_prefix_def counts_of_def counters_def
  by (cases err) (simp_all add: stored_apart [OF assms] opened_apart [OF assms] closed_apart [OF assms]
      split: store_error.split)

lemma serve_counters:
  assumes "distinct (instrument_names m)" "f = fate_of verify translate maxBody r"
  shows "counters m (measured (snd (serve verify translate rec m maxBody env elapsed s r))) =
           counts_of (writer_answer rec env s f)"
proof -
  note apart = stored_apart [OF assms(1)] opened_apart [OF assms(1)] closed_apart [OF assms(1)]
  have "counters m (measured (serve_prefix m r f w)) = (case f of Handled ev d \<Rightarrow> counts_of w | _ \<Rightarrow> (0, 0, 0))" for w
    using record_prefix_counters [OF assms(1), of BackendLiveKit _ "fst w" "snd w"]
    by (cases f) (simp_all add: serve_prefix_def counters_def apart)
  then show ?thesis
    unfolding serve_finish [OF assms(2) refl refl]
    by (cases f) (simp_all add: counters_def apart writer_answer_def counts_of_def)
qed

section \<open>Properties\<close>

definition demo_ingest :: Ingest where
  "demo_ingest = (case NewIngest (\<lambda>n u. None :: nat option) of Inr m \<Rightarrow> m | Inl e \<Rightarrow> undefined)"

lemma demo_NewIngest: "NewIngest (\<lambda>n u. None :: nat option) = Inr demo_ingest"
proof -
  have "first_error (\<lambda>n u. None :: nat option) instruments = None" by (simp add: first_error_None)
  then show ?thesis by (simp add: demo_ingest_def NewIngest_cases)
qed

definition demo_handler :: LiveKitHandler where
  "demo_handler = NewLiveKitHandler demo_verifier demo_ingest 1048576"

definition demo_request :: "bytes \<Rightarrow> string \<Rightarrow> request" where
  "demo_request body auth = \<lparr>rq_body = body, rq_end = ReadEOF, rq_authorization = auth, rq_remote = ''10.0.0.1''\<rparr>"

definition demo_writer :: "(Event list, nat) record_event" where
  "demo_writer e s ev = (ev # s, zeroResult\<lparr>rs_Stored := True\<rparr>, None)"

text \<open>C15. Every delivery is answered exactly once and as its last act, with the status of the table of
  ADR-0027: 413 for a body over the cap, 400 for one that cannot be read or decoded, 401 for one that
  does not verify, 500 when the store failed with a retryable error, and 200 otherwise (stored,
  duplicate, out of scope, without a partition, close out of order). It is counted exactly once on
  the request counter, under the outcome of that answer, with \<open>verified\<close> true exactly when its
  signature verified.\<close>

theorem ServeHTTP_answers_once:
  assumes "NewIngest create = Inr (h_metrics h)"
    and "f = http_fate d parse h r" and "a = answer f (writer_answer rec env s f)"
    and "es = snd (ServeHTTP d parse rec h env elapsed s r)"
  shows "response es = [fst a] \<and> last es = WriteHeader (fst a) \<and>
    filter (is_add (in_requests (h_metrics h))) (measured es) =
      [Add (in_requests (h_metrics h)) 1
         [(''backend'', AString BackendLiveKit), (''outcome'', AString (fst (snd a))),
          (''verified'', ABool (snd (snd a)))]] \<and>
    (snd (snd a) \<longleftrightarrow> (\<exists>body. read_body (h_maxBodyBytes h) r = Inr body \<and>
                        Verify parse (h_verifier h) (rq_authorization r) body = None))"
proof -
  have "snd (snd a) \<longleftrightarrow> (\<exists>body. read_body (h_maxBodyBytes h) r = Inr body \<and>
      Verify parse (h_verifier h) (rq_authorization r) body = None)"
    unfolding assms(2,3) http_fate_def fate_of_def answer_def
    by (cases "read_body (h_maxBodyBytes h) r")
      (auto split: read_error.splits prod.splits option.splits store_error.splits)
  then show ?thesis
    using serve_answer [OF NewIngest_distinct [OF assms(1)] assms(2) [unfolded http_fate_def] assms(3)
        assms(4) [unfolded ServeHTTP_def]] by blast
qed

theorem ServeHTTP_answers_once_witness:
  "response (snd (ServeHTTP demo_deps (demo_parse ''{}'') demo_writer demo_handler 0 5 [] (demo_request ''{}'' []))) = [401]"
proof -
  have f: "http_fate demo_deps (demo_parse ''{}'') demo_handler (demo_request ''{}'' []) = Unauthenticated"
    by (simp add: http_fate_def fate_of_def read_body_def demo_handler_def NewLiveKitHandler_def
        demo_request_def Verify_def)
  have "NewIngest (\<lambda>n u. None :: nat option) = Inr (h_metrics demo_handler)"
    using demo_NewIngest by (simp add: demo_handler_def NewLiveKitHandler_def)
  from ServeHTTP_answers_once [OF this refl refl refl, where d = demo_deps and parse = "demo_parse ''{}''"
      and r = "demo_request ''{}'' []" and rec = demo_writer and env = 0 and s = "[]" and elapsed = 5]
  show ?thesis by (simp add: f answer_def)
qed

text \<open>C16. The writer is reached only by deliveries that were read completely within the cap, verified
  as they are, decoded, and not out of scope; such a delivery calls it once, with the translated
  event. Every other delivery leaves the state as it was, and nothing it does depends on the writer
  at all.\<close>

theorem only_verified_events_reach_writer:
  fixes s :: 's and env :: 'e
  shows "(\<exists>ev disp. int (length (rq_body r)) \<le> max 0 (h_maxBodyBytes h) \<and> rq_end r = ReadEOF \<and>
      Verify parse (h_verifier h) (rq_authorization r) (rq_body r) = None \<and>
      Translate d (rq_body r) 0 = (ev, disp, None) \<and> disp \<noteq> Reject \<and>
      (\<forall>rec. fst (ServeHTTP d parse rec h env elapsed s r) = fst (rec env s ev))) \<or>
   (\<forall>rec rec'. ServeHTTP d parse rec h env elapsed s r = ServeHTTP d parse rec' h env elapsed s r \<and>
      fst (ServeHTTP d parse rec h env elapsed s r) = s)"
proof (cases "http_fate d parse h r")
  case (Handled ev disp)
  note fate = Handled [unfolded http_fate_def]
  have "int (length (rq_body r)) \<le> max 0 (h_maxBodyBytes h) \<and> rq_end r = ReadEOF \<and>
      Verify parse (h_verifier h) (rq_authorization r) (rq_body r) = None \<and>
      Translate d (rq_body r) 0 = (ev, disp, None) \<and> disp \<noteq> Reject"
    using fate unfolding fate_of_def read_body_def
    by (auto split: if_splits read_end.splits prod.splits option.splits)
  moreover have "fst (ServeHTTP d parse rec h env elapsed s r) = fst (rec env s ev)" for rec :: "('s, 'e) record_event"
    unfolding ServeHTTP_def serve_fate fate by simp
  ultimately show ?thesis by blast
qed (simp_all add: ServeHTTP_def serve_fate http_fate_def)

text \<open>C35. An unverified delivery is opaque. Two readable requests that both fail verification and come
  from the same address are handled identically, whatever their bodies and tokens, whatever the
  translator would have made of them and whatever the writer is: no part of an unauthenticated body
  or header reaches the decoder, the store, the log, the span or a metric label.\<close>

theorem unverified_delivery_is_opaque:
  assumes "read_body maxBody r = Inr body" "verify (rq_authorization r) body \<noteq> None"
    and "read_body maxBody' r' = Inr body'" "verify' (rq_authorization r') body' \<noteq> None"
    and "rq_remote r = rq_remote r'"
  shows "serve verify translate rec m maxBody env elapsed s r =
         serve verify' translate' rec' m maxBody' env' elapsed s r'"
proof -
  have "fate_of verify translate maxBody r = Unauthenticated"
      "fate_of verify' translate' maxBody' r' = Unauthenticated"
    using assms by (simp_all add: fate_of_def)
  then show ?thesis using assms(5) by (simp add: serve_fate)
qed

theorem unverified_delivery_is_opaque_witness:
  "serve (Verify (demo_parse ''{}'') demo_verifier) (Translate demo_deps) demo_writer demo_ingest 100 0 5 [] (demo_request ''{}'' []) =
   serve (Verify (demo_parse ''{}'') demo_verifier) (\<lambda>b k. (zeroEvent, Ingest, None)) demo_writer demo_ingest 100 0 5 [] (demo_request ''[1]'' [])"
  by (rule unverified_delivery_is_opaque [of _ _ "''{}''" _ _ _ "''[1]''"])
    (simp_all add: read_body_def demo_request_def Verify_def)

text \<open>The counters say what the writer said: for one delivery, \<open>events_stored\<close>, \<open>joins_opened\<close> and
  \<open>joins_closed\<close> move by exactly what a successful result reports, and not at all for a duplicate, a
  result returned with an error, or a delivery that never reached the writer.\<close>

theorem ServeHTTP_counts_results:
  assumes "NewIngest create = Inr (h_metrics h)"
  shows "counters (h_metrics h) (measured (snd (ServeHTTP d parse rec h env elapsed s r))) =
           counts_of (writer_answer rec env s (http_fate d parse h r))"
  unfolding ServeHTTP_def http_fate_def
  by (rule serve_counters [OF NewIngest_distinct [OF assms] refl])

theorem ServeHTTP_counts_results_witness:
  "counters demo_ingest (measured (snd (ServeHTTP demo_deps (demo_parse ''{}'') demo_writer demo_handler 0 5 []
     (demo_request ''{}'' [])))) = (0, 0, 0)"
proof -
  have f: "http_fate demo_deps (demo_parse ''{}'') demo_handler (demo_request ''{}'' []) = Unauthenticated"
    by (simp add: http_fate_def fate_of_def read_body_def demo_handler_def NewLiveKitHandler_def
        demo_request_def Verify_def)
  have m: "h_metrics demo_handler = demo_ingest" by (simp add: demo_handler_def NewLiveKitHandler_def)
  from ServeHTTP_counts_results [where create = "\<lambda>n u. None :: nat option" and h = demo_handler
      and d = demo_deps and parse = "demo_parse ''{}''" and rec = demo_writer and env = 0 and elapsed = 5
      and s = "[]" and r = "demo_request ''{}'' []"]
  show ?thesis using demo_NewIngest by (simp add: f m writer_answer_def counts_of_def)
qed

end
