(* ===== verification/Schedule_Counts.thy ===== *)
theory Schedule_Counts
  imports Postgres_Schedules Webhook
begin

text \<open>
  What the results of concurrent calls add up to: the rows stored, the joins opened and the joins ended
  by a schedule, against the counts the receiver takes from each result (\<open>counts_of\<close>). The first
  two agree in every schedule without a lost acknowledgement; the third agrees when no close falls
  back to the identity, and is otherwise an upper bound.
\<close>

section \<open>Results and pending writes\<close>

definition res_ok :: "tx \<Rightarrow> bool" where
  "res_ok x \<longleftrightarrow>
     (tx_pc x = AtCommit \<longrightarrow> (rs_JoinOpened (tx_res x) \<longleftrightarrow> tx_new x \<noteq> None) \<and>
        rs_JoinsClosed (tx_res x) = int (length (tx_ends x))) \<and> distinct (tx_ends x)"

lemma res_ok_begin: "res_ok (begin_tx e ev)" "res_ok (return_tx x res err)"
  by (simp_all add: res_ok_def begin_tx_def)

lemma advance_res_ok:
  assumes "db_inv db" "tx_ok ts db x" "advance ts os db x = Some (db', x')"
  shows "res_ok x'"
proof (cases "tx_pc x = AtCommit")
  case True
  then show ?thesis using assms(3) by (auto simp: advance_def res_ok_begin)
next
  case False
  have x: "tx_new x = None" "tx_ends x = []" using tx_idle(2,3) [OF assms(2) False] by blast+
  have dist: "distinct (map jr_join_id (filter P (db_participant_join db)))" for P
    using assms(1) by (simp add: db_inv_def distinct_map_filter)
  have "tx_res x = zeroResult \<or> tx_res x = after_insert" if "\<not> returned x"
    using assms(2) False that by (auto simp: tx_ok_def pc_ok_def returned_def split: pc.splits)
  moreover have "\<not> returned x" using assms(3) by (auto simp: advance_def returned_def split: pc.splits)
  ultimately show ?thesis
    using assms(3) False x dist
    by (auto simp: advance_def step_insert_def step_effect_def step_open_def step_update_def Let_def res_ok_def
        zeroResult_def split: pc.splits if_splits)
qed

section \<open>What a commit adds\<close>

definition tx_counts :: "tx \<Rightarrow> int \<times> int \<times> int" where
  "tx_counts x = (case tx_pc x of Returned res err \<Rightarrow> counts_of (res, err) | _ \<Rightarrow> (0, 0, 0))"

definition pending_counts :: "tx \<Rightarrow> int \<times> int \<times> int" where
  "pending_counts x =
     (if tx_row x = None then (0, 0, 0)
      else (1, if tx_new x = None then 0 else 1, int (length (tx_ends x))))"

lemma counts_of_commit:
  assumes "tx_ok ts db x" "tx_pc x = AtCommit" "res_ok x"
  shows "counts_of (tx_res x, None) = pending_counts x"
  using assms by (auto simp: counts_of_def pending_counts_def tx_ok_def pc_ok_def res_ok_def)

lemma closed_count_end_row:
  assumes "distinct (map jr_join_id js)" "distinct ids" "set ids \<subseteq> jr_join_id ` set js" "ids = tx_ends x"
  shows "int (closed_count (map (end_row ts x) js)) \<le> int (closed_count js) + int (length ids)"
    "\<forall>j \<in> set js. jr_join_id j \<in> set ids \<longrightarrow> open_row j \<Longrightarrow>
     int (closed_count (map (end_row ts x) js)) = int (closed_count js) + int (length ids)"
proof -
  let ?P = "\<lambda>j. jr_join_id j \<in> set ids"
  have "length (filter ?P js) = card (set (map jr_join_id (filter ?P js)))"
    using assms(1) by (subst distinct_card) (auto simp: distinct_map intro: inj_on_subset)
  moreover have "set (map jr_join_id (filter ?P js)) = set ids" using assms(3) by auto
  ultimately have n: "length (filter ?P js) = length ids" using assms(2) by (simp add: distinct_card)
  have le: "closed_count (map (end_row ts x) xs) \<le> closed_count xs + length (filter ?P xs)" for xs
    by (induction xs) (auto simp: closed_count_def end_row_def assms(4))
  show "int (closed_count (map (end_row ts x) js)) \<le> int (closed_count js) + int (length ids)"
    using le [of js] n by simp
  assume op: "\<forall>j \<in> set js. ?P j \<longrightarrow> open_row j"
  have "closed_count (map (end_row ts x) xs) = closed_count xs + length (filter ?P xs)" if "set xs \<subseteq> set js" for xs
    using that op by (induction xs) (auto simp: closed_count_def end_row_def assms(4))
  from this [of js] show "int (closed_count (map (end_row ts x) js)) = int (closed_count js) + int (length ids)"
    using n by simp
qed

text \<open>What the tables hold, as the three numbers the counters should show.\<close>

definition table_counts :: "database \<Rightarrow> int \<times> int \<times> int" where
  "table_counts db =
     (int (length (db_event_raw db)), int (length (db_participant_join db)),
      int (closed_count (db_participant_join db)))"

lemma closed_count_append [simp]: "closed_count (xs @ ys) = closed_count xs + closed_count ys"
  by (simp add: closed_count_def)

lemma commit_counts:
  assumes "db_inv db" "tx_ok ts db x" "res_ok x"
  shows "fst (table_counts (apply_tx ts x db)) = fst (table_counts db) + fst (pending_counts x)"
    "fst (snd (table_counts (apply_tx ts x db))) = fst (snd (table_counts db)) + fst (snd (pending_counts x))"
    "snd (snd (table_counts (apply_tx ts x db))) \<le> snd (snd (table_counts db)) + snd (snd (pending_counts x))"
    "ends_open db x \<Longrightarrow>
     snd (snd (table_counts (apply_tx ts x db))) = snd (snd (table_counts db)) + snd (snd (pending_counts x))"
proof -
  let ?js = "db_participant_join db"
  have new: "tx_row x \<noteq> None \<and> open_row j" if "tx_new x = Some j" for j
    using assms(2) that by (auto simp: tx_ok_def new_ok_def open_row_def)
  then have c0: "closed_count (case tx_new x of None \<Rightarrow> [] | Some j \<Rightarrow> [j]) = 0"
    by (auto simp: closed_count_def split: option.splits)
  have ends: "tx_row x = None \<Longrightarrow> tx_ends x = []" "set (tx_ends x) \<subseteq> jr_join_id ` set ?js"
    using assms(2) by (auto simp: tx_ok_def ends_ok_def)
  have dist: "distinct (map jr_join_id ?js)" "distinct (tx_ends x)"
    using assms(1,3) by (auto simp: db_inv_def res_ok_def)
  note ended = closed_count_end_row [OF dist ends(2) refl, of ts]
  show "fst (table_counts (apply_tx ts x db)) = fst (table_counts db) + fst (pending_counts x)"
    by (auto simp: table_counts_def pending_counts_def split: option.splits)
  show "fst (snd (table_counts (apply_tx ts x db))) = fst (snd (table_counts db)) + fst (snd (pending_counts x))"
    using new by (auto simp: table_counts_def pending_counts_def split: option.splits)
  show "snd (snd (table_counts (apply_tx ts x db))) \<le> snd (snd (table_counts db)) + snd (snd (pending_counts x))"
    using ended(1) ends(1) c0 by (auto simp: table_counts_def pending_counts_def)
  show "snd (snd (table_counts (apply_tx ts x db))) = snd (snd (table_counts db)) + snd (snd (pending_counts x))"
    if "ends_open db x"
    using ended(2) ends(1) c0 that by (auto simp: table_counts_def pending_counts_def ends_open_def)
qed

section \<open>What a schedule adds\<close>

definition total :: "(int \<times> int \<times> int \<Rightarrow> int) \<Rightarrow> tx list \<Rightarrow> int" where
  "total p xs = sum_list (map (p \<circ> tx_counts) xs)"

text \<open>How far a component of the table is ahead of what the returned calls have reported.\<close>

definition ahead :: "(int \<times> int \<times> int \<Rightarrow> int) \<Rightarrow> cstate \<Rightarrow> int" where
  "ahead p S = p (table_counts (cs_db S)) - total p (cs_txs S)"

lemma tx_counts_simps [simp]:
  "tx_counts (begin_tx e ev) = (0, 0, 0)" "tx_counts (return_tx x res err) = counts_of (res, err)"
  "\<not> returned x \<Longrightarrow> tx_counts x = (0, 0, 0)"
  by (auto simp: tx_counts_def begin_tx_def returned_def split: pc.splits)

lemma sum_list_map_update:
  "t < length xs \<Longrightarrow> f (xs ! t) = 0 \<Longrightarrow> sum_list (map f (xs[t := y])) = sum_list (map f xs) + (f y :: int)"
  by (induction xs arbitrary: t) (auto split: nat.splits)

lemma total_update:
  assumes "t < length xs" "\<not> returned (xs ! t)" "p (0, 0, 0) = 0"
  shows "total p (xs[t := y]) = total p xs + p (tx_counts y)"
  using assms unfolding total_def by (subst sum_list_map_update) simp_all

definition loses :: "move \<Rightarrow> bool" where
  "loses m \<longleftrightarrow> (\<exists>t err. m = LoseAck t err)"

lemma table_counts_partition [simp]: "table_counts (db\<lparr>db_partitions := ps\<rparr>) = table_counts db"
  by (simp add: table_counts_def)

lemma advance_not_returned: "advance ts os db x = Some p \<Longrightarrow> \<not> returned x"
  by (auto simp: advance_def returned_def split: pc.splits)

lemma advance_silent:
  assumes "advance ts os db x = Some (db', x')" "tx_pc x \<noteq> AtCommit"
  shows "db' = db \<and> tx_counts x' = (0, 0, 0)"
  using assms
  by (auto simp: advance_def step_insert_def step_effect_def step_open_def step_update_def Let_def counts_of_def
      tx_counts_def split: pc.splits if_splits)

lemma schedule_step_counts:
  assumes "conc_inv ts S" "\<forall>x \<in> set (cs_txs S). res_ok x" "conc_step ts m S = Some S'" "\<not> loses m"
  shows "\<forall>x \<in> set (cs_txs S'). res_ok x" "ahead fst S' = ahead fst S"
    "ahead (fst \<circ> snd) S' = ahead (fst \<circ> snd) S" "ahead (snd \<circ> snd) S' \<le> ahead (snd \<circ> snd) S"
    "\<forall>x \<in> set (cs_txs S). ends_open (cs_db S) x \<Longrightarrow> ahead (snd \<circ> snd) S' = ahead (snd \<circ> snd) S"
proof -
  have *: "(\<forall>x \<in> set (cs_txs S'). res_ok x) \<and> ahead fst S' = ahead fst S \<and>
    ahead (fst \<circ> snd) S' = ahead (fst \<circ> snd) S \<and> ahead (snd \<circ> snd) S' \<le> ahead (snd \<circ> snd) S \<and>
    ((\<forall>x \<in> set (cs_txs S). ends_open (cs_db S) x) \<longrightarrow> ahead (snd \<circ> snd) S' = ahead (snd \<circ> snd) S)"
  proof (cases m)
    case (Begin e ev)
    then show ?thesis using assms(2,3) res_ok_begin by (auto simp: ahead_def total_def)
  next
    case (Advance t)
    let ?x = "cs_txs S ! t"
    obtain db' x' where t: "t < length (cs_txs S)"
        and adv: "advance ts (others t (cs_txs S)) (cs_db S) ?x = Some (db', x')"
        and S': "S' = \<lparr>cs_db = db', cs_txs = (cs_txs S)[t := x']\<rparr>"
      using assms(3) Advance by (auto split: if_splits option.splits)
    have x: "db_inv (cs_db S)" "tx_ok ts (cs_db S) ?x" "res_ok ?x" using assms(1,2) t by (auto simp: conc_inv_defs)
    have ok: "\<forall>y \<in> set (cs_txs S'). res_ok y"
      using assms(2) advance_res_ok [OF x(1,2) adv] set_update_subset_insert [of "cs_txs S" t x'] by (auto simp: S')
    note upd = total_update [OF t advance_not_returned [OF adv], of _ x']
    show ?thesis
    proof (cases "tx_pc ?x = AtCommit")
      case True
      have c: "db' = apply_tx ts ?x (cs_db S)" "tx_counts x' = pending_counts ?x"
        using adv True counts_of_commit [OF x(2) True x(3)] by (auto simp: advance_def)
      have "ends_open (cs_db S) ?x" if "\<forall>x \<in> set (cs_txs S). ends_open (cs_db S) x" using that t by simp
      then show ?thesis using ok upd commit_counts [OF x] by (auto simp: S' ahead_def c)
    next
      case False
      then show ?thesis using ok upd advance_silent [OF adv False] by (auto simp: S' ahead_def)
    qed
  next
    case (Fault t err)
    let ?x = "cs_txs S ! t" and ?err = "Some (fault_error (cs_txs S ! t) err)"
    have t: "t < length (cs_txs S)" "\<not> returned ?x"
        "S' = \<lparr>cs_db = cs_db S, cs_txs = (cs_txs S)[t := return_tx ?x (tx_res ?x) ?err]\<rparr>"
      using assms(3) by (auto simp: Fault Let_def can_fault_def split: if_splits)
    have "counts_of (tx_res ?x, ?err) = (0, 0, 0)" by (simp add: counts_of_def)
    then show ?thesis
      using assms(2) total_update [OF t(1,2)] res_ok_begin(2) set_update_subset_insert [of "cs_txs S" t]
      by (auto simp: t(3) ahead_def dest!: set_update_subset_insert [THEN subsetD])
  next
    case (LoseAck t err)
    then show ?thesis using assms(4) by (simp add: loses_def)
  next
    case (AddPartition p)
    then show ?thesis using assms(2,3) by (auto simp: ahead_def)
  qed
  show "\<forall>x \<in> set (cs_txs S'). res_ok x" "ahead fst S' = ahead fst S"
    "ahead (fst \<circ> snd) S' = ahead (fst \<circ> snd) S" "ahead (snd \<circ> snd) S' \<le> ahead (snd \<circ> snd) S"
    using * by blast+
  show "ahead (snd \<circ> snd) S' = ahead (snd \<circ> snd) S" if "\<forall>x \<in> set (cs_txs S). ends_open (cs_db S) x"
    using * that by blast
qed

lemma schedule_counts:
  assumes "run_schedule ts ms S = Some S'" "conc_inv ts S" "\<forall>x \<in> set (cs_txs S). res_ok x" "\<forall>m \<in> set ms. \<not> loses m"
  shows "ahead fst S' = ahead fst S \<and> ahead (fst \<circ> snd) S' = ahead (fst \<circ> snd) S \<and>
    ahead (snd \<circ> snd) S' \<le> ahead (snd \<circ> snd) S \<and>
    (final_inv ts S \<longrightarrow> no_fallback ts ms S \<longrightarrow> ahead (snd \<circ> snd) S' = ahead (snd \<circ> snd) S)"
  using assms
proof (induction ms arbitrary: S)
  case (Cons m ms)
  then obtain S1 where S1: "conc_step ts m S = Some S1" "run_schedule ts ms S1 = Some S'" by (auto split: option.splits)
  have m: "\<not> loses m" using Cons.prems by simp
  note st = schedule_step_counts [OF Cons.prems(2,3) S1(1) m]
  note ih = Cons.IH [OF S1(2) conc_step_inv [OF Cons.prems(2) S1(1)] st(1)]
  have fin: "final_inv ts S1 \<and> no_fallback ts ms S1 \<and> ahead (snd \<circ> snd) S1 = ahead (snd \<circ> snd) S"
    if "final_inv ts S" "no_fallback ts (m # ms) S"
  proof -
    have "final_inv ts S1" using final_step [OF that(1) S1(1)] that(2) by simp
    moreover have "\<forall>x \<in> set (cs_txs S). ends_open (cs_db S) x" using that(1) by (simp add: final_inv_defs)
    ultimately show ?thesis using that(2) S1(1) st(5) by simp
  qed
  have rest: "\<forall>m \<in> set ms. \<not> loses m" using Cons.prems(4) by simp
  note ih = ih [OF rest]
  have "ahead (snd \<circ> snd) S' \<le> ahead (snd \<circ> snd) S" using ih st(4) by linarith
  moreover have "ahead (snd \<circ> snd) S' = ahead (snd \<circ> snd) S" if "final_inv ts S" "no_fallback ts (m # ms) S"
    using ih fin [OF that] by metis
  ultimately show ?case using ih st(2,3) by (metis (no_types, lifting))
qed simp

end
