(* ===== verification/Receiver.thy ===== *)
theory Receiver
  imports Schedule_Counts
begin

text \<open>
  The receiver over the PostgreSQL writer, one request after the other: what a sequence of requests does
  to the tables and to the counters, and a genuine delivery for the examples.
\<close>

section \<open>The receiver over the PostgreSQL writer\<close>

text \<open>A sequence of requests handled one after the other by the receiver that \<open>run\<close> wires up: each with
  its own environment and elapsed time; the effects of all of them in order.\<close>

fun handle_all ::
    "'u deps \<Rightarrow> jwt_parse \<Rightarrow> (Time \<Rightarrow> int) \<Rightarrow> LiveKitHandler \<Rightarrow> database \<Rightarrow> (env \<times> int \<times> request) list
      \<Rightarrow> database \<times> effect list" where
  "handle_all d parse ts h db [] = (db, [])"
| "handle_all d parse ts h db ((e, elapsed, r) # rs) =
     (let (db', es) = ServeHTTP d parse (RecordEvent ts) h e elapsed db r;
          (db'', es') = handle_all d parse ts h db' rs
      in (db'', es @ es'))"

lemma ServeHTTP_state:
  "fst (ServeHTTP d parse rec h e elapsed s r) =
     (case http_fate d parse h r of Handled ev disp \<Rightarrow> fst (rec e s ev) | _ \<Rightarrow> s)"
  unfolding ServeHTTP_def http_fate_def by (simp add: serve_fate split: fate.split)

lemma ServeHTTP_keeps:
  assumes "db_inv db"
  shows "db_inv (fst (ServeHTTP d parse (RecordEvent ts) h e elapsed db r))"
    "recorded_keys db \<subseteq> recorded_keys (fst (ServeHTTP d parse (RecordEvent ts) h e elapsed db r))"
  using assms RecordEvent_inv [OF assms] pg.writer_frame [OF assms]
  by (auto simp: ServeHTTP_state split: fate.split)

lemma handle_all_keeps:
  "db_inv db \<Longrightarrow> db_inv (fst (handle_all d parse ts h db rs)) \<and>
     recorded_keys db \<subseteq> recorded_keys (fst (handle_all d parse ts h db rs))"
proof (induction d parse ts h db rs rule: handle_all.induct)
  case (2 d parse ts h db e elapsed r rs)
  then show ?case
    using ServeHTTP_keeps [OF 2(2), of d parse ts h e elapsed r] by (fastforce split: prod.splits)
qed simp

definition add3 :: "int \<times> int \<times> int \<Rightarrow> int \<times> int \<times> int \<Rightarrow> int \<times> int \<times> int" where
  "add3 x y = (fst x + fst y, fst (snd x) + fst (snd y), snd (snd x) + snd (snd y))"

lemma counters_append: "counters m (xs @ ys) = add3 (counters m xs) (counters m ys)"
  by (simp add: counters_def add3_def)

lemma add3_assoc: "add3 (add3 x y) z = add3 x (add3 y z)"
  by (simp add: add3_def)

lemma add3_zero [simp]: "add3 x (0, 0, 0) = x"
  by (simp add: add3_def)

lemma effect_result_stored: "rs_Stored (effect_result e ev js)" "0 \<le> rs_JoinsClosed (effect_result e ev js)"
  by (auto simp: effect_result_def close_result_def Let_def)

lemma RecordEvent_table_counts:
  assumes "db_inv db" "\<And>x. en_commit e \<noteq> CommitLost x"
  shows "table_counts (fst (RecordEvent ts e db ev)) = add3 (table_counts db) (counts_of (snd (RecordEvent ts e db ev)))"
proof -
  obtain db' res err where eq: "RecordEvent ts e db ev = (db', res, err)" by (metis prod_cases3)
  have dist: "distinct (map jr_join_id (db_participant_join db))" using assms(1) by (simp add: db_inv_def)
  note counts = join_effect_counts [OF dist, of ts e ev] effect_result_stored [of e ev "db_participant_join db"]
  show ?thesis
    by (rule RecordEvent_cases [OF eq])
      (use eq assms(2) counts in \<open>auto simp: counts_of_def table_counts_def add3_def\<close>)
qed

lemma ServeHTTP_table_counts:
  assumes "db_inv db" "\<And>x. en_commit e \<noteq> CommitLost x" "distinct (instrument_names (h_metrics h))"
  shows "table_counts (fst (ServeHTTP d parse (RecordEvent ts) h e elapsed db r)) =
    add3 (table_counts db)
      (counters (h_metrics h) (measured (snd (ServeHTTP d parse (RecordEvent ts) h e elapsed db r))))"
  using RecordEvent_table_counts [OF assms(1,2), of ts]
  unfolding ServeHTTP_state
  unfolding ServeHTTP_def http_fate_def serve_counters [OF assms(3) refl]
  by (simp add: writer_answer_def counts_of_def [of "(zeroResult, None)"] split: fate.split)

lemma handle_all_table_counts:
  assumes "db_inv db" "\<forall>q \<in> set rs. \<forall>x. en_commit (fst q) \<noteq> CommitLost x"
    and "distinct (instrument_names (h_metrics h))"
  shows "table_counts (fst (handle_all d parse ts h db rs)) =
    add3 (table_counts db) (counters (h_metrics h) (measured (snd (handle_all d parse ts h db rs))))"
  using assms
proof (induction d parse ts h db rs rule: handle_all.induct)
  case (1 d parse ts h db)
  then show ?case by (simp add: counters_def)
next
  case (2 d parse ts h db e elapsed r rs)
  let ?one = "ServeHTTP d parse (RecordEvent ts) h e elapsed db r"
  obtain db' es where one: "?one = (db', es)" by (cases ?one)
  have inv: "db_inv db'" using ServeHTTP_keeps(1) [OF 2(2), of d parse ts h e elapsed r] by (simp add: one)
  have "table_counts db' = add3 (table_counts db) (counters (h_metrics h) (measured es))"
    using ServeHTTP_table_counts [OF 2(2) _ 2(4), of e d parse ts elapsed r] 2(3) by (simp add: one)
  moreover have "table_counts (fst (handle_all d parse ts h db' rs)) =
      add3 (table_counts db') (counters (h_metrics h) (measured (snd (handle_all d parse ts h db' rs))))"
    using 2(1) [OF one [symmetric] refl inv _ 2(4)] 2(3) by simp
  ultimately show ?case
    by (simp add: one counters_append add3_assoc case_prod_beta)
qed

text \<open>What the sender of a verified, decodable delivery in scope sees.\<close>

lemma handled_status:
  assumes "distinct (instrument_names (h_metrics h))" "http_fate d parse h r = Handled ev disp"
  shows "response (snd (ServeHTTP d parse (RecordEvent ts) h e elapsed db r)) =
    [case snd (snd (RecordEvent ts e db ev)) of Some (OtherError t) \<Rightarrow> 500 | _ \<Rightarrow> 200]"
  using serve_answer [OF assms(1) assms(2) [unfolded http_fate_def, symmetric] refl refl,
      where rec = "RecordEvent ts" and env = e and s = db and elapsed = elapsed]
  by (simp add: ServeHTTP_def writer_answer_def answer_def split: option.split store_error.split)

lemma handle_all_append:
  "handle_all d parse ts h db (rs @ rs') =
     (let (db', es) = handle_all d parse ts h db rs; (db'', es') = handle_all d parse ts h db' rs' in (db'', es @ es'))"
  by (induction d parse ts h db rs rule: handle_all.induct) (auto split: prod.splits)

section \<open>A genuine delivery\<close>

definition demo_body :: bytes where
  "demo_body = raw_json (real_delivery 1787791385)"

definition demo_joined :: Event where
  "demo_joined = fst (Translate demo_deps demo_body 0)"

definition demo_receiver :: LiveKitHandler where
  "demo_receiver = NewLiveKitHandler demo_verifier demo_ingest (int (length demo_body))"

definition demo_empty :: database where
  "demo_empty = \<lparr>db_partitions = [(0, 10 ^ 18)], db_event_raw = [], db_participant_join = []\<rparr>"

lemma demo_Translate:
  "Translate demo_deps demo_body 0 = (demo_joined, Ingest, None)"
  "ev_Type demo_joined = EventParticipantJoined" "ev_OccurredAt demo_joined = time_Unix 1787791385"
proof -
  have "time_json 1787791385 (JStr (int_text 1787791385))" by (simp add: time_json_def int64_json_def maxInt64_def)
  then have "\<exists>ev. Translate demo_deps demo_body 0 = (ev, Ingest, None) \<and>
      ev_Type ev = EventParticipantJoined \<and> ev_OccurredAt ev = time_Unix 1787791385"
    unfolding demo_body_def real_delivery_def
    using Translate_delivery [OF real_fields(1,2) _ real_fields(9,10), of 1787791385 _ None demo_deps 0]
    by (simp add: real_fields CorrelatedEventTypes_def event_type_defs)
  then show "Translate demo_deps demo_body 0 = (demo_joined, Ingest, None)"
    "ev_Type demo_joined = EventParticipantJoined" "ev_OccurredAt demo_joined = time_Unix 1787791385"
    by (auto simp: demo_joined_def)
qed

lemma demo_fate:
  "http_fate demo_deps (demo_parse demo_body) demo_receiver (demo_request demo_body ''token'') = Handled demo_joined Ingest"
  using demo_Verify [of demo_body] demo_Translate(1)
  by (simp add: http_fate_def fate_of_def read_body_def demo_receiver_def NewLiveKitHandler_def demo_request_def)

lemma demo_empty_inv: "db_inv demo_empty"
  by (simp add: db_inv_def demo_empty_def)

lemma demo_recorded: "snd (snd (RecordEvent demo_ts (demo_env ''u1'') demo_empty demo_joined)) = None"
proof -
  have "covered (db_partitions demo_empty) (demo_ts (ev_OccurredAt demo_joined))"
    by (simp add: covered_def demo_empty_def demo_ts_def demo_Translate(3) time_Unix_def wrap64_def unixToInternal_def)
  moreover have "event_identity demo_ts demo_joined \<notin> recorded_keys demo_empty"
    by (simp add: recorded_keys_def demo_empty_def)
  moreover have "effect_ok demo_ts (demo_env ''u1'') demo_joined (db_participant_join demo_empty)"
    using closing_not_joined [OF demo_Translate(2)] by (simp add: effect_ok_def demo_empty_def)
  ultimately show ?thesis by (simp add: RecordEvent_spec_quiet)
qed

end
