(* ===== verification/Receiver_Concurrent.thy ===== *)
theory Receiver_Concurrent
  imports Receiver
begin

text \<open>
  The receiver as the HTTP server runs it: every request has its goroutine, the handlers run
  concurrently, and what they share is the store (\<open>Postgres_Concurrent\<close>) and the instruments. A handler
  is before the store (reading, verifying and translating touch nothing shared), inside
  \<open>RecordEvent\<close> with a transaction, or has answered. The steps of the store are those of
  \<open>conc_step\<close>; the value of a counter is the sum over the handlers of what each has added.
\<close>

section \<open>Handlers\<close>

datatype handler_pc = Arrived | Storing nat Event Disposition | Answered "nat option"

record handler =
  hn_req :: request
  hn_env :: env
  hn_elapsed :: int
  hn_pc :: handler_pc
  hn_effects :: "effect list"

record receiver =
  rv_store :: cstate
  rv_handlers :: "handler list"

definition arrive :: "env \<Rightarrow> int \<Rightarrow> request \<Rightarrow> handler" where
  "arrive e elapsed r =
     \<lparr>hn_req = r, hn_env = e, hn_elapsed = elapsed, hn_pc = Arrived, hn_effects = []\<rparr>"

text \<open>The part of \<open>ServeHTTP\<close> before the call of \<open>RecordEvent\<close>, when there is one, and the whole of it when
  there is none.\<close>

definition before_store :: "Ingest \<Rightarrow> Event \<Rightarrow> Disposition \<Rightarrow> effect list" where
  "before_store m ev disp =
     (if disp = Store then map Measure (Unrecognised m BackendLiveKit (ev_Type ev)) else []) @
     [SpanAttribute ''sap.event_type'' (AString (ev_Type ev)), SpanAttribute ''sap.room'' (AString (ev_RoomName ev))]"

definition refuse :: "Ingest \<Rightarrow> int \<Rightarrow> request \<Rightarrow> fate \<Rightarrow> effect list" where
  "refuse m elapsed r f =
     (let (status, outcome, verified) = answer f (zeroResult, None)
      in serve_prefix m r f (zeroResult, None) @ finish m BackendLiveKit elapsed verified status outcome)"

definition begin_error :: "db_error \<Rightarrow> store_error" where
  "begin_error err = OtherError (''postgres: begin: '' @ error_text err)"

definition proceed :: "'u deps \<Rightarrow> jwt_parse \<Rightarrow> LiveKitHandler \<Rightarrow> cstate \<Rightarrow> handler \<Rightarrow> cstate \<times> handler" where
  "proceed d parse h S x =
     (let m = h_metrics h; f = http_fate d parse h (hn_req x) in
      case f of
        Handled ev disp \<Rightarrow>
          (case en_begin (hn_env x) of
             Some err \<Rightarrow>
               (S, x\<lparr>hn_pc := Answered None,
                     hn_effects := before_store m ev disp @
                       after_record m BackendLiveKit (hn_elapsed x) ev zeroResult (Some (begin_error err))\<rparr>)
           | None \<Rightarrow>
               (S\<lparr>cs_txs := cs_txs S @ [begin_tx (hn_env x) ev]\<rparr>,
                x\<lparr>hn_pc := Storing (length (cs_txs S)) ev disp, hn_effects := before_store m ev disp\<rparr>))
      | _ \<Rightarrow> (S, x\<lparr>hn_pc := Answered None, hn_effects := refuse m (hn_elapsed x) (hn_req x) f\<rparr>))"

definition respond :: "LiveKitHandler \<Rightarrow> cstate \<Rightarrow> handler \<Rightarrow> handler option" where
  "respond h S x =
     (case hn_pc x of
        Storing t ev disp \<Rightarrow>
          (case tx_pc (cs_txs S ! t) of
             Returned res err \<Rightarrow>
               Some (x\<lparr>hn_pc := Answered (Some t),
                       hn_effects := hn_effects x @
                         after_record (h_metrics h) BackendLiveKit (hn_elapsed x) ev res err\<rparr>)
           | _ \<Rightarrow> None)
      | _ \<Rightarrow> None)"

datatype receiver_move = Arrive env int request | Proceed nat | StoreStep move | Respond nat

fun begins :: "move \<Rightarrow> bool" where
  "begins (Begin e ev) \<longleftrightarrow> True"
| "begins _ \<longleftrightarrow> False"

fun receiver_step ::
    "'u deps \<Rightarrow> jwt_parse \<Rightarrow> (Time \<Rightarrow> int) \<Rightarrow> LiveKitHandler \<Rightarrow> receiver_move \<Rightarrow> receiver \<Rightarrow> receiver option" where
  "receiver_step d parse ts h (Arrive e elapsed r) R =
     Some (R\<lparr>rv_handlers := rv_handlers R @ [arrive e elapsed r]\<rparr>)"
| "receiver_step d parse ts h (Proceed i) R =
     (if i < length (rv_handlers R) \<and> hn_pc (rv_handlers R ! i) = Arrived
      then let (S, x) = proceed d parse h (rv_store R) (rv_handlers R ! i)
           in Some \<lparr>rv_store = S, rv_handlers = (rv_handlers R)[i := x]\<rparr>
      else None)"
| "receiver_step d parse ts h (StoreStep m) R =
     (if begins m then None
      else map_option (\<lambda>S. R\<lparr>rv_store := S\<rparr>) (conc_step ts m (rv_store R)))"
| "receiver_step d parse ts h (Respond i) R =
     (if i < length (rv_handlers R)
      then map_option (\<lambda>x. R\<lparr>rv_handlers := (rv_handlers R)[i := x]\<rparr>) (respond h (rv_store R) (rv_handlers R ! i))
      else None)"

fun run_receiver ::
    "'u deps \<Rightarrow> jwt_parse \<Rightarrow> (Time \<Rightarrow> int) \<Rightarrow> LiveKitHandler \<Rightarrow> receiver_move list \<Rightarrow> receiver \<Rightarrow> receiver option" where
  "run_receiver d parse ts h [] R = Some R"
| "run_receiver d parse ts h (m # ms) R =
     (case receiver_step d parse ts h m R of None \<Rightarrow> None | Some R' \<Rightarrow> run_receiver d parse ts h ms R')"

definition idle_receiver :: "database \<Rightarrow> receiver" where
  "idle_receiver db = \<lparr>rv_store = fresh_state db, rv_handlers = []\<rparr>"

section \<open>The steps of the store\<close>

text \<open>What a move of the receiver does to the store, as moves of the store.\<close>

definition store_moves ::
    "'u deps \<Rightarrow> jwt_parse \<Rightarrow> LiveKitHandler \<Rightarrow> receiver_move \<Rightarrow> receiver \<Rightarrow> move list" where
  "store_moves d parse h m R =
     (case m of
        StoreStep n \<Rightarrow> [n]
      | Proceed i \<Rightarrow>
          (case http_fate d parse h (hn_req (rv_handlers R ! i)) of
             Handled ev disp \<Rightarrow>
               if en_begin (hn_env (rv_handlers R ! i)) = None then [Begin (hn_env (rv_handlers R ! i)) ev] else []
           | _ \<Rightarrow> [])
      | _ \<Rightarrow> [])"

fun store_schedule ::
    "'u deps \<Rightarrow> jwt_parse \<Rightarrow> (Time \<Rightarrow> int) \<Rightarrow> LiveKitHandler \<Rightarrow> receiver_move list \<Rightarrow> receiver \<Rightarrow> move list" where
  "store_schedule d parse ts h [] R = []"
| "store_schedule d parse ts h (m # ms) R =
     store_moves d parse h m R @
     (case receiver_step d parse ts h m R of None \<Rightarrow> [] | Some R' \<Rightarrow> store_schedule d parse ts h ms R')"

lemma run_schedule_append:
  "run_schedule ts (xs @ ys) S = (case run_schedule ts xs S of None \<Rightarrow> None | Some S' \<Rightarrow> run_schedule ts ys S')"
  by (induction xs arbitrary: S) (auto split: option.splits)

lemma receiver_step_store:
  assumes "receiver_step d parse ts h m R = Some R'"
  shows "run_schedule ts (store_moves d parse h m R) (rv_store R) = Some (rv_store R')"
proof (cases m)
  case (Proceed i)
  then show ?thesis
    using assms by (auto simp: store_moves_def proceed_def Let_def split: if_splits fate.splits option.splits)
qed (use assms in \<open>auto simp: store_moves_def split: if_splits option.splits\<close>)

lemma run_receiver_store:
  "run_receiver d parse ts h ms R = Some R' \<Longrightarrow>
   run_schedule ts (store_schedule d parse ts h ms R) (rv_store R) = Some (rv_store R')"
proof (induction ms arbitrary: R)
  case (Cons m ms)
  then obtain R1 where R1: "receiver_step d parse ts h m R = Some R1" "run_receiver d parse ts h ms R1 = Some R'"
    by (auto split: option.splits)
  then show ?case using receiver_step_store [OF R1(1)] Cons.IH [OF R1(2)] by (simp add: run_schedule_append)
qed simp

text \<open>A transaction that has returned stays as it is, and no transaction changes its event.\<close>

lemma advance_event: "advance ts os db x = Some (db', x') \<Longrightarrow> tx_ev x' = tx_ev x"
  by (auto simp: advance_def step_insert_def step_effect_def step_open_def step_update_def Let_def
      split: pc.splits if_splits)

lemma conc_step_frame:
  assumes "conc_step ts m S = Some S'" "\<not> begins m"
  shows "length (cs_txs S') = length (cs_txs S)"
    "t < length (cs_txs S) \<Longrightarrow> tx_ev (cs_txs S' ! t) = tx_ev (cs_txs S ! t)"
    "t < length (cs_txs S) \<Longrightarrow> returned (cs_txs S ! t) \<Longrightarrow> cs_txs S' ! t = cs_txs S ! t"
  using assms
  by (cases m; auto simp: nth_list_update can_fault_def Let_def returned_def dest: advance_event advance_not_returned
      split: if_splits option.splits)+

section \<open>The invariant of the handlers\<close>

text \<open>The effects of one request when the writer answers \<open>w\<close>: those of the sequential handler.\<close>

definition served :: "'u deps \<Rightarrow> jwt_parse \<Rightarrow> LiveKitHandler \<Rightarrow> handler \<Rightarrow> Result \<times> store_error option \<Rightarrow> effect list" where
  "served d parse h x w =
     snd (ServeHTTP d parse (\<lambda>e s ev. (s, w)) h (hn_env x) (hn_elapsed x) () (hn_req x))"

lemma served_handled:
  "http_fate d parse h (hn_req x) = Handled ev disp \<Longrightarrow>
   served d parse h x w = before_store (h_metrics h) ev disp @
     after_record (h_metrics h) BackendLiveKit (hn_elapsed x) ev (fst w) (snd w)"
  unfolding served_def ServeHTTP_def http_fate_def by (simp add: serve_fate before_store_def)

lemma served_refused:
  assumes "\<And>ev disp. http_fate d parse h (hn_req x) \<noteq> Handled ev disp"
  shows "served d parse h x w = refuse (h_metrics h) (hn_elapsed x) (hn_req x) (http_fate d parse h (hn_req x))"
  using assms unfolding served_def ServeHTTP_def http_fate_def serve_fate
  by (cases "fate_of (Verify parse (h_verifier h)) (Translate d) (h_maxBodyBytes h) (hn_req x)")
    (simp_all add: refuse_def serve_prefix_def answer_def, blast)

definition tx_of :: "handler \<Rightarrow> nat option" where
  "tx_of x = (case hn_pc x of Arrived \<Rightarrow> None | Storing t ev disp \<Rightarrow> Some t | Answered ot \<Rightarrow> ot)"

definition handler_ok :: "'u deps \<Rightarrow> jwt_parse \<Rightarrow> LiveKitHandler \<Rightarrow> tx list \<Rightarrow> handler \<Rightarrow> bool" where
  "handler_ok d parse h txs x \<longleftrightarrow>
     (case hn_pc x of
        Arrived \<Rightarrow> hn_effects x = []
      | Storing t ev disp \<Rightarrow> t < length txs \<and> tx_ev (txs ! t) = ev \<and>
          http_fate d parse h (hn_req x) = Handled ev disp \<and> hn_effects x = before_store (h_metrics h) ev disp
      | Answered None \<Rightarrow>
          \<exists>w. hn_effects x = served d parse h x w \<and> counts_of w = (0, 0, 0) \<and>
            (\<forall>ev disp. http_fate d parse h (hn_req x) = Handled ev disp \<longrightarrow> (\<exists>e. snd w = Some (OtherError e)))
      | Answered (Some t) \<Rightarrow>
          \<exists>res err disp. t < length txs \<and> tx_pc (txs ! t) = Returned res err \<and>
            http_fate d parse h (hn_req x) = Handled (tx_ev (txs ! t)) disp \<and>
            hn_effects x = served d parse h x (res, err))"

definition receiver_inv :: "'u deps \<Rightarrow> jwt_parse \<Rightarrow> LiveKitHandler \<Rightarrow> receiver \<Rightarrow> bool" where
  "receiver_inv d parse h R \<longleftrightarrow>
     mset (List.map_filter tx_of (rv_handlers R)) = mset [0 ..< length (cs_txs (rv_store R))] \<and>
     (\<forall>x \<in> set (rv_handlers R). handler_ok d parse h (cs_txs (rv_store R)) x)"

lemma mset_map_filter_update:
  assumes "i < length xs" "f (xs ! i) = None"
  shows "mset (List.map_filter f (xs[i := y])) = mset (List.map_filter f xs) + mset_set (set_option (f y))"
  using assms
proof (induction xs arbitrary: i)
  case (Cons x xs)
  then show ?case by (cases i) (auto simp: List.map_filter_def split: option.splits)
qed simp

lemma map_filter_update_same:
  "i < length xs \<Longrightarrow> f y = f (xs ! i) \<Longrightarrow> List.map_filter f (xs[i := y]) = List.map_filter f xs"
proof (induction xs arbitrary: i)
  case (Cons x xs)
  then show ?case by (cases i) (auto simp: List.map_filter_def)
qed simp

lemma handler_ok_more: "handler_ok d parse h txs x \<Longrightarrow> handler_ok d parse h (txs @ [y]) x"
  by (auto simp: handler_ok_def nth_append split: handler_pc.splits option.splits)

lemma handler_ok_frame:
  assumes "handler_ok d parse h txs x" "length txs' = length txs"
    and "\<And>t. t < length txs \<Longrightarrow> tx_ev (txs' ! t) = tx_ev (txs ! t)"
    and "\<And>t. t < length txs \<Longrightarrow> returned (txs ! t) \<Longrightarrow> txs' ! t = txs ! t"
  shows "handler_ok d parse h txs' x"
proof (cases "\<exists>t. hn_pc x = Answered (Some t)")
  case True
  then obtain t res err disp where t: "hn_pc x = Answered (Some t)" "t < length txs" "tx_pc (txs ! t) = Returned res err"
      "http_fate d parse h (hn_req x) = Handled (tx_ev (txs ! t)) disp" "hn_effects x = served d parse h x (res, err)"
    using assms(1) by (auto simp: handler_ok_def)
  then have "txs' ! t = txs ! t" using assms(4) by (simp add: returned_def)
  then show ?thesis using t assms(2) by (auto simp: handler_ok_def)
next
  case False
  then show ?thesis using assms(1-3) by (auto simp: handler_ok_def split: handler_pc.splits option.splits)
qed

lemma proceed_ok:
  assumes "proceed d parse h S x = (S', x')" "hn_pc x = Arrived"
  shows "handler_ok d parse h (cs_txs S') x'"
    "S' = S \<and> tx_of x' = None \<or> (\<exists>e ev. cs_db S' = cs_db S \<and> cs_txs S' = cs_txs S @ [begin_tx e ev] \<and> tx_of x' = Some (length (cs_txs S)))"
proof -
  let ?f = "http_fate d parse h (hn_req x)"
  have 1: "handler_ok d parse h (cs_txs S') x' \<and> (S' = S \<and> tx_of x' = None \<or>
      (\<exists>e ev. cs_db S' = cs_db S \<and> cs_txs S' = cs_txs S @ [begin_tx e ev] \<and> tx_of x' = Some (length (cs_txs S))))"
  proof (cases "\<exists>ev disp. ?f = Handled ev disp")
    case True
    then obtain ev disp where f: "?f = Handled ev disp" by blast
    show ?thesis
    proof (cases "en_begin (hn_env x)")
      case None
      then show ?thesis
        using assms f by (auto simp: proceed_def Let_def handler_ok_def tx_of_def begin_tx_def)
    next
      case (Some err)
      have x': "S' = S" "hn_pc x' = Answered None" "hn_req x' = hn_req x" "hn_elapsed x' = hn_elapsed x"
          "hn_effects x' = before_store (h_metrics h) ev disp @
             after_record (h_metrics h) BackendLiveKit (hn_elapsed x) ev zeroResult (Some (begin_error err))"
        using assms f Some by (auto simp: proceed_def Let_def)
      then have "hn_effects x' = served d parse h x' (zeroResult, Some (begin_error err))"
        using served_handled [of d parse h x' ev disp] f by simp
      moreover have "counts_of (zeroResult, Some (begin_error err)) = (0, 0, 0)" by (simp add: counts_of_def)
      ultimately show ?thesis using x' by (auto simp: handler_ok_def tx_of_def begin_error_def)
    qed
  next
    case False
    have x': "S' = S" "hn_pc x' = Answered None" "hn_req x' = hn_req x" "hn_elapsed x' = hn_elapsed x"
        "hn_effects x' = refuse (h_metrics h) (hn_elapsed x) (hn_req x) ?f"
      using assms False by (auto simp: proceed_def Let_def split: fate.splits)
    have "hn_effects x' = served d parse h x' (zeroResult, None)"
      using served_refused [of d parse h x'] False x' by simp
    moreover have "counts_of (zeroResult, None) = (0, 0, 0)" by (simp add: counts_of_def zeroResult_def)
    ultimately show ?thesis using x' False by (auto simp: handler_ok_def tx_of_def)
  qed
  show "handler_ok d parse h (cs_txs S') x'" using 1 by blast
  show "S' = S \<and> tx_of x' = None \<or> (\<exists>e ev. cs_db S' = cs_db S \<and> cs_txs S' = cs_txs S @ [begin_tx e ev] \<and> tx_of x' = Some (length (cs_txs S)))"
    using 1 by blast
qed

lemma respond_ok:
  assumes "respond h S x = Some x'" "handler_ok d parse h (cs_txs S) x"
  shows "handler_ok d parse h (cs_txs S) x' \<and> tx_of x' = tx_of x"
proof -
  obtain t ev disp res err where r: "hn_pc x = Storing t ev disp" "tx_pc (cs_txs S ! t) = Returned res err"
      "x' = x\<lparr>hn_pc := Answered (Some t), hn_effects := hn_effects x @
         after_record (h_metrics h) BackendLiveKit (hn_elapsed x) ev res err\<rparr>"
    using assms(1) by (auto simp: respond_def split: handler_pc.splits pc.splits)
  have ok: "t < length (cs_txs S)" "tx_ev (cs_txs S ! t) = ev" "http_fate d parse h (hn_req x) = Handled ev disp"
      "hn_effects x = before_store (h_metrics h) ev disp"
    using assms(2) r(1) by (auto simp: handler_ok_def)
  have "hn_effects x' = served d parse h x' (res, err)"
    using served_handled [of d parse h x' ev disp "(res, err)"] ok by (simp add: r(3))
  then show ?thesis using ok r by (auto simp: handler_ok_def tx_of_def)
qed

lemma set_update_cases: "y \<in> set (xs[i := x]) \<Longrightarrow> y = x \<or> y \<in> set xs"
  using set_update_subset_insert by fastforce

lemma receiver_step_inv:
  assumes "receiver_inv d parse h R" "receiver_step d parse ts h m R = Some R'"
  shows "receiver_inv d parse h R'"
proof (cases m)
  case (Arrive e elapsed r)
  have new: "tx_of (arrive e elapsed r) = None" "handler_ok d parse h txs (arrive e elapsed r)" for txs
    by (simp_all add: tx_of_def handler_ok_def arrive_def)
  have R': "R' = R\<lparr>rv_handlers := rv_handlers R @ [arrive e elapsed r]\<rparr>" using assms(2) Arrive by simp
  show ?thesis using assms(1) new by (auto simp: receiver_inv_def R' map_filter_append List.map_filter_def)
next
  case (Proceed i)
  let ?x = "rv_handlers R ! i"
  obtain S' x' where pr: "proceed d parse h (rv_store R) ?x = (S', x')"
    by (cases "proceed d parse h (rv_store R) ?x")
  then have i: "i < length (rv_handlers R)" "hn_pc ?x = Arrived" "proceed d parse h (rv_store R) ?x = (S', x')"
      and R': "R' = \<lparr>rv_store = S', rv_handlers = (rv_handlers R)[i := x']\<rparr>"
    using assms(2) Proceed by (auto split: if_splits)
  note p = proceed_ok [OF i(3,2)]
  have none: "tx_of ?x = None" using i(2) by (simp add: tx_of_def)
  have "mset (List.map_filter tx_of ((rv_handlers R)[i := x'])) = mset [0 ..< length (cs_txs S')]"
    using p(2) assms(1) by (auto simp: mset_map_filter_update [where f = tx_of, OF i(1) none] receiver_inv_def simp del: mset_upt)
  moreover have "handler_ok d parse h (cs_txs S') y" if "y \<in> set (rv_handlers R)" for y
  proof -
    have ok: "handler_ok d parse h (cs_txs (rv_store R)) y" using assms(1) that by (simp add: receiver_inv_def)
    from p(2) show ?thesis
    proof (elim disjE exE conjE)
      fix e ev
      assume "cs_txs S' = cs_txs (rv_store R) @ [begin_tx e ev]"
      then show ?thesis using handler_ok_more [OF ok, of "begin_tx e ev"] by (simp only:)
    qed (use ok in simp)
  qed
  ultimately show ?thesis using p(1) set_update_cases by (fastforce simp: receiver_inv_def R')
next
  case (StoreStep n)
  then obtain S' where S': "conc_step ts n (rv_store R) = Some S'" "\<not> begins n" "R' = R\<lparr>rv_store := S'\<rparr>"
    using assms(2) by (auto split: if_splits)
  note fr = conc_step_frame [OF S'(1,2)]
  have "handler_ok d parse h (cs_txs S') y" if "y \<in> set (rv_handlers R)" for y
    using assms(1) that by (intro handler_ok_frame [OF _ fr]) (auto simp: receiver_inv_def)
  then show ?thesis using assms(1) fr(1) by (simp add: receiver_inv_def S'(3))
next
  case (Respond i)
  then obtain x' where x': "i < length (rv_handlers R)" "respond h (rv_store R) (rv_handlers R ! i) = Some x'"
      "R' = R\<lparr>rv_handlers := (rv_handlers R)[i := x']\<rparr>"
    using assms(2) by (auto split: if_splits)
  have ok: "handler_ok d parse h (cs_txs (rv_store R)) (rv_handlers R ! i)"
    using assms(1) x'(1) by (simp add: receiver_inv_def)
  note r = respond_ok [OF x'(2) ok]
  then show ?thesis
    using assms(1) set_update_cases [of _ "rv_handlers R" i x'] map_filter_update_same [OF x'(1), of tx_of x']
    by (auto simp: receiver_inv_def x'(3))
qed

lemma run_receiver_inv: "run_receiver d parse ts h ms R = Some R' \<Longrightarrow> receiver_inv d parse h R \<Longrightarrow> receiver_inv d parse h R'"
  by (induction ms arbitrary: R) (auto split: option.splits dest: receiver_step_inv)

lemma reachable_receiver_inv:
  "run_receiver d parse ts h ms (idle_receiver db) = Some R \<Longrightarrow> receiver_inv d parse h R"
  by (rule run_receiver_inv) (auto simp: receiver_inv_def idle_receiver_def fresh_state_def List.map_filter_def)

section \<open>Counters of concurrent requests\<close>

definition all_effects :: "receiver \<Rightarrow> effect list" where
  "all_effects R = concat (map hn_effects (rv_handlers R))"

definition answered :: "handler \<Rightarrow> bool" where
  "answered x \<longleftrightarrow> (\<exists>ot. hn_pc x = Answered ot)"

lemma served_counters:
  assumes "distinct (instrument_names (h_metrics h))"
  shows "counters (h_metrics h) (measured (served d parse h x w)) =
    (case http_fate d parse h (hn_req x) of Handled ev disp \<Rightarrow> counts_of w | _ \<Rightarrow> (0, 0, 0))"
  unfolding served_def ServeHTTP_def http_fate_def serve_counters [OF assms refl]
  by (auto simp: writer_answer_def counts_of_def zeroResult_def split: fate.splits)

lemma handler_counters:
  assumes "distinct (instrument_names (h_metrics h))" "handler_ok d parse h txs x" "answered x"
  shows "counters (h_metrics h) (measured (hn_effects x)) =
    (case tx_of x of None \<Rightarrow> (0, 0, 0) | Some t \<Rightarrow> tx_counts (txs ! t))"
proof -
  obtain ot where pc: "hn_pc x = Answered ot" using assms(3) by (auto simp: answered_def)
  show ?thesis
  proof (cases ot)
    case None
    then obtain w where "hn_effects x = served d parse h x w" "counts_of w = (0, 0, 0)"
      using assms(2) pc by (auto simp: handler_ok_def)
    then show ?thesis using served_counters [OF assms(1), of d parse x w] pc None by (simp add: tx_of_def split: fate.splits)
  next
    case (Some t)
    then obtain res err disp where "tx_pc (txs ! t) = Returned res err"
        "http_fate d parse h (hn_req x) = Handled (tx_ev (txs ! t)) disp" "hn_effects x = served d parse h x (res, err)"
      using assms(2) pc by (auto simp: handler_ok_def)
    then show ?thesis using served_counters [OF assms(1), of d parse x "(res, err)"] pc Some by (simp add: tx_of_def tx_counts_def)
  qed
qed

lemma sum_map_filter:
  "sum_list (map (\<lambda>x. case f x of None \<Rightarrow> 0 | Some t \<Rightarrow> g t) xs) = (sum_list (map g (List.map_filter f xs)) :: int)"
  by (induction xs) (auto simp: List.map_filter_def)

lemma sum_owned:
  assumes "mset (List.map_filter tx_of hs) = mset [0 ..< length txs]"
  shows "sum_list (map (\<lambda>x. case tx_of x of None \<Rightarrow> 0 | Some t \<Rightarrow> g (txs ! t)) hs) = (sum_list (map g txs) :: int)"
proof -
  have "sum_list (map (\<lambda>t. g (txs ! t)) (List.map_filter tx_of hs)) = sum_list (map (\<lambda>t. g (txs ! t)) [0 ..< length txs])"
    using arg_cong [OF assms, where f = "\<lambda>M. sum_mset (image_mset (\<lambda>t. g (txs ! t)) M)"]
    by (simp add: sum_mset_sum_list flip: mset_map del: mset_upt)
  moreover have "map (\<lambda>t. g (txs ! t)) [0 ..< length txs] = map g txs"
    by (rule nth_equalityI) simp_all
  ultimately show ?thesis by (simp add: sum_map_filter)
qed

lemma measured_concat: "measured (concat ess) = concat (map measured ess)"
  by (induction ess) simp_all

lemma counter_concat: "counter name (concat mss) = sum_list (map (counter name) mss)"
  by (induction mss) simp_all

lemma receiver_totals:
  assumes "distinct (instrument_names (h_metrics h))" "receiver_inv d parse h R"
    and "\<forall>x \<in> set (rv_handlers R). answered x"
  shows "counter (in_stored (h_metrics h)) (measured (all_effects R)) = total fst (cs_txs (rv_store R))"
    "counter (in_joinsOpened (h_metrics h)) (measured (all_effects R)) = total (fst \<circ> snd) (cs_txs (rv_store R))"
    "counter (in_joinsClosed (h_metrics h)) (measured (all_effects R)) = total (snd \<circ> snd) (cs_txs (rv_store R))"
proof -
  let ?m = "h_metrics h" and ?txs = "cs_txs (rv_store R)"
  have one: "counters ?m (measured (hn_effects x)) = (case tx_of x of None \<Rightarrow> (0, 0, 0) | Some t \<Rightarrow> tx_counts (?txs ! t))"
    if "x \<in> set (rv_handlers R)" for x
    using handler_counters [OF assms(1), of d parse ?txs x] assms(2,3) that by (simp add: receiver_inv_def)
  have tot: "counter name (measured (all_effects R)) = total p ?txs"
    if "\<And>ms. counter name ms = p (counters ?m ms)" "p (0, 0, 0) = 0" for name p
  proof -
    have "counter name (measured (all_effects R)) = sum_list (map (\<lambda>x. p (counters ?m (measured (hn_effects x)))) (rv_handlers R))"
      by (simp add: all_effects_def measured_concat counter_concat o_def that(1))
    also have "\<dots> = sum_list (map (\<lambda>x. case tx_of x of None \<Rightarrow> 0 | Some t \<Rightarrow> p (tx_counts (?txs ! t))) (rv_handlers R))"
      by (intro arg_cong [where f = sum_list] map_cong refl) (simp add: one that(2) split: option.splits)
    also have "\<dots> = total p ?txs"
      using sum_owned [of "rv_handlers R" ?txs "\<lambda>x. p (tx_counts x)"] assms(2)
      by (simp add: receiver_inv_def total_def comp_def)
    finally show ?thesis .
  qed
  show "counter (in_stored ?m) (measured (all_effects R)) = total fst ?txs"
    "counter (in_joinsOpened ?m) (measured (all_effects R)) = total (fst \<circ> snd) ?txs"
    "counter (in_joinsClosed ?m) (measured (all_effects R)) = total (snd \<circ> snd) ?txs"
    by (rule tot; simp add: counters_def)+
qed

lemma store_schedule_loses:
  assumes "\<forall>t err. StoreStep (LoseAck t err) \<notin> set ms"
  shows "\<forall>m \<in> set (store_schedule d parse ts h ms R). \<not> loses m"
  using assms
proof (induction ms arbitrary: R)
  case (Cons m ms)
  have "\<not> loses n" if "n \<in> set (store_moves d parse h m R)" for n
    using that Cons.prems by (auto simp: store_moves_def loses_def split: receiver_move.splits fate.splits if_splits)
  then show ?case using Cons by (auto split: option.splits)
qed simp

section \<open>Progress\<close>

definition handler_rank :: "handler \<Rightarrow> nat" where
  "handler_rank x = (case hn_pc x of Arrived \<Rightarrow> 8 | Storing t ev disp \<Rightarrow> 1 | Answered ot \<Rightarrow> 0)"

definition receiver_work :: "receiver \<Rightarrow> nat" where
  "receiver_work R = sum_list (map handler_rank (rv_handlers R)) + work (rv_store R)"

lemma sum_list_rank_update:
  "i < length xs \<Longrightarrow> sum_list (map f (xs[i := y])) + f (xs ! i) = sum_list (map f xs) + (f y :: nat)"
  by (induction xs arbitrary: i) (auto split: nat.splits)

text \<open>The moves that make progress without a fault: what the goroutines and the database do by themselves.\<close>

fun fault_free :: "receiver_move \<Rightarrow> bool" where
  "fault_free (Proceed i) \<longleftrightarrow> True"
| "fault_free (Respond i) \<longleftrightarrow> True"
| "fault_free (StoreStep (Advance t)) \<longleftrightarrow> True"
| "fault_free _ \<longleftrightarrow> False"

lemma proceed_rank:
  "proceed d parse h S x = (S', x') \<Longrightarrow> handler_rank x' + work S' < 8 + work S"
  by (auto simp: proceed_def Let_def handler_rank_def work_def rank_def begin_tx_def split: fate.splits option.splits)

lemma respond_rank: "respond h S x = Some x' \<Longrightarrow> handler_rank x' < handler_rank x"
  by (auto simp: respond_def handler_rank_def split: handler_pc.splits pc.splits)

lemma fault_free_step:
  assumes "receiver_step d parse ts h m R = Some R'" "fault_free m"
  shows "receiver_work R' < receiver_work R" "length (rv_handlers R') = length (rv_handlers R)"
proof -
  have "receiver_work R' < receiver_work R \<and> length (rv_handlers R') = length (rv_handlers R)"
  proof (cases m)
    case (Proceed i)
    obtain S' x' where p: "proceed d parse h (rv_store R) (rv_handlers R ! i) = (S', x')"
      by (cases "proceed d parse h (rv_store R) (rv_handlers R ! i)")
    then have i: "i < length (rv_handlers R)" "hn_pc (rv_handlers R ! i) = Arrived"
        "R' = \<lparr>rv_store = S', rv_handlers = (rv_handlers R)[i := x']\<rparr>"
      using assms(1) Proceed by (auto split: if_splits)
    then show ?thesis
      using proceed_rank [OF p] sum_list_rank_update [OF i(1), of handler_rank x']
      by (simp add: receiver_work_def handler_rank_def)
  next
    case (Respond i)
    then obtain x' where x': "i < length (rv_handlers R)" "respond h (rv_store R) (rv_handlers R ! i) = Some x'"
        "R' = R\<lparr>rv_handlers := (rv_handlers R)[i := x']\<rparr>"
      using assms(1) by (auto split: if_splits)
    then show ?thesis
      using respond_rank [OF x'(2)] sum_list_rank_update [OF x'(1), of handler_rank x'] by (simp add: receiver_work_def)
  next
    case (StoreStep n)
    then obtain t S' where "n = Advance t" "conc_step ts (Advance t) (rv_store R) = Some S'" "R' = R\<lparr>rv_store := S'\<rparr>"
      using assms by (cases n) (auto split: if_splits option.splits)
    then show ?thesis using advance_work [of ts t "rv_store R" S'] by (simp add: receiver_work_def)
  qed (use assms(2) in simp)
  then show "receiver_work R' < receiver_work R" "length (rv_handlers R') = length (rv_handlers R)" by blast+
qed

lemma receiver_txs: "receiver_inv d parse h R \<Longrightarrow> length (List.map_filter tx_of (rv_handlers R)) = length (cs_txs (rv_store R))"
  using arg_cong [where f = size] unfolding receiver_inv_def by (metis length_upt minus_nat.diff_0 size_mset)

text \<open>A request costs at most eight steps: two of its own and six of its transaction.\<close>

lemma receiver_work_le:
  assumes "receiver_inv d parse h R"
  shows "receiver_work R \<le> 8 * length (rv_handlers R)"
proof -
  have "length (List.map_filter tx_of (rv_handlers R)) = length (cs_txs (rv_store R))" by (rule receiver_txs [OF assms])
  moreover have "sum_list (map handler_rank xs) + 6 * length (List.map_filter tx_of xs) \<le> 8 * length xs" for xs
    by (induction xs) (auto simp: List.map_filter_def handler_rank_def tx_of_def split: handler_pc.splits)
  ultimately show ?thesis using work_le [of "rv_store R"] by (metis (no_types) add_left_mono order_trans receiver_work_def)
qed

text \<open>As long as a request is unanswered, some goroutine can go on.\<close>

lemma receiver_progress:
  assumes "conc_inv ts (rv_store R)" "receiver_inv d parse h R" "x \<in> set (rv_handlers R)" "\<not> answered x"
  shows "\<exists>m R'. fault_free m \<and> receiver_step d parse ts h m R = Some R'"
proof (cases "\<exists>t < length (cs_txs (rv_store R)). \<not> returned (cs_txs (rv_store R) ! t)")
  case True
  then obtain k S' where "conc_step ts (Advance k) (rv_store R) = Some S'"
    using waits_for_committing [OF assms(1)] by blast
  then show ?thesis by (intro exI [of _ "StoreStep (Advance k)"] exI [of _ "R\<lparr>rv_store := S'\<rparr>"]) simp
next
  case False
  obtain i where i: "i < length (rv_handlers R)" "\<not> answered (rv_handlers R ! i)"
    using assms(3,4) by (auto simp: in_set_conv_nth)
  show ?thesis
  proof (cases "hn_pc (rv_handlers R ! i)")
    case Arrived
    then show ?thesis using i(1) by (intro exI [of _ "Proceed i"]) (simp add: case_prod_beta)
  next
    case (Storing t ev disp)
    have "t < length (cs_txs (rv_store R))"
      using assms(2) i(1) Storing by (auto simp: receiver_inv_def handler_ok_def dest!: nth_mem)
    then have "returned (cs_txs (rv_store R) ! t)" using False by blast
    then obtain res err where "tx_pc (cs_txs (rv_store R) ! t) = Returned res err"
      by (cases "tx_pc (cs_txs (rv_store R) ! t)") (auto simp: returned_def)
    then show ?thesis using i(1) Storing by (intro exI [of _ "Respond i"]) (simp add: respond_def)
  next
    case (Answered ot)
    then show ?thesis using i(2) by (simp add: answered_def)
  qed
qed

section \<open>Whose transaction stored the event\<close>

lemma map_filter_owner:
  "distinct (List.map_filter f xs) \<Longrightarrow> i < length xs \<Longrightarrow> k < length xs \<Longrightarrow> f (xs ! i) = Some t \<Longrightarrow> f (xs ! k) = Some t \<Longrightarrow> i = k"
proof (induction xs arbitrary: i k)
  case (Cons x xs)
  have "t \<in> set (List.map_filter f xs)" if "n < length xs" "f (xs ! n) = Some t" for n
    using that by (force simp: List.map_filter_def)
  then show ?case using Cons by (cases i; cases k) (auto simp: map_filter_simps split: option.splits)
qed simp

lemma Handled_body:
  "http_fate d parse h r = Handled ev disp \<Longrightarrow> Translate d (rq_body r) 0 = (ev, disp, None)"
  unfolding http_fate_def fate_of_def read_body_def
  by (auto split: if_splits read_end.splits prod.splits option.splits)

text \<open>A handler that has counted its event as stored has a transaction that owns the event.\<close>

lemma stored_owner:
  assumes "distinct (instrument_names (h_metrics h))" "handler_ok d parse h txs x" "answered x"
    and "counter (in_stored (h_metrics h)) (measured (hn_effects x)) = 1"
  shows "\<exists>t disp. tx_of x = Some t \<and> t < length txs \<and> owns (txs ! t) \<and> Translate d (rq_body (hn_req x)) 0 = (tx_ev (txs ! t), disp, None)"
proof -
  have c: "counters (h_metrics h) (measured (hn_effects x)) = (case tx_of x of None \<Rightarrow> (0, 0, 0) | Some t \<Rightarrow> tx_counts (txs ! t))"
    by (rule handler_counters [OF assms(1-3)])
  have "fst (counters (h_metrics h) (measured (hn_effects x))) = 1" by (simp add: counters_def assms(4))
  then obtain t where t: "tx_of x = Some t" "fst (tx_counts (txs ! t)) = 1"
    unfolding c by (cases "tx_of x") simp_all
  then obtain res err disp where "t < length txs" "tx_pc (txs ! t) = Returned res err"
      "http_fate d parse h (hn_req x) = Handled (tx_ev (txs ! t)) disp"
    using assms(2,3) by (auto simp: handler_ok_def answered_def tx_of_def)
  moreover from this t(2) have "owns (txs ! t)"
    by (auto simp: owns_def tx_counts_def counts_of_def split: if_splits)
  ultimately show ?thesis using t(1) Handled_body by blast
qed

lemma answered_writer:
  assumes "conc_inv ts S" "handler_ok d parse h (cs_txs S) x" "answered x"
  obtains w where "hn_effects x = served d parse h x w"
    "\<And>ev disp. http_fate d parse h (hn_req x) = Handled ev disp \<Longrightarrow> snd w = None \<Longrightarrow> event_identity ts ev \<in> recorded_keys (cs_db S)"
proof -
  obtain ot where pc: "hn_pc x = Answered ot" using assms(3) by (auto simp: answered_def)
  show thesis
  proof (cases ot)
    case None
    then obtain w where w: "hn_effects x = served d parse h x w"
        "\<And>ev disp. http_fate d parse h (hn_req x) = Handled ev disp \<Longrightarrow> \<exists>e. snd w = Some (OtherError e)"
      using assms(2) pc by (auto simp: handler_ok_def)
    show thesis by (rule that [OF w(1)]) (use w(2) in fastforce)
  next
    case (Some t)
    then obtain res err disp where t: "t < length (cs_txs S)" "tx_pc (cs_txs S ! t) = Returned res err"
        "http_fate d parse h (hn_req x) = Handled (tx_ev (cs_txs S ! t)) disp" "hn_effects x = served d parse h x (res, err)"
      using assms(2) pc by (auto simp: handler_ok_def)
    have "tx_ok ts (cs_db S) (cs_txs S ! t)" using assms(1) t(1) by (auto simp: conc_inv_defs)
    then have "err = None \<Longrightarrow> event_identity ts (tx_ev (cs_txs S ! t)) \<in> recorded_keys (cs_db S)"
      using t(2) by (auto simp: tx_ok_def pc_ok_def)
    then show thesis by (intro that [OF t(4)]) (simp add: t(3))
  qed
qed

lemma served_response:
  assumes "distinct (instrument_names (h_metrics h))" "http_fate d parse h (hn_req x) = Handled ev disp"
  shows "response (served d parse h x w) = [case snd w of Some (OtherError t) \<Rightarrow> 500 | _ \<Rightarrow> 200]"
  using assms(2) record_prefix_silent(1) [OF assms(1)]
  by (simp add: served_handled after_record_finish [where d = disp, OF refl] before_store_def answer_def
      split: option.split store_error.split)

text \<open>The rows a run adds are those its handlers have counted.\<close>

lemma receiver_rows_added:
  assumes "db_inv db" "NewIngest create = Inr (h_metrics h)"
    and "run_receiver d parse ts h ms (idle_receiver db) = Some R"
    and "\<forall>x \<in> set (rv_handlers R). answered x" and "\<forall>t err. StoreStep (LoseAck t err) \<notin> set ms"
  shows "let total = \<lambda>c. counter (c (h_metrics h)) (measured (all_effects R)); db' = cs_db (rv_store R);
           ended = \<lambda>db. int (closed_count (db_participant_join db))
    in int (length (db_event_raw db')) = int (length (db_event_raw db)) + total in_stored \<and>
       int (length (db_participant_join db')) = int (length (db_participant_join db)) + total in_joinsOpened \<and>
       ended db' \<le> ended db + total in_joinsClosed \<and>
       (no_fallback ts (store_schedule d parse ts h ms (idle_receiver db)) (fresh_state db) \<longrightarrow>
          ended db' = ended db + total in_joinsClosed)"
proof -
  note tot = receiver_totals [OF NewIngest_distinct [OF assms(2)] reachable_receiver_inv [OF assms(3)] assms(4)]
  have run: "run_schedule ts (store_schedule d parse ts h ms (idle_receiver db)) (fresh_state db) = Some (rv_store R)"
    using run_receiver_store [OF assms(3)] by (simp add: idle_receiver_def)
  have cinv: "conc_inv ts (fresh_state db)" and fin: "final_inv ts (fresh_state db)"
      and res: "\<forall>x \<in> set (cs_txs (fresh_state db)). res_ok x"
    using assms(1) by (simp_all add: final_inv_defs conc_inv_defs fresh_state_def)
  have "cs_db (fresh_state db) = db" "total p (cs_txs (fresh_state db)) = 0" for p
    by (simp_all add: fresh_state_def total_def)
  then show ?thesis
    using schedule_counts [OF run cinv res store_schedule_loses [OF assms(5)]] fin tot
    by (auto simp: ahead_def table_counts_def Let_def)
qed

section \<open>Two deliveries of one event\<close>

definition demo_run :: "receiver_move list" where
  "demo_run =
     [Arrive (demo_env ''u1'') 5 (demo_request demo_body ''token''),
      Arrive (demo_env ''u2'') 7 (demo_request demo_body ''token''),
      Proceed 1, Proceed 0, StoreStep (Advance 0), StoreStep (Advance 0), StoreStep (Advance 0),
      StoreStep (Advance 1), StoreStep (Advance 1), Respond 0, Respond 1]"

lemma demo_metrics: "h_metrics demo_receiver = demo_ingest"
  by (simp add: demo_receiver_def NewLiveKitHandler_def)

lemma demo_covered: "covered (db_partitions demo_empty) (demo_ts (ev_OccurredAt demo_joined))"
  by (simp add: covered_def demo_empty_def demo_ts_def demo_Translate(3) time_Unix_def wrap64_def unixToInternal_def)

lemma demo_request_body: "rq_body (demo_request b t) = b"
  by (simp add: demo_request_def)

lemmas demo_run_simps = demo_run_def idle_receiver_def fresh_state_def arrive_def proceed_def demo_fate Let_def demo_env_def
  advance_def step_insert_def step_effect_def step_open_def begin_tx_def others_def held_keys_def held_joins_def
  recorded_keys_def demo_empty_def demo_Translate(2) apply_tx_def return_tx_def respond_def List.map_filter_def
  event_key_def event_row_of_def

lemma demo_run_runs:
  "\<exists>R. run_receiver demo_deps (demo_parse demo_body) demo_ts demo_receiver demo_run (idle_receiver demo_empty) = Some R \<and>
     map (response \<circ> hn_effects) (rv_handlers R) = [[200], [200]] \<and> (\<forall>x \<in> set (rv_handlers R). answered x) \<and>
     (\<forall>x \<in> set (rv_handlers R). rq_body (hn_req x) = demo_body) \<and> length (db_event_raw (cs_db (rv_store R))) = 1"
proof -
  have demo_response: "response (after_record (h_metrics demo_receiver) b el ev res None) = [200]" for b el ev res
    using record_prefix_silent(1) [OF NewIngest_distinct [OF demo_NewIngest]]
    by (simp add: after_record_finish [where d = Ingest, OF refl] demo_metrics answer_def)
  show ?thesis
    using demo_covered
    by (simp add: demo_run_simps answered_def demo_response demo_request_body comp_def before_store_def)
qed

section \<open>Properties\<close>

text \<open>C7. Concurrent requests get the answers the sequential handler gives. In every interleaving of any
  number of requests, with statement faults and lost acknowledgements, a request that has been answered
  has had exactly the effects \<open>ServeHTTP\<close> has when its writer answers \<open>w\<close>, for a \<open>w\<close> that is true: without
  an error, the event is in the table. Of all the deliveries of one body, under whatever tokens, at most one
  is counted as stored.\<close>

theorem concurrent_requests_answered_soundly:
  assumes "db_inv db" "NewIngest create = Inr (h_metrics h)"
    and "run_receiver d parse ts h ms (idle_receiver db) = Some R"
  shows "(\<forall>x \<in> set (rv_handlers R). answered x \<longrightarrow>
      (\<exists>w. hn_effects x = served d parse h x w \<and>
         (\<forall>ev disp. http_fate d parse h (hn_req x) = Handled ev disp \<longrightarrow>
            response (hn_effects x) = [case snd w of Some (OtherError t) \<Rightarrow> 500 | _ \<Rightarrow> 200] \<and>
            (snd w = None \<longrightarrow> event_identity ts ev \<in> recorded_keys (cs_db (rv_store R)))))) \<and>
    (\<forall>i < length (rv_handlers R). \<forall>k < length (rv_handlers R).
       let x = rv_handlers R ! i; y = rv_handlers R ! k in
       answered x \<longrightarrow> answered y \<longrightarrow> rq_body (hn_req x) = rq_body (hn_req y) \<longrightarrow>
       counter (in_stored (h_metrics h)) (measured (hn_effects x)) = 1 \<longrightarrow>
       counter (in_stored (h_metrics h)) (measured (hn_effects y)) = 1 \<longrightarrow> i = k)"
proof -
  let ?txs = "cs_txs (rv_store R)" and ?hs = "rv_handlers R"
  note dist = NewIngest_distinct [OF assms(2)]
  have rinv: "receiver_inv d parse h R" by (rule reachable_receiver_inv [OF assms(3)])
  have cinv: "conc_inv ts (rv_store R)"
    using reachable_conc_inv [OF assms(1)] run_receiver_store [OF assms(3)] by (simp add: idle_receiver_def)
  have ok: "handler_ok d parse h ?txs x" if "x \<in> set ?hs" for x using rinv that by (simp add: receiver_inv_def)
  have sound: "\<exists>w. hn_effects x = served d parse h x w \<and>
      (\<forall>ev disp. http_fate d parse h (hn_req x) = Handled ev disp \<longrightarrow>
         response (hn_effects x) = [case snd w of Some (OtherError t) \<Rightarrow> 500 | _ \<Rightarrow> 200] \<and>
         (snd w = None \<longrightarrow> event_identity ts ev \<in> recorded_keys (cs_db (rv_store R))))"
    if x: "x \<in> set ?hs" "answered x" for x
  proof -
    obtain w where w: "hn_effects x = served d parse h x w"
        "\<And>ev disp. http_fate d parse h (hn_req x) = Handled ev disp \<Longrightarrow> snd w = None \<Longrightarrow>
           event_identity ts ev \<in> recorded_keys (cs_db (rv_store R))"
      by (rule answered_writer [OF cinv ok [OF x(1)] x(2)]) (rule that)
    then show ?thesis by (intro exI [of _ w]) (auto simp: served_response [OF dist])
  qed
  have once: "i = k" if p: "i < length ?hs" "k < length ?hs" "answered (?hs ! i)" "answered (?hs ! k)"
      "rq_body (hn_req (?hs ! i)) = rq_body (hn_req (?hs ! k))"
      "counter (in_stored (h_metrics h)) (measured (hn_effects (?hs ! i))) = 1"
      "counter (in_stored (h_metrics h)) (measured (hn_effects (?hs ! k))) = 1" for i k
  proof -
    obtain t disp where t: "tx_of (?hs ! i) = Some t" "t < length ?txs" "owns (?txs ! t)"
        "Translate d (rq_body (hn_req (?hs ! i))) 0 = (tx_ev (?txs ! t), disp, None)"
      using stored_owner [OF dist ok p(3,6)] p(1) by auto
    obtain t' disp' where t': "tx_of (?hs ! k) = Some t'" "t' < length ?txs" "owns (?txs ! t')"
        "Translate d (rq_body (hn_req (?hs ! k))) 0 = (tx_ev (?txs ! t'), disp', None)"
      using stored_owner [OF dist ok p(4,7)] p(2) by auto
    have "tx_ev (?txs ! t) = tx_ev (?txs ! t')" using t(4) t'(4) p(5) by simp
    moreover have "compatible ts (?txs ! t) (?txs ! t')" if "t \<noteq> t'"
      using cinv t(2) t'(2) that by (simp add: conc_inv_defs)
    ultimately have "t = t'" using t(3) t'(3) by (auto simp: compatible_def)
    moreover have "distinct (List.map_filter tx_of ?hs)"
      using rinv mset_eq_imp_distinct_iff unfolding receiver_inv_def by (metis distinct_upt)
    ultimately show ?thesis using map_filter_owner [of tx_of ?hs i k t] p(1,2) t(1) t'(1) by simp
  qed
  show ?thesis using sound once unfolding Let_def by blast
qed

theorem concurrent_requests_answered_soundly_witness:
  "\<exists>R. run_receiver demo_deps (demo_parse demo_body) demo_ts demo_receiver demo_run (idle_receiver demo_empty) = Some R \<and>
     map (response \<circ> hn_effects) (rv_handlers R) = [[200], [200]] \<and>
     \<not> (\<forall>x \<in> set (rv_handlers R). counter (in_stored demo_ingest) (measured (hn_effects x)) = 1)"
proof -
  obtain R where R: "run_receiver demo_deps (demo_parse demo_body) demo_ts demo_receiver demo_run (idle_receiver demo_empty) = Some R"
      "map (response \<circ> hn_effects) (rv_handlers R) = [[200], [200]]" "\<forall>x \<in> set (rv_handlers R). answered x"
      "\<forall>x \<in> set (rv_handlers R). rq_body (hn_req x) = demo_body"
    using demo_run_runs by (elim exE conjE) (rule that)
  have two: "length (rv_handlers R) = 2" using arg_cong [OF R(2), where f = length] by simp
  have m: "NewIngest (\<lambda>n u. None :: nat option) = Inr (h_metrics demo_receiver)" by (simp add: demo_metrics demo_NewIngest)
  have at: "answered (rv_handlers R ! n) \<and> rq_body (hn_req (rv_handlers R ! n)) = demo_body" if "n < 2" for n
    using R(3,4) two that by simp
  have mem: "rv_handlers R ! 0 \<in> set (rv_handlers R)" "rv_handlers R ! 1 \<in> set (rv_handlers R)" using two by simp_all
  have "counter (in_stored demo_ingest) (measured (hn_effects (rv_handlers R ! 0))) \<noteq> 1 \<or>
      counter (in_stored demo_ingest) (measured (hn_effects (rv_handlers R ! 1))) \<noteq> 1"
    using concurrent_requests_answered_soundly [OF demo_empty_inv m R(1), THEN conjunct2,
        THEN spec [of _ 0], THEN mp, THEN spec [of _ 1], THEN mp] at [of 0] at [of 1]
    by (simp add: two demo_metrics Let_def)
  then have "\<not> (\<forall>x \<in> set (rv_handlers R). counter (in_stored demo_ingest) (measured (hn_effects x)) = 1)"
    using mem by blast
  then show ?thesis by (intro exI [of _ R] conjI R(1,2))
qed

text \<open>C13. The dashboards are the tables, also under concurrency. Once all requests of an interleaving in which
  no acknowledgement is lost have been answered, the counters of stored events and of opened joins have
  grown by exactly the number of rows added to \<open>event_raw\<close> and \<open>participant_join\<close>, statement faults and
  rollbacks included. The counter of closed joins is never less than the number of joins that have ended, and is
  equal to it when no close fell back to the identity.\<close>

theorem concurrent_counters_agree_with_tables:
  assumes "db_inv db" "NewIngest create = Inr (h_metrics h)"
    and "run_receiver d parse ts h ms (idle_receiver db) = Some R"
    and "\<forall>x \<in> set (rv_handlers R). answered x" and "\<forall>t err. StoreStep (LoseAck t err) \<notin> set ms"
  shows "let total = \<lambda>c. counter (c (h_metrics h)) (measured (all_effects R)); db' = cs_db (rv_store R);
           ended = \<lambda>db. int (closed_count (db_participant_join db))
    in int (length (db_event_raw db')) = int (length (db_event_raw db)) + total in_stored \<and>
       int (length (db_participant_join db')) = int (length (db_participant_join db)) + total in_joinsOpened \<and>
       ended db' \<le> ended db + total in_joinsClosed \<and>
       (no_fallback ts (store_schedule d parse ts h ms (idle_receiver db)) (fresh_state db) \<longrightarrow>
          ended db' = ended db + total in_joinsClosed)"
  by (rule receiver_rows_added [OF assms])

theorem concurrent_counters_agree_with_tables_witness:
  "\<exists>R. run_receiver demo_deps (demo_parse demo_body) demo_ts demo_receiver demo_run (idle_receiver demo_empty) = Some R \<and>
     length (rv_handlers R) = 2 \<and> counter (in_stored demo_ingest) (measured (all_effects R)) = 1"
proof -
  obtain R where R: "run_receiver demo_deps (demo_parse demo_body) demo_ts demo_receiver demo_run (idle_receiver demo_empty) = Some R"
      "map (response \<circ> hn_effects) (rv_handlers R) = [[200], [200]]" "\<forall>x \<in> set (rv_handlers R). answered x"
      "length (db_event_raw (cs_db (rv_store R))) = 1"
    using demo_run_runs by (elim exE conjE) (rule that)
  have "length (rv_handlers R) = 2" using arg_cong [OF R(2), where f = length] by simp
  moreover have "\<forall>t err. StoreStep (LoseAck t err) \<notin> set demo_run" by (simp add: demo_run_def)
  note concurrent_counters_agree_with_tables [OF demo_empty_inv _ R(1,3) this, where create = "\<lambda>n u. None :: nat option"]
  then have "counter (in_stored demo_ingest) (measured (all_effects R)) = 1"
    using R(4) by (simp add: demo_metrics demo_NewIngest Let_def demo_empty_def)
  ultimately show ?thesis by (intro exI [of _ R] conjI R(1))
qed

end
