(* ===== verification/Alerts.thy ===== *)
theory Alerts
  imports Receiver_Concurrent
begin

text \<open>
  What the alert of \<^verbatim>\<open>metrics.go\<close> divides: the request counter selected by labels, against the deliveries the
  concurrent receiver was sent.
\<close>

section \<open>A counter selected by labels\<close>

text \<open>The sum of the series of a counter that carry all the labels of a selector.\<close>

fun selected :: "string \<Rightarrow> (string \<times> attr) list \<Rightarrow> measurement \<Rightarrow> int" where
  "selected name labels (Add n v as) = (if n = name \<and> set labels \<subseteq> set as then v else 0)"
| "selected name labels (Record n v as) = 0"

definition series :: "string \<Rightarrow> (string \<times> attr) list \<Rightarrow> measurement list \<Rightarrow> int" where
  "series name labels ms = sum_list (map (selected name labels) ms)"

lemma series_filter: "series name labels ms = series name labels (filter (is_add name) ms)"
proof (induction ms)
  case (Cons m ms)
  then show ?case by (cases m) (simp_all add: series_def)
qed (simp add: series_def)

lemma series_concat: "series name labels (concat mss) = sum_list (map (series name labels) mss)"
  by (induction mss) (simp_all add: series_def)

section \<open>Deliveries\<close>

definition delivery_verified :: "jwt_parse \<Rightarrow> LiveKitHandler \<Rightarrow> request \<Rightarrow> bool" where
  "delivery_verified parse h r =
     (case read_body (h_maxBodyBytes h) r of
        Inl e \<Rightarrow> False
      | Inr body \<Rightarrow> Verify parse (h_verifier h) (rq_authorization r) body = None)"

definition delivery_undecodable :: "'u deps \<Rightarrow> jwt_parse \<Rightarrow> LiveKitHandler \<Rightarrow> request \<Rightarrow> bool" where
  "delivery_undecodable d parse h r \<longleftrightarrow>
     delivery_verified parse h r \<and> snd (snd (Translate d (rq_body r) 0)) \<noteq> None"

lemma answer_verified: "snd (snd (answer (http_fate d parse h r) w)) \<longleftrightarrow> delivery_verified parse h r"
  unfolding http_fate_def fate_of_def answer_def delivery_verified_def
  by (cases "read_body (h_maxBodyBytes h) r")
    (auto split: read_error.splits prod.splits option.splits store_error.splits)

lemma answer_malformed:
  "fst (snd (answer (http_fate d parse h r) w)) = outcomeMalformed \<and> snd (snd (answer (http_fate d parse h r) w)) \<longleftrightarrow>
     delivery_undecodable d parse h r"
  unfolding http_fate_def fate_of_def answer_def delivery_undecodable_def delivery_verified_def read_body_def
  by (auto simp: outcome_defs split: if_splits read_end.splits read_error.splits prod.splits option.splits store_error.splits)

lemma answered_served:
  assumes "handler_ok d parse h txs x" "answered x"
  shows "\<exists>w. hn_effects x = served d parse h x w"
  using assms unfolding handler_ok_def answered_def by (elim exE) (force split: option.splits)

lemma served_requests:
  assumes "distinct (instrument_names (h_metrics h))"
  shows "\<exists>w'. filter (is_add (in_requests (h_metrics h))) (measured (served d parse h x w)) =
    [Add (in_requests (h_metrics h)) 1
       [(''backend'', AString BackendLiveKit),
        (''outcome'', AString (fst (snd (answer (http_fate d parse h (hn_req x)) w')))),
        (''verified'', ABool (snd (snd (answer (http_fate d parse h (hn_req x)) w'))))]]"
  unfolding served_def ServeHTTP_def http_fate_def
  by (rule exI) (rule serve_answer [OF assms refl refl refl, THEN conjunct2, THEN conjunct2])

lemma handler_requests:
  assumes "distinct (instrument_names (h_metrics h))" "handler_ok d parse h txs x" "answered x"
  shows "series (in_requests (h_metrics h)) [] (measured (hn_effects x)) = 1"
    "series (in_requests (h_metrics h)) [(''verified'', ABool True)] (measured (hn_effects x)) =
       (if delivery_verified parse h (hn_req x) then 1 else 0)"
    "series (in_requests (h_metrics h)) [(''outcome'', AString ''malformed''), (''verified'', ABool True)]
       (measured (hn_effects x)) = (if delivery_undecodable d parse h (hn_req x) then 1 else 0)"
proof -
  obtain w where w: "filter (is_add (in_requests (h_metrics h))) (measured (hn_effects x)) =
    [Add (in_requests (h_metrics h)) 1
       [(''backend'', AString BackendLiveKit),
        (''outcome'', AString (fst (snd (answer (http_fate d parse h (hn_req x)) w)))),
        (''verified'', ABool (snd (snd (answer (http_fate d parse h (hn_req x)) w))))]]"
    using answered_served [OF assms(2,3)] served_requests [OF assms(1)] by metis
  note eq = series_filter [of "in_requests (h_metrics h)" _ "measured (hn_effects x)", unfolded w]
  show "series (in_requests (h_metrics h)) [] (measured (hn_effects x)) = 1" unfolding eq by (simp add: series_def)
  show "series (in_requests (h_metrics h)) [(''verified'', ABool True)] (measured (hn_effects x)) =
       (if delivery_verified parse h (hn_req x) then 1 else 0)"
    unfolding eq answer_verified by (simp add: series_def)
  show "series (in_requests (h_metrics h)) [(''outcome'', AString ''malformed''), (''verified'', ABool True)]
       (measured (hn_effects x)) = (if delivery_undecodable d parse h (hn_req x) then 1 else 0)"
    unfolding eq answer_malformed [of d parse h "hn_req x" w, symmetric] by (simp add: series_def outcomeMalformed_def)
qed

lemma sum_list_indicator: "sum_list (map (\<lambda>x. if P x then 1 else 0) xs) = (int (length (filter P xs)))"
  by (induction xs) auto

lemma series_all: "series name labels (measured (all_effects R)) =
  sum_list (map (\<lambda>x. series name labels (measured (hn_effects x))) (rv_handlers R))"
  by (simp add: all_effects_def measured_concat series_concat comp_def)

section \<open>Properties\<close>

text \<open>C17. The alert divides what its comment says it does. Once the requests of any interleaving have been
  answered, faults and lost acknowledgements included, the request counter is the number of requests;
  selected by \<open>verified="true"\<close>, it is the number of deliveries whose signature verified; and selected by
  \<open>outcome="malformed",verified="true"\<close>, it is the number of those whose body did not decode. Nothing an
  unauthenticated sender does enters the ratio.\<close>

theorem alert_ratio_counts_deliveries:
  assumes "NewIngest create = Inr (h_metrics h)"
    and "run_receiver d parse ts h ms (idle_receiver db) = Some R" and "\<forall>x \<in> set (rv_handlers R). answered x"
  shows "let requests = \<lambda>labels. series (in_requests (h_metrics h)) labels (measured (all_effects R)) in
    requests [] = int (length (rv_handlers R)) \<and>
    requests [(''verified'', ABool True)] =
      int (length (filter (\<lambda>x. delivery_verified parse h (hn_req x)) (rv_handlers R))) \<and>
    requests [(''outcome'', AString ''malformed''), (''verified'', ABool True)] =
      int (length (filter (\<lambda>x. delivery_undecodable d parse h (hn_req x)) (rv_handlers R)))"
proof -
  have ok: "handler_ok d parse h (cs_txs (rv_store R)) x" "answered x" if "x \<in> set (rv_handlers R)" for x
    using reachable_receiver_inv [OF assms(2)] assms(3) that by (simp_all add: receiver_inv_def)
  note one = handler_requests [OF NewIngest_distinct [OF assms(1)] ok]
  show ?thesis
    unfolding Let_def series_all sum_list_indicator [symmetric]
    by (simp add: one sum_list_triv cong: map_cong)
qed

definition demo_alert :: "receiver_move list" where
  "demo_alert =
     [Arrive (demo_env ''u1'') 5 (demo_request ''{'' ''token''), Arrive (demo_env ''u2'') 7 (demo_request ''{'' []),
      Proceed 0, Proceed 1]"

lemma demo_undecodable: "snd (snd (Translate demo_deps ''{'' 0)) \<noteq> None"
  by code_simp

lemma demo_alert_deliveries:
  "delivery_verified (demo_parse ''{'') demo_handler (demo_request ''{'' ''token'')"
  "delivery_undecodable demo_deps (demo_parse ''{'') demo_handler (demo_request ''{'' ''token'')"
  "\<not> delivery_verified (demo_parse ''{'') demo_handler (demo_request ''{'' [])"
  "\<not> delivery_undecodable demo_deps (demo_parse ''{'') demo_handler (demo_request ''{'' [])"
  using demo_Verify [of "''{''"] demo_undecodable
  by (simp_all add: delivery_verified_def delivery_undecodable_def read_body_def demo_handler_def NewLiveKitHandler_def
      demo_request_def Verify_def)

theorem alert_ratio_counts_deliveries_witness:
  "\<exists>R. run_receiver demo_deps (demo_parse ''{'') demo_ts demo_handler demo_alert (idle_receiver demo_empty) = Some R \<and>
     series (in_requests demo_ingest) [] (measured (all_effects R)) = 2 \<and>
     series (in_requests demo_ingest) [(''verified'', ABool True)] (measured (all_effects R)) = 1 \<and>
     series (in_requests demo_ingest) [(''outcome'', AString ''malformed''), (''verified'', ABool True)]
       (measured (all_effects R)) = 1"
proof -
  have m: "h_metrics demo_handler = demo_ingest" by (simp add: demo_handler_def NewLiveKitHandler_def)
  have not_handled: "http_fate demo_deps (demo_parse ''{'') demo_handler (demo_request ''{'' t) \<noteq> Handled ev disp" for t ev disp
    using Handled_body [of demo_deps "demo_parse ''{''" demo_handler "demo_request ''{'' t" ev disp] demo_undecodable
    by (auto simp: demo_request_body)
  have step: "\<exists>es. proceed demo_deps (demo_parse ''{'') demo_handler S (arrive e el (demo_request ''{'' t)) =
      (S, (arrive e el (demo_request ''{'' t))\<lparr>hn_pc := Answered None, hn_effects := es\<rparr>)" for S e el t
    by (cases "http_fate demo_deps (demo_parse ''{'') demo_handler (demo_request ''{'' t)")
      (simp_all add: not_handled proceed_def Let_def arrive_def)
  obtain es where es: "proceed demo_deps (demo_parse ''{'') demo_handler S (arrive e el (demo_request ''{'' t)) =
      (S, (arrive e el (demo_request ''{'' t))\<lparr>hn_pc := Answered None, hn_effects := es S e el t\<rparr>)" for S e el t
    using step by metis
  have pc: "hn_pc (arrive e el r) = Arrived" "hn_req (arrive e el r) = r" for e el r by (simp_all add: arrive_def)
  obtain R where R: "run_receiver demo_deps (demo_parse ''{'') demo_ts demo_handler demo_alert (idle_receiver demo_empty) = Some R"
      "\<forall>x \<in> set (rv_handlers R). answered x"
      "map hn_req (rv_handlers R) = [demo_request ''{'' ''token'', demo_request ''{'' []]"
    by (simp add: demo_alert_def idle_receiver_def pc es answered_def)
  have "int (length (filter (\<lambda>x. P (hn_req x)) (rv_handlers R))) = int (length (filter P (map hn_req (rv_handlers R))))" for P
    by (simp add: filter_map comp_def)
  moreover have two: "length (rv_handlers R) = 2" using arg_cong [OF R(3), where f = length] by simp
  ultimately show ?thesis
    using alert_ratio_counts_deliveries [OF _ R(1,2), where create = "\<lambda>n u. None :: nat option"] R(1)
      demo_alert_deliveries
    by (simp add: m demo_NewIngest R(3) Let_def)
qed

end
