(* ===== verification/Serial_Order.thy ===== *)
theory Serial_Order
  imports Schedule_Counts
begin

text \<open>
  Concurrent calls have the effect of calls one after the other. A schedule in which no close falls back to
  the identity leaves the tables as a run of \<open>RecordEvent\<close> on the same events in some order, and every
  call that returns without an error returns what it returns in that run. The order is not that of the commits: a
  close does not see a join that commits after its snapshot. It is the closes in the order of their commits, each
  preceded by the joins it ended, then the joins that are still open, then the events without an effect, then
  the deliveries of events that were recorded already.
\<close>

section \<open>Calls without faults\<close>

definition calm :: "env \<Rightarrow> env" where
  "calm e = e\<lparr>en_begin := None, en_insert := None, en_exec := None, en_exec2 := None, en_commit := Committed\<rparr>"

lemma calm_simps [simp]:
  "quiet (calm e)" "en_now (calm e) = en_now e" "en_uuid (calm e) = en_uuid e"
  "join_row_of ts (calm e) ev = join_row_of ts e ev"
  by (simp_all add: calm_def quiet_def join_row_of_def)

type_synonym call = "(env \<times> Event) \<times> Result"

definition call_row :: "(Time \<Rightarrow> int) \<Rightarrow> call \<Rightarrow> event_row" where
  "call_row ts c = event_row_of ts (en_now (fst (fst c))) (snd (fst c))"

definition call_join :: "(Time \<Rightarrow> int) \<Rightarrow> call \<Rightarrow> join_row" where
  "call_join ts c = join_row_of ts (fst (fst c)) (snd (fst c))"

text \<open>A run of the calls \<open>cs\<close> in which each returns its result without an error.\<close>

definition runs :: "(Time \<Rightarrow> int) \<Rightarrow> database \<Rightarrow> call list \<Rightarrow> database \<Rightarrow> bool" where
  "runs ts db cs db' \<longleftrightarrow> deliver_all (RecordEvent ts) db (map fst cs) = (db', map (\<lambda>c. (snd c, None)) cs)"

lemma runs_Nil [simp]: "runs ts db [] db' \<longleftrightarrow> db' = db"
  by (auto simp: runs_def)

lemma runs_append: "runs ts db cs db1 \<Longrightarrow> runs ts db1 cs' db2 \<Longrightarrow> runs ts db (cs @ cs') db2"
  by (simp add: runs_def deliver_all_append)

lemma runs_Cons: "RecordEvent ts (fst (fst c)) db (snd (fst c)) = (db1, snd c, None) \<Longrightarrow> runs ts db1 cs db2 \<Longrightarrow> runs ts db (c # cs) db2"
  by (cases c) (auto simp: runs_def)

definition opener :: "call \<Rightarrow> bool" where
  "opener c \<longleftrightarrow> quiet (fst (fst c)) \<and> ev_Type (snd (fst c)) = EventParticipantJoined \<and>
     snd c = after_insert\<lparr>rs_JoinOpened := True\<rparr>"

definition effectless :: "call \<Rightarrow> bool" where
  "effectless c \<longleftrightarrow> quiet (fst (fst c)) \<and> \<not> closing (snd (fst c)) \<and> snd c = after_insert"

lemma call_simps [simp]:
  "event_key (call_row ts c) = event_identity ts (snd (fst c))" "jr_join_id (call_join ts c) = en_uuid (fst (fst c))"
  "er_occurred_at (call_row ts c) = ts (ev_OccurredAt (snd (fst c)))"
  "jr_started_event_id (call_join ts c) = ev_ID (snd (fst c))" "open_row (call_join ts c)"
  by (simp_all add: call_row_def call_join_def open_row_def)

text \<open>Opening calls with fresh keys, one after the other.\<close>

lemma opening_runs:
  assumes "\<forall>c \<in> set cs. opener c \<and> covered (db_partitions db) (er_occurred_at (call_row ts c))"
    and "distinct (map event_key (db_event_raw db @ map (call_row ts) cs))"
    and "distinct (map jr_join_id (db_participant_join db @ map (call_join ts) cs))"
    and "distinct (map jr_started_event_id (db_participant_join db @ map (call_join ts) cs))"
  shows "runs ts db cs (db\<lparr>db_event_raw := db_event_raw db @ map (call_row ts) cs,
    db_participant_join := db_participant_join db @ map (call_join ts) cs\<rparr>)"
  using assms
proof (induction cs arbitrary: db)
  case (Cons c cs)
  let ?e = "fst (fst c)" and ?ev = "snd (fst c)"
  let ?db1 = "db\<lparr>db_event_raw := db_event_raw db @ [call_row ts c], db_participant_join := db_participant_join db @ [call_join ts c]\<rparr>"
  have c: "quiet ?e" "ev_Type ?ev = EventParticipantJoined" "snd c = after_insert\<lparr>rs_JoinOpened := True\<rparr>"
      "covered (db_partitions db) (ts (ev_OccurredAt ?ev))"
    using Cons.prems(1) by (simp_all add: opener_def)
  have fresh: "event_identity ts ?ev \<notin> recorded_keys db" "ev_ID ?ev \<notin> jr_started_event_id ` set (db_participant_join db)"
      "en_uuid ?e \<notin> jr_join_id ` set (db_participant_join db)"
    using Cons.prems(2-4) by (auto simp: recorded_keys_def)
  have "RecordEvent ts ?e db ?ev = (?db1, snd c, None)"
    using c fresh closing_not_joined [OF c(2)]
    by (simp add: RecordEvent_spec_quiet stored_db_def effect_ok_def effect_result_def join_effect_def opens_def
        call_row_def call_join_def Let_def)
  moreover have "runs ts ?db1 cs (?db1\<lparr>db_event_raw := db_event_raw ?db1 @ map (call_row ts) cs,
      db_participant_join := db_participant_join ?db1 @ map (call_join ts) cs\<rparr>)"
    by (rule Cons.IH) (use Cons.prems in simp_all)
  ultimately show ?case by (simp add: runs_Cons)
qed simp

text \<open>Calls without an effect on the joins.\<close>

lemma effectless_runs:
  assumes "\<forall>c \<in> set cs. effectless c \<and> covered (db_partitions db) (er_occurred_at (call_row ts c)) \<and>
      (ev_Type (snd (fst c)) = EventParticipantJoined \<longrightarrow> ev_ID (snd (fst c)) \<in> jr_started_event_id ` set (db_participant_join db))"
    and "distinct (map event_key (db_event_raw db @ map (call_row ts) cs))"
  shows "runs ts db cs (db\<lparr>db_event_raw := db_event_raw db @ map (call_row ts) cs\<rparr>)"
  using assms
proof (induction cs arbitrary: db)
  case (Cons c cs)
  let ?e = "fst (fst c)" and ?ev = "snd (fst c)"
  let ?db1 = "db\<lparr>db_event_raw := db_event_raw db @ [call_row ts c]\<rparr>"
  have c: "quiet ?e" "\<not> closing ?ev" "snd c = after_insert" "covered (db_partitions db) (ts (ev_OccurredAt ?ev))"
      "\<not> opens ?ev (db_participant_join db)"
    using Cons.prems(1) by (auto simp: effectless_def opens_def)
  have fresh: "event_identity ts ?ev \<notin> recorded_keys db" using Cons.prems(2) by (auto simp: recorded_keys_def)
  have "RecordEvent ts ?e db ?ev = (?db1, snd c, None)"
    using c fresh
    by (simp add: RecordEvent_spec_quiet stored_db_def effect_ok_def effect_result_def join_effect_def call_row_def Let_def zeroResult_def)
  moreover have "runs ts ?db1 cs (?db1\<lparr>db_event_raw := db_event_raw ?db1 @ map (call_row ts) cs\<rparr>)"
    by (rule Cons.IH) (use Cons.prems in simp_all)
  ultimately show ?case by (simp add: runs_Cons)
qed simp

text \<open>A close that ends the joins with the ids \<open>ids\<close>: these are the open ones it wants.\<close>

definition closed_result :: "Event \<Rightarrow> nat \<Rightarrow> Result" where
  "closed_result ev n =
     (if ev_Type ev = EventParticipantLeft then after_insert\<lparr>rs_JoinsClosed := int n, rs_CloseUnmatched := False\<rparr>
      else after_insert\<lparr>rs_JoinsClosed := int n\<rparr>)"

definition end_ids :: "(Time \<Rightarrow> int) \<Rightarrow> env \<Rightarrow> Event \<Rightarrow> string list \<Rightarrow> join_row \<Rightarrow> join_row" where
  "end_ids ts e ev ids j =
     (if jr_join_id j \<in> set ids then set_end (ts (ev_OccurredAt ev)) (close_reason ev) (ev_ID ev) (en_now e) j else j)"

definition wants :: "Event \<Rightarrow> join_row \<Rightarrow> bool" where
  "wants ev j \<longleftrightarrow> jr_backend j = ev_Backend ev \<and> jr_room_name j = ev_RoomName ev \<and>
     (ev_Type ev = EventParticipantLeft \<longrightarrow> ev_ParticipantSID ev \<noteq> [] \<and> jr_participant_sid j = Some (ev_ParticipantSID ev))"

definition selects :: "(Time \<Rightarrow> int) \<Rightarrow> Event \<Rightarrow> join_row \<Rightarrow> bool" where
  "selects ts ev j \<longleftrightarrow> wants ev j \<and> open_row j \<and> jr_started_at j \<le> ts (ev_OccurredAt ev)"

lemma length_filter_ids:
  assumes "distinct (map f xs)" "distinct ids" "set ids \<subseteq> f ` set xs"
  shows "length (filter (\<lambda>x. f x \<in> set ids) xs) = length ids"
proof -
  have "distinct (map f (filter (\<lambda>x. f x \<in> set ids) xs))" using assms(1) by (simp add: distinct_map_filter)
  moreover have "set (map f (filter (\<lambda>x. f x \<in> set ids) xs)) = set ids" using assms(3) by auto
  ultimately show ?thesis using assms(2) by (metis distinct_card length_map)
qed

lemma close_runs:
  assumes "quiet e" "closing ev" "covered (db_partitions db) (ts (ev_OccurredAt ev))" "event_identity ts ev \<notin> recorded_keys db"
    and "\<forall>j \<in> set (db_participant_join db). jr_join_id j \<in> set ids \<longrightarrow> selects ts ev j"
    and "\<forall>j \<in> set (db_participant_join db). open_row j \<longrightarrow> wants ev j \<longrightarrow> jr_join_id j \<in> set ids"
    and "distinct (map jr_join_id (db_participant_join db))" "distinct ids" "set ids \<subseteq> jr_join_id ` set (db_participant_join db)"
    and "ev_Type ev = EventParticipantLeft \<Longrightarrow> ids \<noteq> []"
  shows "RecordEvent ts e db ev =
    (db\<lparr>db_event_raw := db_event_raw db @ [event_row_of ts (en_now e) ev],
        db_participant_join := map (end_ids ts e ev ids) (db_participant_join db)\<rparr>, closed_result ev (length ids), None)"
proof -
  let ?js = "db_participant_join db"
  have iff: "jr_join_id j \<in> set ids \<longleftrightarrow> wants ev j \<and> open_row j" if "j \<in> set ?js" for j
    using that assms(5,6) by (auto simp: selects_def)
  have tgt: "close_targets k ev ?js j \<longleftrightarrow> jr_join_id j \<in> set ids" if "j \<in> set ?js" for k j
  proof (cases "ev_Type ev = EventParticipantLeft")
    case True
    have sid: "sid_matches ev c \<longleftrightarrow> wants ev c \<and> open_row c" if "c \<in> set ?js" for c
      using True by (auto simp: sid_matches_def by_sid_def wants_def)
    obtain i where "i \<in> set ids" using assms(10) [OF True] by (cases ids) auto
    then obtain c where "c \<in> set ?js" "jr_join_id c \<in> set ids" using assms(9) by auto
    then have "\<exists>c \<in> set ?js. sid_matches ev c" using iff sid by blast
    then have "close_targets k ev ?js j \<longleftrightarrow> sid_matches ev j" using True by (simp add: close_targets_def)
    then show ?thesis using iff [OF that] sid [OF that] by simp
  next
    case False
    then have "ev_Type ev = EventRoomFinished" using assms(2) by (simp add: closing_def)
    then show ?thesis using iff [OF that] False by (auto simp: close_targets_def by_room_def wants_def)
  qed
  have joins: "close_joins ts e ev ?js = map (end_ids ts e ev ids) ?js"
    unfolding close_joins_def using tgt by (simp add: end_ids_def)
  have "filter (close_targets k ev ?js) ?js = filter (\<lambda>j. jr_join_id j \<in> set ids) ?js" for k
    using tgt by (intro filter_cong refl)
  then have count: "close_count k ev ?js = length ids" for k
    using length_filter_ids [OF assms(7-9)] by (simp add: close_count_def)
  have late: "\<not> close_late ts k ev ?js" for k
    using tgt assms(5) by (auto simp: close_late_def selects_def)
  show ?thesis
    using assms(1-4,10) late joins count
    by (auto simp: RecordEvent_spec_quiet effect_ok_def stored_db_def join_effect_def effect_result_def close_result_def
        closed_result_def Let_def closing_def)
qed

section \<open>Transactions that are about to commit\<close>

text \<open>What a transaction with a pending row has done when it reaches its commit: its result, and why it opens
  no join or which joins it ends.\<close>

definition done_ok :: "database \<Rightarrow> tx \<Rightarrow> bool" where
  "done_ok db x \<longleftrightarrow> (tx_pc x = AtCommit \<and> tx_row x \<noteq> None \<longrightarrow>
     tx_res x = (if closing (tx_ev x) then closed_result (tx_ev x) (length (tx_ends x))
                 else after_insert\<lparr>rs_JoinOpened := tx_new x \<noteq> None\<rparr>) \<and>
     (ev_Type (tx_ev x) = EventParticipantJoined \<and> tx_new x = None \<longrightarrow>
        ev_ID (tx_ev x) \<in> jr_started_event_id ` set (db_participant_join db)) \<and>
     (ev_Type (tx_ev x) = EventParticipantLeft \<longrightarrow> tx_ends x \<noteq> [] \<and> ev_ParticipantSID (tx_ev x) \<noteq> [] \<and>
        (\<forall>j \<in> set (db_participant_join db). jr_join_id j \<in> set (tx_ends x) \<longrightarrow>
           jr_participant_sid j = Some (ev_ParticipantSID (tx_ev x)))))"

lemma done_ok_return [simp]: "done_ok db (return_tx x res err)" "done_ok db (begin_tx e ev)"
  by (simp_all add: done_ok_def begin_tx_def)

lemma step_update_done:
  assumes "db_inv db" "tx_ok ts db x" "tx_pc x = AtUpdate sel ids" "sel \<noteq> ByIdentity" "step_update ts os db x sel ids = Some x'"
  shows "done_ok db x'"
proof -
  define T where "T = filter (\<lambda>j. jr_join_id j \<in> set ids \<and> recheck sel (tx_ev x) j) (db_participant_join db)"
  have ty: "sel = ByRoom \<and> ev_Type (tx_ev x) = EventRoomFinished \<or>
      sel = BySID \<and> ev_Type (tx_ev x) = EventParticipantLeft \<and> ev_ParticipantSID (tx_ev x) \<noteq> []"
      and res: "tx_res x = after_insert" and idle: "tx_new x = None"
    using assms(2-4) tx_idle(2) [OF assms(2)] by (cases sel; auto simp: tx_ok_def pc_ok_def)+
  have "distinct (map jr_join_id (db_participant_join db))" using assms(1) by (simp add: db_inv_def)
  then have "j \<in> set T" if "j \<in> set (db_participant_join db)" "jr_join_id j \<in> jr_join_id ` set T" for j
    using that same_join [of "db_participant_join db" j] by (auto simp: T_def)
  moreover have "jr_participant_sid j = Some (ev_ParticipantSID (tx_ev x))" if "j \<in> set T" "sel = BySID" for j
    using that by (auto simp: T_def recheck_def by_sid_def)
  ultimately have sid: "jr_participant_sid j = Some (ev_ParticipantSID (tx_ev x))"
    if "sel = BySID" "j \<in> set (db_participant_join db)" "jr_join_id j \<in> jr_join_id ` set T" for j
    using that by blast
  have "(\<exists>err. x' = return_tx x (tx_res x) err) \<or> tx_pc x' = AtIdentity \<or>
      x' = x\<lparr>tx_pc := AtCommit, tx_ends := map jr_join_id T, tx_res := closed_result (tx_ev x) (length T)\<rparr> \<and> (sel = BySID \<longrightarrow> T \<noteq> [])"
    using assms(5) ty res unfolding step_update_def Let_def T_def [symmetric]
    by (auto simp: closed_result_def event_type_defs split: if_splits)
  then show ?thesis
    using ty idle sid by (elim disjE exE conjE) (auto simp: done_ok_def closing_def event_type_defs)
qed

lemma advance_done:
  assumes "db_inv db" "tx_ok ts db x" "advance ts os db x = Some (db', x')" "tx_pc x \<noteq> AtCommit"
    "tx_pc x \<noteq> AtIdentity" "by_sid_only x"
  shows "done_ok db x'"
proof (cases "tx_pc x")
  case (AtUpdate sel ids)
  then show ?thesis
    using assms step_update_done [OF assms(1,2) AtUpdate] by (auto simp: advance_def by_sid_only_def)
next
  case AtInsert
  then show ?thesis
    using assms(2,3) by (auto simp: advance_def step_insert_def Let_def done_ok_def tx_ok_def pc_ok_def split: if_splits)
next
  case AtEffect
  have x: "tx_res x = after_insert" "tx_new x = None" "tx_ends x = []"
    using assms(2) AtEffect tx_idle [OF assms(2)] by (auto simp: tx_ok_def pc_ok_def)
  show ?thesis
    using assms(3) AtEffect x
    by (auto simp: advance_def step_effect_def step_open_def Let_def done_ok_def closing_def event_type_defs zeroResult_def split: if_splits)
qed (use assms in \<open>auto simp: advance_def\<close>)

lemma done_ok_commit:
  assumes "db_inv db" "tx_ok ts db x" "tx_ok ts db y" "done_ok db x"
  shows "done_ok (apply_tx ts y db) x"
proof -
  have old: "set (tx_ends x) \<subseteq> jr_join_id ` set (db_participant_join db)" using assms(2) by (simp add: tx_ok_def ends_ok_def)
  have new: "jr_join_id j \<notin> jr_join_id ` set (db_participant_join db)" if "tx_new y = Some j" for j
    using assms(3) that by (auto simp: tx_ok_def new_ok_def)
  have started: "jr_started_event_id ` set (db_participant_join db) \<subseteq> jr_started_event_id ` set (db_participant_join (apply_tx ts y db))"
    unfolding apply_tx_images by blast
  have "jr_participant_sid j = Some (ev_ParticipantSID (tx_ev x))"
    if "j \<in> set (db_participant_join (apply_tx ts y db))" "jr_join_id j \<in> set (tx_ends x)"
      "\<forall>j \<in> set (db_participant_join db). jr_join_id j \<in> set (tx_ends x) \<longrightarrow> jr_participant_sid j = Some (ev_ParticipantSID (tx_ev x))" for j
    using that old new by (auto split: option.splits) (metis subsetD)
  then show ?thesis using assms(4) started unfolding done_ok_def by blast
qed

text \<open>A close misses no join that was there from the start: those of the ids \<open>old\<close> that are open and wanted are in
  its snapshot, and among those it ends.\<close>

definition covers :: "string set \<Rightarrow> database \<Rightarrow> tx \<Rightarrow> bool" where
  "covers old db x \<longleftrightarrow>
     (\<forall>j \<in> set (db_participant_join db). jr_join_id j \<in> old \<and> open_row j \<and> wants (tx_ev x) j \<and> closing (tx_ev x) \<longrightarrow>
        (\<forall>sel ids. tx_pc x = AtUpdate sel ids \<longrightarrow> jr_join_id j \<in> set ids) \<and>
        (tx_pc x = AtCommit \<and> tx_row x \<noteq> None \<longrightarrow> jr_join_id j \<in> set (tx_ends x)))"

lemma covers_return [simp]: "covers old db (return_tx x res err)" "covers old db (begin_tx e ev)"
  by (simp_all add: covers_def begin_tx_def return_tx_def)

lemma step_effect_snapshot:
  assumes "step_effect ts os db x = Some x'" "tx_pc x' = AtUpdate sel ids" "j \<in> set (db_participant_join db)" "open_row j"
    and "wants (tx_ev x) j"
  shows "jr_join_id j \<in> set ids"
  using assms
  by (auto simp: step_effect_def step_open_def snapshot_def wants_def by_sid_def by_room_def Let_def return_tx_def split: if_splits)

lemma step_update_covers:
  assumes "tx_ok ts db x" "tx_pc x = AtUpdate sel ids" "sel \<noteq> ByIdentity" "step_update ts os db x sel ids = Some x'"
    and "j \<in> set (db_participant_join db)" "open_row j" "wants (tx_ev x) j" "jr_join_id j \<in> set ids" "tx_pc x' = AtCommit"
  shows "jr_join_id j \<in> set (tx_ends x')"
proof -
  have "recheck sel (tx_ev x) j"
    using assms(1-3,6,7) by (cases sel) (auto simp: recheck_def by_sid_def by_room_def wants_def tx_ok_def pc_ok_def)
  then show ?thesis
    using assms(4,5,8,9) by (auto simp: step_update_def Let_def return_tx_def split: if_splits)
qed

lemma advance_covers:
  assumes "covers old db x" "tx_ok ts db x" "advance ts os db x = Some (db', x')" "tx_pc x \<noteq> AtCommit"
    "tx_pc x \<noteq> AtIdentity" "by_sid_only x"
  shows "covers old db x'"
proof (cases "tx_pc x")
  case (AtUpdate sel ids)
  then have u: "step_update ts os db x sel ids = Some x'" "sel \<noteq> ByIdentity"
    using assms(3,6) by (auto simp: advance_def by_sid_only_def)
  have "tx_ev x' = tx_ev x" "tx_pc x' \<noteq> AtUpdate s is" for s "is"
    using u(1) by (auto simp: step_update_def Let_def return_tx_def split: if_splits)
  then show ?thesis
    using assms(1) step_update_covers [OF assms(2) AtUpdate u(2,1)] AtUpdate by (auto simp: covers_def)
next
  case AtInsert
  then show ?thesis
    using assms(2,3) by (auto simp: advance_def step_insert_def Let_def covers_def tx_ok_def pc_ok_def return_tx_def split: if_splits)
next
  case AtEffect
  then have e: "step_effect ts os db x = Some x'" using assms(3) by (auto simp: advance_def)
  have "tx_ev x' = tx_ev x" "closing (tx_ev x) \<longrightarrow> tx_pc x' \<noteq> AtCommit"
    using e by (auto simp: step_effect_def step_open_def Let_def return_tx_def closing_def event_type_defs split: if_splits)
  then show ?thesis using step_effect_snapshot [OF e] by (auto simp: covers_def)
qed (use assms in \<open>auto simp: advance_def\<close>)

lemma covers_commit:
  assumes "tx_ok ts db y" "covers old db x" "old \<subseteq> jr_join_id ` set (db_participant_join db)"
  shows "covers old (apply_tx ts y db) x"
proof -
  have "jr_join_id j \<notin> old" if "tx_new y = Some j" for j
    using assms(1,3) that by (auto simp: tx_ok_def new_ok_def)
  moreover have "wants ev (end_row ts y j) = wants ev j" for ev j by (simp add: wants_def end_row_def)
  moreover have "open_row (end_row ts y j) \<Longrightarrow> open_row j" for j by (simp add: end_row_def split: if_splits)
  ultimately show ?thesis using assms(2) by (auto simp: covers_def split: option.splits)
qed

section \<open>The order\<close>

text \<open>The tables of \<open>db\<close> are those a run of \<open>ds\<close> leaves, in which every join has ended but some of those of the start,
  with the joins the calls \<open>jo\<close> open and the rows of these and of the calls \<open>no\<close>, which change no join.\<close>

definition serial :: "(Time \<Rightarrow> int) \<Rightarrow> database \<Rightarrow> database \<Rightarrow> call list \<Rightarrow> call list \<Rightarrow> call list \<Rightarrow> bool" where
  "serial ts db0 db ds jo no \<longleftrightarrow> (\<exists>dbc. runs ts db0 ds dbc \<and> db_partitions dbc = db_partitions db0 \<and>
     (\<forall>j \<in> set (db_participant_join dbc). open_row j \<longrightarrow> jr_join_id j \<in> jr_join_id ` set (db_participant_join db0)) \<and>
     mset (db_event_raw db) = mset (db_event_raw dbc @ map (call_row ts) (jo @ no)) \<and>
     mset (db_participant_join db) = mset (db_participant_join dbc @ map (call_join ts) jo) \<and>
     (\<forall>c \<in> set jo. opener c) \<and> (\<forall>c \<in> set ds. quiet (fst (fst c)) \<and> rs_Stored (snd c)) \<and>
     (\<forall>c \<in> set no. effectless c \<and> (ev_Type (snd (fst c)) = EventParticipantJoined \<longrightarrow>
        ev_ID (snd (fst c)) \<in> jr_started_event_id ` set (db_participant_join db))))"

definition call_of :: "tx \<Rightarrow> call" where
  "call_of x = ((calm (tx_env x), tx_ev x), tx_res x)"

lemma call_of_simps [simp]:
  "fst (fst (call_of x)) = calm (tx_env x)" "snd (fst (call_of x)) = tx_ev x" "snd (call_of x) = tx_res x"
  by (simp_all add: call_of_def)

lemma call_of_row: "tx_ok ts db x \<Longrightarrow> tx_row x \<noteq> None \<Longrightarrow> tx_row x = Some (call_row ts (call_of x))"
  by (auto simp: tx_ok_def row_ok_def call_row_def)

lemma nonclosing_ends: "tx_ok ts db x \<Longrightarrow> \<not> closing (tx_ev x) \<Longrightarrow> tx_ends x = []"
proof (rule ccontr)
  assume x: "tx_ok ts db x" "\<not> closing (tx_ev x)" "tx_ends x \<noteq> []"
  then obtain i where "i \<in> set (tx_ends x)" by (cases "tx_ends x") auto
  then obtain j where "j \<in> set (db_participant_join db)" "jr_join_id j \<in> set (tx_ends x)"
    using x(1) by (auto simp: tx_ok_def ends_ok_def)
  then have "names_join (tx_ev x) j" using x(1) by (auto simp: tx_ok_def ends_ok_def)
  then show False using x(2) by (auto simp: names_join_def closing_def)
qed

text \<open>The commit of a transaction that opens a join, and of one that changes no join.\<close>

lemma serial_commit_open:
  assumes "serial ts db0 db ds jo no" "tx_ok ts db x" "tx_row x \<noteq> None" "tx_pc x = AtCommit" "done_ok db x" "tx_new x = Some j"
  shows "serial ts db0 (apply_tx ts x db) ds (jo @ [call_of x]) no"
proof -
  have ty: "ev_Type (tx_ev x) = EventParticipantJoined" and j: "j = call_join ts (call_of x)"
    using assms(2,6) by (auto simp: tx_ok_def new_ok_def call_join_def)
  note nc = closing_not_joined [OF ty]
  have ends: "tx_ends x = []" by (rule nonclosing_ends [OF assms(2) nc])
  have "opener (call_of x)" using assms(3-6) nc ty by (auto simp: opener_def done_ok_def)
  then show ?thesis
    using assms(1) call_of_row [OF assms(2,3)] ends assms(6) j unfolding serial_def
    by (elim exE, intro exI) auto
qed

lemma serial_commit_none:
  assumes "serial ts db0 db ds jo no" "tx_ok ts db x" "tx_row x \<noteq> None" "tx_pc x = AtCommit" "done_ok db x"
    and "tx_new x = None" "\<not> closing (tx_ev x)"
  shows "serial ts db0 (apply_tx ts x db) ds jo (no @ [call_of x])"
proof -
  have ends: "tx_ends x = []" by (rule nonclosing_ends [OF assms(2,7)])
  have "effectless (call_of x)" "ev_Type (tx_ev x) = EventParticipantJoined \<longrightarrow> ev_ID (tx_ev x) \<in> jr_started_event_id ` set (db_participant_join db)"
    using assms(3-7) by (auto simp: effectless_def done_ok_def zeroResult_def)
  then show ?thesis
    using assms(1) call_of_row [OF assms(2,3)] ends assms(6) unfolding serial_def
    by (elim exE, intro exI) auto
qed

text \<open>The commit of a close: the joins it ends are taken out of those still open and put before it.\<close>

lemma mset_distinct_map: "mset xs = mset ys \<Longrightarrow> distinct (map f xs) = distinct (map f ys)"
  by (metis mset_eq_imp_distinct_iff mset_map)

lemma selects_ends:
  assumes "tx_ok ts db x" "tx_row x \<noteq> None" "tx_pc x = AtCommit" "done_ok db x" "ends_open db x"
    and "j \<in> set (db_participant_join db)" "jr_join_id j \<in> set (tx_ends x)"
  shows "selects ts (tx_ev x) j"
proof -
  have "names_join (tx_ev x) j" "jr_started_at j \<le> ts (ev_OccurredAt (tx_ev x))" "open_row j"
    using assms by (auto simp: tx_ok_def ends_ok_def ends_open_def)
  then show ?thesis using assms(2-4,6,7) by (auto simp: selects_def wants_def names_join_def done_ok_def)
qed

lemma close_after_openings:
  assumes "\<forall>c \<in> set g. opener c" "quiet (fst (fst c))" "closing (snd (fst c))" "snd c = closed_result (snd (fst c)) (length ids)"
    and "js = db_participant_join db @ map (call_join ts) g"
    and "\<forall>j \<in> set js. jr_join_id j \<in> set ids \<longrightarrow> selects ts (snd (fst c)) j"
    and "\<forall>j \<in> set js. open_row j \<longrightarrow> wants (snd (fst c)) j \<longrightarrow> jr_join_id j \<in> set ids"
    and "distinct ids" "set ids \<subseteq> jr_join_id ` set js" "ev_Type (snd (fst c)) = EventParticipantLeft \<Longrightarrow> ids \<noteq> []"
    and "\<forall>c' \<in> set (g @ [c]). covered (db_partitions db) (er_occurred_at (call_row ts c'))"
    and keys: "distinct (map event_key (db_event_raw db @ map (call_row ts) (g @ [c])))"
    and dist: "distinct (map jr_join_id js)" "distinct (map jr_started_event_id js)"
  shows "runs ts db (g @ [c]) (db\<lparr>db_event_raw := db_event_raw db @ map (call_row ts) (g @ [c]),
    db_participant_join := map (end_ids ts (fst (fst c)) (snd (fst c)) ids) js\<rparr>)"
proof -
  let ?e = "fst (fst c)" and ?ev = "snd (fst c)"
  let ?db1 = "db\<lparr>db_event_raw := db_event_raw db @ map (call_row ts) g, db_participant_join := js\<rparr>"
  let ?db2 = "?db1\<lparr>db_event_raw := db_event_raw ?db1 @ [call_row ts c], db_participant_join := map (end_ids ts ?e ?ev ids) js\<rparr>"
  have opened: "runs ts db g ?db1" unfolding assms(5)
    by (rule opening_runs) (use assms(1,11) keys dist [unfolded assms(5)] in auto)
  have fresh: "event_identity ts ?ev \<notin> recorded_keys ?db1" using keys by (simp add: recorded_keys_def image_image image_Un)
  have "RecordEvent ts ?e ?db1 ?ev = (?db2, closed_result ?ev (length ids), None)"
    using close_runs [OF assms(2,3) _ fresh _ _ _ assms(8) _ assms(10)] assms(6,7,9,11) dist(1) by (simp add: call_row_def)
  then have "runs ts ?db1 [c] ?db2" using assms(4) by (intro runs_Cons [of ts c ?db1 ?db2]) simp_all
  from runs_append [OF opened this] show ?thesis by simp
qed

lemma end_row_ids: "end_row ts x = end_ids ts (calm (tx_env x)) (tx_ev x) (tx_ends x)"
  by (auto simp: end_row_def end_ids_def)

lemma serial_commit_close:
  assumes "serial ts db0 db ds jo no" "db_inv db" "db_inv (apply_tx ts x db)" "tx_ok ts db x" "tx_row x \<noteq> None"
    and "tx_pc x = AtCommit" "done_ok db x" "ends_open db x" "distinct (tx_ends x)" "closing (tx_ev x)"
    and "\<And>t. covered (db_partitions db) t \<Longrightarrow> covered (db_partitions db0) t"
    and "covers (jr_join_id ` set (db_participant_join db0)) db x"
    and "g = filter (\<lambda>c. en_uuid (fst (fst c)) \<in> set (tx_ends x)) jo"
    and "jo' = filter (\<lambda>c. en_uuid (fst (fst c)) \<notin> set (tx_ends x)) jo"
  shows "serial ts db0 (apply_tx ts x db) (ds @ g @ [call_of x]) jo' no"
proof -
  let ?c = "call_of x"
  from assms(1) obtain dbc where dbc: "runs ts db0 ds dbc" "db_partitions dbc = db_partitions db0"
      "\<forall>j \<in> set (db_participant_join dbc). open_row j \<longrightarrow> jr_join_id j \<in> jr_join_id ` set (db_participant_join db0)"
      "mset (db_event_raw db) = mset (db_event_raw dbc @ map (call_row ts) (jo @ no))"
      "mset (db_participant_join db) = mset (db_participant_join dbc @ map (call_join ts) jo)"
      "\<forall>c \<in> set jo. opener c" "\<forall>c \<in> set ds. quiet (fst (fst c)) \<and> rs_Stored (snd c)"
      "\<forall>c \<in> set no. effectless c \<and> (ev_Type (snd (fst c)) = EventParticipantJoined \<longrightarrow>
         ev_ID (snd (fst c)) \<in> jr_started_event_id ` set (db_participant_join db))"
    by (auto simp: serial_def)
  have jo: "mset jo = mset (g @ jo')" by (simp add: assms(13,14))
  have raw: "mset (db_event_raw (apply_tx ts x db)) = mset (db_event_raw dbc @ map (call_row ts) (g @ [?c]) @ map (call_row ts) (jo' @ no))"
    using dbc(4) jo by (simp add: call_of_row [OF assms(4,5)])
  define js where "js = db_participant_join dbc @ map (call_join ts) g"
  have joins: "mset (db_participant_join db) = mset (js @ map (call_join ts) jo')"
    using dbc(5) jo by (simp add: js_def)
  have set_joins: "set (db_participant_join db) = set js \<union> call_join ts ` set jo'"
    using arg_cong [OF joins, where f = set_mset] by simp
  let ?db2 = "dbc\<lparr>db_event_raw := db_event_raw dbc @ map (call_row ts) (g @ [?c]), db_participant_join := map (end_row ts x) js\<rparr>"
  have dist: "distinct (map jr_join_id js)" "distinct (map jr_started_event_id js)"
  proof -
    have "distinct (map jr_join_id (js @ map (call_join ts) jo'))" "distinct (map jr_started_event_id (js @ map (call_join ts) jo'))"
      by (rule iffD1 [OF mset_distinct_map [OF joins]]; use assms(2) in \<open>unfold db_inv_def, blast\<close>)+
    then show "distinct (map jr_join_id js)" "distinct (map jr_started_event_id js)" by auto
  qed
  have run: "runs ts dbc (g @ [?c]) ?db2"
    unfolding end_row_ids
  proof (rule close_after_openings [OF _ _ _ _ js_def, of ?c, unfolded call_of_simps])
    show "\<forall>j \<in> set js. jr_join_id j \<in> set (tx_ends x) \<longrightarrow> selects ts (tx_ev x) j"
      using selects_ends [OF assms(4-8)] set_joins by blast
    show "\<forall>j \<in> set js. open_row j \<longrightarrow> wants (tx_ev x) j \<longrightarrow> jr_join_id j \<in> set (tx_ends x)"
    proof (intro ballI impI)
      fix j assume j: "j \<in> set js" "open_row j" "wants (tx_ev x) j"
      show "jr_join_id j \<in> set (tx_ends x)"
      proof (cases "j \<in> set (db_participant_join dbc)")
        case True
        then show ?thesis using dbc(3) j assms(5,6,10,12) set_joins by (simp add: covers_def)
      qed (use j(1) in \<open>auto simp: js_def assms(13)\<close>)
    qed
    show "set (tx_ends x) \<subseteq> jr_join_id ` set js"
      using assms(4) set_joins by (auto simp: tx_ok_def ends_ok_def assms(14))
    have rows: "set (map (call_row ts) (g @ [?c])) \<subseteq> set (db_event_raw (apply_tx ts x db))"
      using arg_cong [OF raw, where f = set_mset] by auto
    have cov: "covered (db_partitions dbc) (er_occurred_at r)" if "r \<in> set (db_event_raw (apply_tx ts x db))" for r
      using assms(3,11) that by (simp add: db_inv_def dbc(2))
    show "\<forall>c' \<in> set (g @ [?c]). covered (db_partitions dbc) (er_occurred_at (call_row ts c'))"
      by (intro ballI cov subsetD [OF rows]) (unfold set_map, rule imageI)
    have "distinct (map event_key (db_event_raw dbc @ map (call_row ts) (g @ [?c]) @ map (call_row ts) (jo' @ no)))"
      by (rule iffD1 [OF mset_distinct_map [OF raw]]) (use assms(3) in \<open>unfold db_inv_def, blast\<close>)
    then show "distinct (map event_key (db_event_raw dbc @ map (call_row ts) (g @ [?c])))" by auto
  qed (use dbc(6) assms(5-7,9,10) dist in \<open>auto simp: assms(13) done_ok_def\<close>)
  have new: "tx_new x = None" using assms(4,10) by (auto simp: tx_ok_def new_ok_def closing_def)
  have "end_row ts x (call_join ts c) = call_join ts c" if "c \<in> set jo'" for c using that by (simp add: end_row_def assms(14))
  then have "map (end_row ts x) (map (call_join ts) jo') = map (call_join ts) jo'" unfolding map_map by (intro map_cong) auto
  then have split: "map (end_row ts x) (js @ map (call_join ts) jo') = map (end_row ts x) js @ map (call_join ts) jo'"
    by (simp only: map_append)
  have "mset (map (end_row ts x) (db_participant_join db)) = mset (map (end_row ts x) js @ map (call_join ts) jo')"
    unfolding split [symmetric] mset_map joins by (rule refl)
  then have joins': "mset (db_participant_join (apply_tx ts x db)) = mset (db_participant_join ?db2 @ map (call_join ts) jo')"
    by (simp add: new)
  have left: "\<forall>j \<in> set (db_participant_join ?db2). open_row j \<longrightarrow> jr_join_id j \<in> jr_join_id ` set (db_participant_join db0)"
    using dbc(3) by (auto simp: js_def end_row_def open_row_def assms(13))
  have calm: "\<forall>c \<in> set (ds @ g @ [?c]). quiet (fst (fst c)) \<and> rs_Stored (snd c)"
    using dbc(6,7) assms(5-7,10) by (auto simp: opener_def assms(13) closed_result_def done_ok_def)
  have started: "jr_started_event_id ` set (db_participant_join db) \<subseteq> jr_started_event_id ` set (db_participant_join (apply_tx ts x db))"
    unfolding apply_tx_images by blast
  show ?thesis
    unfolding serial_def
    by (intro exI [of _ ?db2] conjI runs_append [OF dbc(1) run] left joins' calm)
      (use raw dbc(2,6,8) started in \<open>auto simp: assms(14)\<close>)
qed

lemma serial_commit:
  assumes "serial ts db0 db ds jo no" "db_inv db" "db_inv (apply_tx ts x db)" "tx_ok ts db x" "tx_row x \<noteq> None"
    and "tx_pc x = AtCommit" "done_ok db x" "ends_open db x" "distinct (tx_ends x)"
    and "\<And>t. covered (db_partitions db) t \<Longrightarrow> covered (db_partitions db0) t"
    and "covers (jr_join_id ` set (db_participant_join db0)) db x"
  shows "\<exists>ds' jo' no'. serial ts db0 (apply_tx ts x db) ds' jo' no' \<and> set (ds' @ jo' @ no') = insert (call_of x) (set (ds @ jo @ no))"
proof (cases "closing (tx_ev x)")
  case True
  from serial_commit_close [OF assms(1-9) True assms(10,11) refl refl] show ?thesis
    by (intro exI conjI) (assumption, auto)
next
  case False
  then show ?thesis
  proof (cases "tx_new x")
    case None
    from serial_commit_none [OF assms(1,4-7) None False] show ?thesis by (intro exI conjI) (assumption, auto)
  next
    case (Some j)
    from serial_commit_open [OF assms(1,4-7) Some] show ?thesis by (intro exI conjI) (assumption, auto)
  qed
qed

text \<open>A call that reports its event stored is a call of the order, with its result.\<close>

definition explained :: "call list \<Rightarrow> tx \<Rightarrow> bool" where
  "explained cs x \<longleftrightarrow> (\<forall>res. tx_pc x = Returned res None \<longrightarrow> rs_Stored res \<longrightarrow> ((calm (tx_env x), tx_ev x), res) \<in> set cs)"

lemma explained_mono: "explained cs x \<Longrightarrow> set cs \<subseteq> set cs' \<Longrightarrow> explained cs' x"
  by (auto simp: explained_def)

lemma advance_explained: "advance ts os db x = Some (db', x') \<Longrightarrow> tx_pc x \<noteq> AtCommit \<Longrightarrow> explained cs x'"
  by (auto simp: explained_def advance_def step_insert_def step_effect_def step_open_def step_update_def return_tx_def Let_def
      split: pc.splits if_splits)

definition started_calls :: "tx list \<Rightarrow> (env \<times> Event) set" where
  "started_calls txs = set (map (\<lambda>x. (calm (tx_env x), tx_ev x)) txs)"

lemma started_update:
  "t < length txs \<Longrightarrow> tx_env x' = tx_env (txs ! t) \<Longrightarrow> tx_ev x' = tx_ev (txs ! t) \<Longrightarrow> started_calls (txs[t := x']) = started_calls txs"
proof -
  assume t: "t < length txs" and eq: "tx_env x' = tx_env (txs ! t)" "tx_ev x' = tx_ev (txs ! t)"
  have "map (\<lambda>x. (calm (tx_env x), tx_ev x)) (txs[t := x']) = map (\<lambda>x. (calm (tx_env x), tx_ev x)) txs"
    by (rule nth_equalityI) (use t eq in \<open>auto simp: nth_list_update\<close>)
  then show ?thesis by (simp only: started_calls_def)
qed

lemma advance_call: "advance ts os db x = Some (db', x') \<Longrightarrow> tx_env x' = tx_env x \<and> tx_ev x' = tx_ev x"
  by (auto simp: advance_def step_insert_def step_effect_def step_open_def step_update_def return_tx_def Let_def
      split: pc.splits if_splits)

definition serial_state :: "(Time \<Rightarrow> int) \<Rightarrow> database \<Rightarrow> cstate \<Rightarrow> bool" where
  "serial_state ts db0 S \<longleftrightarrow> (\<exists>ds jo no. serial ts db0 (cs_db S) ds jo no \<and>
     jr_join_id ` set (db_participant_join db0) \<subseteq> jr_join_id ` set (db_participant_join (cs_db S)) \<and>
     (\<forall>x \<in> set (cs_txs S). done_ok (cs_db S) x \<and> res_ok x \<and> explained (ds @ jo @ no) x \<and>
        covers (jr_join_id ` set (db_participant_join db0)) (cs_db S) x) \<and>
     fst ` set (ds @ jo @ no) \<subseteq> started_calls (cs_txs S))"

lemma serial_stateI:
  assumes "serial ts db0 (cs_db S) ds jo no"
    and "jr_join_id ` set (db_participant_join db0) \<subseteq> jr_join_id ` set (db_participant_join (cs_db S))"
    and "\<forall>x \<in> set (cs_txs S). done_ok (cs_db S) x \<and> res_ok x \<and> explained (ds @ jo @ no) x \<and>
      covers (jr_join_id ` set (db_participant_join db0)) (cs_db S) x"
    and "fst ` set (ds @ jo @ no) \<subseteq> started_calls (cs_txs S)"
  shows "serial_state ts db0 S"
  unfolding serial_state_def by (intro exI [of _ ds] exI [of _ jo] exI [of _ no] conjI) (rule assms)+

lemma serial_stateE:
  assumes "serial_state ts db0 S"
  obtains ds jo no where "serial ts db0 (cs_db S) ds jo no"
    "jr_join_id ` set (db_participant_join db0) \<subseteq> jr_join_id ` set (db_participant_join (cs_db S))"
    "\<forall>x \<in> set (cs_txs S). done_ok (cs_db S) x \<and> res_ok x \<and> explained (ds @ jo @ no) x \<and>
      covers (jr_join_id ` set (db_participant_join db0)) (cs_db S) x"
    "fst ` set (ds @ jo @ no) \<subseteq> started_calls (cs_txs S)"
  using assms unfolding serial_state_def by (elim exE conjE) (rule that)

lemma updated_all: "\<forall>x \<in> set xs. P x \<Longrightarrow> P y \<Longrightarrow> \<forall>x \<in> set (xs[i := y]). P x"
  using set_update_subset_insert [of xs i y] by blast

lemma serial_state_commit:
  assumes "serial_state ts db0 S" "final_inv ts S" "t < length (cs_txs S)" "tx_pc (cs_txs S ! t) = AtCommit"
    and "\<And>t. covered (db_partitions (cs_db S)) t \<Longrightarrow> covered (db_partitions db0) t"
  shows "serial_state ts db0 \<lparr>cs_db = apply_tx ts (cs_txs S ! t) (cs_db S),
    cs_txs = (cs_txs S)[t := return_tx (cs_txs S ! t) (tx_res (cs_txs S ! t)) err]\<rparr>"
proof -
  let ?x = "cs_txs S ! t" and ?db' = "apply_tx ts (cs_txs S ! t) (cs_db S)" and ?old = "jr_join_id ` set (db_participant_join db0)"
  obtain ds jo no where ser: "serial ts db0 (cs_db S) ds jo no"
      and txs: "\<forall>x \<in> set (cs_txs S). done_ok (cs_db S) x \<and> res_ok x \<and> explained (ds @ jo @ no) x \<and> covers ?old (cs_db S) x"
      and calls: "fst ` set (ds @ jo @ no) \<subseteq> started_calls (cs_txs S)"
      and old: "?old \<subseteq> jr_join_id ` set (db_participant_join (cs_db S))"
    using assms(1) unfolding serial_state_def by blast
  have inv: "db_inv (cs_db S)" "\<forall>x \<in> set (cs_txs S). tx_ok ts (cs_db S) x" "ends_open (cs_db S) ?x"
    using assms(2,3) by (auto simp: final_inv_defs conc_inv_defs)
  have inv': "db_inv ?db'" using commit_final [OF assms(2-4), of None] by (simp add: final_inv_def conc_inv_def)
  have x: "tx_ok ts (cs_db S) ?x" "done_ok (cs_db S) ?x" "distinct (tx_ends ?x)" "covers ?old (cs_db S) ?x"
    using inv(2) txs assms(3) by (auto simp: res_ok_def)
  have own: "fst (call_of ?x) \<in> started_calls (cs_txs S)" using assms(3) by (auto simp: started_calls_def call_of_def)
  have "\<exists>ds' jo' no'. serial ts db0 ?db' ds' jo' no' \<and> set (ds @ jo @ no) \<subseteq> set (ds' @ jo' @ no') \<and>
      fst ` set (ds' @ jo' @ no') \<subseteq> started_calls (cs_txs S) \<and> (tx_row ?x \<noteq> None \<longrightarrow> call_of ?x \<in> set (ds' @ jo' @ no'))"
  proof (cases "tx_row ?x = None")
    case True
    then have "tx_new ?x = None" "tx_ends ?x = []" using x(1) by (auto simp: tx_ok_def new_ok_def ends_ok_def)
    then have "?db' = cs_db S" using True by (simp add: apply_tx_def)
    then show ?thesis using ser calls True by auto
  next
    case False
    from serial_commit [OF ser inv(1) inv' x(1) False assms(4) x(2) inv(3) x(3) assms(5) x(4)] obtain ds' jo' no'
      where "serial ts db0 ?db' ds' jo' no'" "set (ds' @ jo' @ no') = insert (call_of ?x) (set (ds @ jo @ no))" by blast
    then show ?thesis using calls own by (intro exI [of _ ds'] exI [of _ jo'] exI [of _ no']) auto
  qed
  then obtain ds' jo' no' where s': "serial ts db0 ?db' ds' jo' no'" "set (ds @ jo @ no) \<subseteq> set (ds' @ jo' @ no')"
      "fst ` set (ds' @ jo' @ no') \<subseteq> started_calls (cs_txs S)" "tx_row ?x \<noteq> None \<longrightarrow> call_of ?x \<in> set (ds' @ jo' @ no')" by blast
  have "\<forall>y \<in> set (cs_txs S). done_ok ?db' y \<and> res_ok y \<and> explained (ds' @ jo' @ no') y \<and> covers ?old ?db' y"
    using txs done_ok_commit [OF inv(1) _ x(1)] inv(2) explained_mono [OF _ s'(2)] covers_commit [OF x(1) _ old] by blast
  moreover have "rs_Stored (tx_res ?x) \<longleftrightarrow> tx_row ?x \<noteq> None" using x(1) assms(4) by (simp add: tx_ok_def pc_ok_def)
  then have "explained (ds' @ jo' @ no') (return_tx ?x (tx_res ?x) err)"
    using s'(4) by (auto simp: explained_def return_tx_def call_of_def)
  then have "done_ok ?db' (return_tx ?x (tx_res ?x) err) \<and> res_ok (return_tx ?x (tx_res ?x) err) \<and>
      explained (ds' @ jo' @ no') (return_tx ?x (tx_res ?x) err) \<and> covers ?old ?db' (return_tx ?x (tx_res ?x) err)"
    by (simp add: res_ok_begin(2))
  ultimately have all: "\<forall>y \<in> set ((cs_txs S)[t := return_tx ?x (tx_res ?x) err]).
      done_ok ?db' y \<and> res_ok y \<and> explained (ds' @ jo' @ no') y \<and> covers ?old ?db' y" by (rule updated_all)
  have old': "?old \<subseteq> jr_join_id ` set (db_participant_join ?db')" using old unfolding apply_tx_images by blast
  have started: "started_calls ((cs_txs S)[t := return_tx ?x (tx_res ?x) err]) = started_calls (cs_txs S)"
    by (rule started_update [OF assms(3)]) (simp_all add: return_tx_def)
  show ?thesis
    by (rule serial_stateI [of ts db0 _ ds' jo' no']; simp only: cstate.simps started) (rule s' all old')+
qed

lemma serial_step:
  assumes "serial_state ts db0 S" "final_inv ts S" "conc_step ts m S = Some S'"
    and "case m of Advance t \<Rightarrow> t < length (cs_txs S) \<longrightarrow> tx_pc (cs_txs S ! t) \<noteq> AtIdentity | _ \<Rightarrow> True"
    and "\<And>t. covered (db_partitions (cs_db S)) t \<Longrightarrow> covered (db_partitions db0) t"
  shows "serial_state ts db0 S'"
proof -
  have upd: "serial_state ts db0 (S\<lparr>cs_txs := (cs_txs S)[t := x']\<rparr>)"
    if "done_ok (cs_db S) x'" "res_ok x'" "\<And>cs. explained cs x'"
      "covers (jr_join_id ` set (db_participant_join db0)) (cs_db S) (cs_txs S ! t) \<Longrightarrow> covers (jr_join_id ` set (db_participant_join db0)) (cs_db S) x'"
      "t < length (cs_txs S)" "tx_env x' = tx_env (cs_txs S ! t)" "tx_ev x' = tx_ev (cs_txs S ! t)" for t x'
  proof -
    have "covers (jr_join_id ` set (db_participant_join db0)) (cs_db S) (cs_txs S ! t)"
      using assms(1) nth_mem [OF that(5)] unfolding serial_state_def by blast
    note x' = that(1,2,3) that(4) [OF this]
    from assms(1) show ?thesis
    proof (rule serial_stateE)
      fix ds jo no
      assume s: "serial ts db0 (cs_db S) ds jo no"
        "jr_join_id ` set (db_participant_join db0) \<subseteq> jr_join_id ` set (db_participant_join (cs_db S))"
        "\<forall>x \<in> set (cs_txs S). done_ok (cs_db S) x \<and> res_ok x \<and> explained (ds @ jo @ no) x \<and>
          covers (jr_join_id ` set (db_participant_join db0)) (cs_db S) x"
        "fst ` set (ds @ jo @ no) \<subseteq> started_calls (cs_txs S)"
      have eq: "S\<lparr>cs_txs := (cs_txs S)[t := x']\<rparr> = \<lparr>cs_db = cs_db S, cs_txs = (cs_txs S)[t := x']\<rparr>" by simp
      show ?thesis unfolding eq
        by (rule serial_stateI [of ts db0 _ ds jo no]; simp only: cstate.simps started_update [OF that(5-7)])
          (intro s updated_all [OF s(3)] conjI x')+
    qed
  qed
  show ?thesis
  proof (cases m)
    case (Begin e ev)
    have "done_ok db (begin_tx e ev) \<and> res_ok (begin_tx e ev) \<and> explained cs (begin_tx e ev)" for db cs
      by (simp add: res_ok_begin explained_def begin_tx_def done_ok_def res_ok_def)
    moreover have "S' = S\<lparr>cs_txs := cs_txs S @ [begin_tx e ev]\<rparr>" using assms(3) Begin by simp
    moreover have "started_calls (cs_txs S) \<subseteq> started_calls (cs_txs S @ [begin_tx e ev])" by (auto simp: started_calls_def)
    ultimately show ?thesis using assms(1) unfolding serial_state_def by (elim exE conjE, intro exI conjI) auto
  next
    case (Advance t)
    let ?x = "cs_txs S ! t"
    obtain db' x' where t: "t < length (cs_txs S)" and adv: "advance ts (others t (cs_txs S)) (cs_db S) ?x = Some (db', x')"
        and S': "S' = \<lparr>cs_db = db', cs_txs = (cs_txs S)[t := x']\<rparr>"
      using assms(3) Advance by (auto split: if_splits option.splits)
    show ?thesis
    proof (cases "tx_pc ?x = AtCommit")
      case True
      then show ?thesis using adv serial_state_commit [OF assms(1,2) t True assms(5), of None] by (auto simp: S' advance_def)
    next
      case False
      have x: "db_inv (cs_db S)" "tx_ok ts (cs_db S) ?x" "by_sid_only ?x" "tx_pc ?x \<noteq> AtIdentity"
        using assms(2,4) t Advance by (auto simp: final_inv_defs conc_inv_defs)
      have "db' = cs_db S" by (rule advance_ends(1) [OF x(1,2) adv False x(4,3)])
      then have "S' = S\<lparr>cs_txs := (cs_txs S)[t := x']\<rparr>" by (simp add: S')
      then show ?thesis
        using upd [OF advance_done [OF x(1,2) adv False x(4,3)] advance_res_ok [OF x(1,2) adv] advance_explained [OF adv False] _ t]
          advance_covers [OF _ x(2) adv False x(4,3)] advance_call [OF adv] by simp
    qed
  next
    case (Fault t err)
    then show ?thesis
      using assms(3) by (auto simp: Let_def res_ok_begin explained_def return_tx_def split: if_splits
          intro!: upd [unfolded return_tx_def] simp: done_ok_def res_ok_def covers_def)
  next
    case (LoseAck t err)
    then show ?thesis using assms(3) serial_state_commit [OF assms(1,2) _ _ assms(5)] by (auto simp: Let_def split: if_splits)
  next
    case (AddPartition p)
    then have "S' = S\<lparr>cs_db := (cs_db S)\<lparr>db_partitions := db_partitions (cs_db S) @ [p]\<rparr>\<rparr>" using assms(3) by simp
    then show ?thesis using assms(1) by (simp add: serial_state_def serial_def done_ok_def covers_def)
  qed
qed

lemma partitions_grow: "run_schedule ts ms S = Some S' \<Longrightarrow> covered (db_partitions (cs_db S)) t \<Longrightarrow> covered (db_partitions (cs_db S')) t"
proof (induction ms arbitrary: S)
  case (Cons m ms)
  then obtain S1 where S1: "conc_step ts m S = Some S1" "run_schedule ts ms S1 = Some S'" by (auto split: option.splits)
  have "set (db_partitions (cs_db S)) \<subseteq> set (db_partitions (cs_db S1))"
    using S1(1) by (cases m) (auto simp: advance_def Let_def split: if_splits option.splits pc.splits)
  then have "covered (db_partitions (cs_db S1)) t" using Cons.prems(2) by (auto simp: covered_def)
  then show ?case by (rule Cons.IH [OF S1(2)])
qed simp

lemma serial_run:
  assumes "run_schedule ts ms S = Some S'" "no_fallback ts ms S" "final_inv ts S" "serial_state ts db0 S"
    and "\<And>t. covered (db_partitions (cs_db S')) t \<Longrightarrow> covered (db_partitions db0) t"
  shows "serial_state ts db0 S'"
  using assms(1-4)
proof (induction ms arbitrary: S)
  case (Cons m ms)
  then obtain S1 where S1: "conc_step ts m S = Some S1" "run_schedule ts ms S1 = Some S'" "no_fallback ts ms S1"
    by (auto split: option.splits)
  have m: "case m of Advance t \<Rightarrow> t < length (cs_txs S) \<longrightarrow> tx_pc (cs_txs S ! t) \<noteq> AtIdentity | _ \<Rightarrow> True"
    using Cons.prems(2) by simp
  have "serial_state ts db0 S1"
    using serial_step [OF Cons.prems(4,3) S1(1) m] partitions_grow [OF Cons.prems(1)] assms(5) by blast
  moreover have "final_inv ts S1" using final_step [OF Cons.prems(3) S1(1) m] by blast
  ultimately show ?case using Cons.IH [OF S1(2,3)] by blast
qed simp

text \<open>The whole order, run from the start.\<close>

lemma serial_runs:
  assumes "serial ts db0 db ds jo no" "db_inv db" "\<And>t. covered (db_partitions db) t \<Longrightarrow> covered (db_partitions db0) t"
  shows "\<exists>db'. runs ts db0 (ds @ jo @ no) db' \<and> db_partitions db' = db_partitions db0 \<and> mset (db_event_raw db') = mset (db_event_raw db) \<and>
    mset (db_participant_join db') = mset (db_participant_join db) \<and> (\<forall>c \<in> set (ds @ jo @ no). quiet (fst (fst c)) \<and> rs_Stored (snd c))"
proof -
  obtain dbc where dbc: "runs ts db0 ds dbc" "db_partitions dbc = db_partitions db0"
      "mset (db_event_raw db) = mset (db_event_raw dbc @ map (call_row ts) (jo @ no))"
      "mset (db_participant_join db) = mset (db_participant_join dbc @ map (call_join ts) jo)"
      "\<forall>c \<in> set jo. opener c" "\<forall>c \<in> set ds. quiet (fst (fst c)) \<and> rs_Stored (snd c)"
      "\<forall>c \<in> set no. effectless c \<and> (ev_Type (snd (fst c)) = EventParticipantJoined \<longrightarrow>
         ev_ID (snd (fst c)) \<in> jr_started_event_id ` set (db_participant_join db))"
    using assms(1) by (auto simp: serial_def)
  let ?db1 = "dbc\<lparr>db_event_raw := db_event_raw dbc @ map (call_row ts) jo, db_participant_join := db_participant_join dbc @ map (call_join ts) jo\<rparr>"
  let ?db2 = "?db1\<lparr>db_event_raw := db_event_raw ?db1 @ map (call_row ts) no\<rparr>"
  have keys: "distinct (map event_key (db_event_raw dbc @ map (call_row ts) (jo @ no)))"
    by (rule iffD1 [OF mset_distinct_map [OF dbc(3)]]) (use assms(2) in \<open>unfold db_inv_def, blast\<close>)
  have ids: "distinct (map jr_join_id (db_participant_join dbc @ map (call_join ts) jo))"
      "distinct (map jr_started_event_id (db_participant_join dbc @ map (call_join ts) jo))"
    by (rule iffD1 [OF mset_distinct_map [OF dbc(4)]]; use assms(2) in \<open>unfold db_inv_def, blast\<close>)+
  have rows: "set (map (call_row ts) (jo @ no)) \<subseteq> set (db_event_raw db)"
    using arg_cong [OF dbc(3), where f = set_mset] by auto
  have cov: "covered (db_partitions dbc) (er_occurred_at (call_row ts c))" if "c \<in> set (jo @ no)" for c
  proof -
    have "call_row ts c \<in> set (db_event_raw db)" by (rule subsetD [OF rows]) (use that in auto)
    then show ?thesis unfolding dbc(2) using assms(2,3) unfolding db_inv_def by blast
  qed
  have joins: "set (db_participant_join db) = set (db_participant_join ?db1)"
    using arg_cong [OF dbc(4), where f = set_mset] by simp
  have r1: "runs ts dbc jo ?db1" by (rule opening_runs) (use dbc(5) keys ids cov in auto)
  have r2: "runs ts ?db1 no ?db2" by (rule effectless_runs) (use dbc(7) keys cov joins in auto)
  have "\<forall>c \<in> set (ds @ jo @ no). quiet (fst (fst c)) \<and> rs_Stored (snd c)"
    using dbc(5-7) by (auto simp: opener_def effectless_def)
  moreover have "runs ts db0 (ds @ jo @ no) ?db2" by (intro runs_append [OF dbc(1)] runs_append [OF r1 r2])
  ultimately show ?thesis using dbc(2-4) by (intro exI [of _ ?db2]) simp
qed

text \<open>A call that returns without an error and has not stored its event has found it recorded, and reports the zero
  result. These calls come last in the order.\<close>

definition dup_ok :: "tx \<Rightarrow> bool" where
  "dup_ok x \<longleftrightarrow> (tx_pc x = AtCommit \<and> tx_row x = None \<longrightarrow> tx_res x = zeroResult) \<and>
     (\<forall>res. tx_pc x = Returned res None \<longrightarrow> rs_Stored res \<or> res = zeroResult)"

lemma dup_ok_begin: "dup_ok (begin_tx e ev)" "dup_ok (return_tx x res (Some err))"
  by (simp_all add: dup_ok_def begin_tx_def return_tx_def)

lemma advance_dup:
  assumes "tx_ok ts db x" "dup_ok x" "advance ts os db x = Some (db', x')"
  shows "dup_ok x'"
  using assms
  by (auto simp: dup_ok_def advance_def step_insert_def step_effect_def step_open_def step_update_def return_tx_def Let_def
      tx_ok_def pc_ok_def split: pc.splits if_splits)

lemma conc_step_dup:
  assumes "conc_inv ts S" "conc_step ts m S = Some S'" "\<forall>x \<in> set (cs_txs S). dup_ok x"
  shows "\<forall>x \<in> set (cs_txs S'). dup_ok x"
proof (cases m)
  case (Advance t)
  then obtain db x where t: "t < length (cs_txs S)" "advance ts (others t (cs_txs S)) (cs_db S) (cs_txs S ! t) = Some (db, x)"
      and S': "cs_txs S' = (cs_txs S)[t := x]"
    using assms(2) by (auto split: if_splits option.splits)
  have "tx_ok ts (cs_db S) (cs_txs S ! t)" "dup_ok (cs_txs S ! t)" using assms(1,3) t(1) by (auto simp: conc_inv_defs)
  from advance_dup [OF this t(2)] show ?thesis unfolding S' by (rule updated_all [OF assms(3)])
qed (use assms(2,3) dup_ok_begin in \<open>auto simp: Let_def split: if_splits dest!: set_update_subset_insert [THEN subsetD]\<close>)

lemma run_schedule_dup:
  "run_schedule ts ms S = Some S' \<Longrightarrow> conc_inv ts S \<Longrightarrow> \<forall>x \<in> set (cs_txs S). dup_ok x \<Longrightarrow> \<forall>x \<in> set (cs_txs S'). dup_ok x"
proof (induction ms arbitrary: S)
  case (Cons m ms)
  then obtain S1 where S1: "conc_step ts m S = Some S1" "run_schedule ts ms S1 = Some S'" by (auto split: option.splits)
  show ?case by (rule Cons.IH [OF S1(2) conc_step_inv [OF Cons.prems(2) S1(1)] conc_step_dup [OF Cons.prems(2) S1(1) Cons.prems(3)]])
qed simp

definition found :: "tx \<Rightarrow> bool" where
  "found x \<longleftrightarrow> (case tx_pc x of Returned res err \<Rightarrow> err = None \<and> \<not> rs_Stored res | _ \<Rightarrow> False)"

definition found_calls :: "tx list \<Rightarrow> call list" where
  "found_calls txs = map (\<lambda>x. ((calm (tx_env x), tx_ev x), zeroResult)) (filter found txs)"

lemma redelivered_runs:
  "\<forall>c \<in> set cs. quiet (fst (fst c)) \<and> snd c = zeroResult \<and> covered (db_partitions db) (ts (ev_OccurredAt (snd (fst c)))) \<and>
     event_identity ts (snd (fst c)) \<in> recorded_keys db \<Longrightarrow> runs ts db cs db"
proof (induction cs)
  case (Cons c cs)
  then show ?case by (intro runs_Cons [of ts c db db]) (simp_all add: RecordEvent_spec_quiet)
qed simp

lemma found_runs:
  assumes "conc_inv ts S" "mset (db_event_raw db) = mset (db_event_raw (cs_db S))" "db_partitions db = db_partitions (cs_db S)"
  shows "runs ts db (found_calls (cs_txs S)) db"
proof (rule redelivered_runs, rule ballI)
  fix c
  assume "c \<in> set (found_calls (cs_txs S))"
  then obtain x where x: "x \<in> set (cs_txs S)" "found x" "c = ((calm (tx_env x), tx_ev x), zeroResult)" by (auto simp: found_calls_def)
  have rows: "set (db_event_raw db) = set (db_event_raw (cs_db S))" using arg_cong [OF assms(2), where f = set_mset] by simp
  have "tx_ok ts (cs_db S) x" and inv: "db_inv (cs_db S)" using assms(1) x(1) by (auto simp: conc_inv_defs)
  then have "event_identity ts (tx_ev x) \<in> recorded_keys (cs_db S)"
    using x(2) by (auto simp: tx_ok_def pc_ok_def found_def split: pc.splits)
  then obtain r where r: "r \<in> set (db_event_raw (cs_db S))" "event_key r = event_identity ts (tx_ev x)" by (auto simp: recorded_keys_def)
  then have "er_occurred_at r = ts (ev_OccurredAt (tx_ev x))" by (simp add: event_key_def event_identity_def)
  then have "covered (db_partitions db) (ts (ev_OccurredAt (tx_ev x)))" using inv r(1) assms(3) by (auto simp: db_inv_def)
  moreover have "event_identity ts (tx_ev x) \<in> recorded_keys db" using imageI [OF r(1), of event_key] r(2) by (simp add: recorded_keys_def rows)
  ultimately show "quiet (fst (fst c)) \<and> snd c = zeroResult \<and> covered (db_partitions db) (ts (ev_OccurredAt (snd (fst c)))) \<and>
      event_identity ts (snd (fst c)) \<in> recorded_keys db" by (simp add: x(3))
qed

lemma schedule_serializes:
  assumes "db_inv db" "run_schedule ts ms (fresh_state db) = Some S" "no_fallback ts ms (fresh_state db)"
  shows "\<exists>ds db' rs. deliver_all (RecordEvent ts) (db\<lparr>db_partitions := db_partitions (cs_db S)\<rparr>) ds = (db', rs) \<and>
    mset (db_event_raw db') = mset (db_event_raw (cs_db S)) \<and>
    mset (db_participant_join db') = mset (db_participant_join (cs_db S)) \<and>
    (\<forall>d \<in> set ds. quiet (fst d) \<and> (\<exists>x \<in> set (cs_txs S). d = (calm (tx_env x), tx_ev x))) \<and> (\<forall>w \<in> set rs. snd w = None) \<and>
    (\<forall>x \<in> set (cs_txs S). \<forall>res. tx_pc x = Returned res None \<longrightarrow>
       ((calm (tx_env x), tx_ev x), (res, None)) \<in> set (zip ds rs))"
proof -
  let ?db0 = "db\<lparr>db_partitions := db_partitions (cs_db S)\<rparr>"
  have fin: "final_inv ts (fresh_state db)" using assms(1) by (simp add: final_inv_defs conc_inv_defs fresh_state_def)
  have "serial ts ?db0 db [] [] []" by (simp add: serial_def)
  then have "serial_state ts ?db0 (fresh_state db)"
    by (intro serial_stateI [of ts ?db0 _ "[]" "[]" "[]"]) (simp_all add: fresh_state_def)
  then have "serial_state ts ?db0 S" using serial_run [OF assms(2,3) fin] by simp
  then obtain ds jo no where ser: "serial ts ?db0 (cs_db S) ds jo no"
      and "jr_join_id ` set (db_participant_join ?db0) \<subseteq> jr_join_id ` set (db_participant_join (cs_db S))"
      and all: "\<forall>x \<in> set (cs_txs S). done_ok (cs_db S) x \<and> res_ok x \<and> explained (ds @ jo @ no) x \<and>
        covers (jr_join_id ` set (db_participant_join ?db0)) (cs_db S) x"
      and calls: "fst ` set (ds @ jo @ no) \<subseteq> started_calls (cs_txs S)"
    by (rule serial_stateE)
  from all have txs: "\<forall>x \<in> set (cs_txs S). explained (ds @ jo @ no) x" by blast
  have cinv: "conc_inv ts S" by (rule reachable_conc_inv [OF assms(1,2)])
  then have "db_inv (cs_db S)" by (simp add: conc_inv_def)
  then obtain db' where db': "runs ts ?db0 (ds @ jo @ no) db'" "db_partitions db' = db_partitions ?db0"
      "mset (db_event_raw db') = mset (db_event_raw (cs_db S))" "mset (db_participant_join db') = mset (db_participant_join (cs_db S))"
      and quiet: "\<forall>c \<in> set (ds @ jo @ no). quiet (fst (fst c)) \<and> rs_Stored (snd c)"
    using serial_runs [OF ser] by auto
  have dups: "runs ts db' (found_calls (cs_txs S)) db'" by (rule found_runs [OF cinv db'(3)]) (simp add: db'(2))
  define cs where "cs = (ds @ jo @ no) @ found_calls (cs_txs S)"
  have run: "runs ts ?db0 cs db'" unfolding cs_def by (rule runs_append [OF db'(1) dups])
  have prov: "\<forall>d \<in> set (map fst cs). quiet (fst d) \<and> (\<exists>x \<in> set (cs_txs S). d = (calm (tx_env x), tx_ev x))"
  proof -
    have "fst ` set cs \<subseteq> started_calls (cs_txs S)" using calls by (auto simp: cs_def found_calls_def started_calls_def)
    moreover have "\<forall>c \<in> set cs. quiet (fst (fst c))" using quiet by (auto simp: cs_def found_calls_def)
    ultimately show ?thesis by (fastforce simp: started_calls_def)
  qed
  have "\<forall>x \<in> set (cs_txs (fresh_state db)). dup_ok x" "conc_inv ts (fresh_state db)"
    using assms(1) by (simp_all add: fresh_state_def conc_inv_defs)
  then have dup: "\<forall>x \<in> set (cs_txs S). dup_ok x" by (intro run_schedule_dup [OF assms(2)])
  have pairs: "(d, (res, None)) \<in> set (zip (map fst cs) (map (\<lambda>c. (snd c, None)) cs))" if "(d, res) \<in> set cs"
    for d res and cs :: "call list"
    using that by (induction cs) auto
  have "((calm (tx_env x), tx_ev x), (res, None)) \<in> set (zip (map fst cs) (map (\<lambda>c. (snd c, None)) cs))"
    if x: "x \<in> set (cs_txs S)" "tx_pc x = Returned res None" for x res
  proof (rule pairs, cases "rs_Stored res")
    case True
    then show "((calm (tx_env x), tx_ev x), res) \<in> set cs" using txs x by (auto simp: explained_def cs_def)
  next
    case False
    then have "res = zeroResult" "found x" using dup x by (auto simp: dup_ok_def found_def)
    then show "((calm (tx_env x), tx_ev x), res) \<in> set cs" using x(1) by (auto simp: cs_def found_calls_def)
  qed
  then show ?thesis
    using run db'(3,4) prov unfolding runs_def
    by (intro exI [of _ "map fst cs"] exI [of _ db'] exI [of _ "map (\<lambda>c. (snd c, None)) cs"] conjI) auto
qed

section \<open>Properties\<close>

text \<open>C3. Concurrent calls are serializable. Let any number of calls run
  in any interleaving, with statement faults, lost acknowledgements and added partitions, in which no close
  falls back to the identity. Then there is an order of some of these calls, without faults and one after the other, that
  leaves the same rows in both tables, in which no call fails, and which contains every call that returned
  without an error, whether it stored its event or found it recorded, with the very result it returned.\<close>

theorem concurrent_calls_serialize:
  assumes "db_inv db" "run_schedule ts ms (fresh_state db) = Some S" "no_fallback ts ms (fresh_state db)"
  shows "\<exists>ds db' rs. deliver_all (RecordEvent ts) (db\<lparr>db_partitions := db_partitions (cs_db S)\<rparr>) ds = (db', rs) \<and>
    mset (db_event_raw db') = mset (db_event_raw (cs_db S)) \<and>
    mset (db_participant_join db') = mset (db_participant_join (cs_db S)) \<and>
    (\<forall>d \<in> set ds. quiet (fst d) \<and> (\<exists>x \<in> set (cs_txs S). d = (calm (tx_env x), tx_ev x))) \<and> (\<forall>w \<in> set rs. snd w = None) \<and>
    (\<forall>x \<in> set (cs_txs S). \<forall>res. tx_pc x = Returned res None \<longrightarrow>
       ((calm (tx_env x), tx_ev x), (res, None)) \<in> set (zip ds rs))"
  by (rule schedule_serializes [OF assms])

text \<open>Alice and Bob are in the room at the start. Carol joins after the close of the room has taken its snapshot and
  before it commits: the close ends the two and not hers, and comes before her join in the order.\<close>

definition join_during_close :: "move list" where
  "join_during_close =
     [Begin (demo_env ''u3'') (demo_event ''e3'' EventRoomFinished 5 [] []), Advance 0, Advance 0,
      Begin (demo_env ''u4'') (demo_event ''e4'' EventParticipantJoined 3 ''carol'' ''PA_3''), Advance 1, Advance 1, Advance 1,
      Advance 0, Advance 0]"

lemma join_during_close_runs:
  "map_option (\<lambda>S. (map er_event_id (db_event_raw (cs_db S)), map open_row (db_participant_join (cs_db S))))
     (run_schedule demo_ts join_during_close (fresh_state demo_db)) = Some ([''e1'', ''e2'', ''e4'', ''e3''], [False, False, True])"
  "no_fallback demo_ts join_during_close (fresh_state demo_db)"
  by code_simp+

theorem concurrent_calls_serialize_witness:
  "\<exists>S ds db' rs. run_schedule demo_ts join_during_close (fresh_state demo_db) = Some S \<and>
     map er_event_id (db_event_raw (cs_db S)) = [''e1'', ''e2'', ''e4'', ''e3''] \<and>
     map open_row (db_participant_join (cs_db S)) = [False, False, True] \<and>
     deliver_all (RecordEvent demo_ts) (demo_db\<lparr>db_partitions := db_partitions (cs_db S)\<rparr>) ds = (db', rs) \<and>
     mset (db_event_raw db') = mset (db_event_raw (cs_db S)) \<and>
     mset (db_participant_join db') = mset (db_participant_join (cs_db S))"
proof -
  obtain S where S: "run_schedule demo_ts join_during_close (fresh_state demo_db) = Some S"
      "map er_event_id (db_event_raw (cs_db S)) = [''e1'', ''e2'', ''e4'', ''e3'']"
      "map open_row (db_participant_join (cs_db S)) = [False, False, True]"
    using join_during_close_runs(1) by (auto simp: map_option_case split: option.splits)
  from concurrent_calls_serialize [OF demo_db_inv S(1) join_during_close_runs(2)] obtain ds db' rs where
    "deliver_all (RecordEvent demo_ts) (demo_db\<lparr>db_partitions := db_partitions (cs_db S)\<rparr>) ds = (db', rs)"
    "mset (db_event_raw db') = mset (db_event_raw (cs_db S))"
    "mset (db_participant_join db') = mset (db_participant_join (cs_db S))" by blast
  then show ?thesis using S by (intro exI conjI)
qed

end
