(* ===== verification/Concurrent_Views.thy ===== *)
theory Concurrent_Views
  imports Serial_Order
begin

text \<open>
  The tables as a whole, seen from a schedule of concurrent calls: that \<^verbatim>\<open>participant_join\<close> is what the
  stored events say (\<open>joins_replay_events\<close>), that history is not rewritten (\<open>concurrent_history_is_append_only\<close>), and
  the exact place where the second fails, the fallback of a close to the identity
  (\<open>concurrent_fallback_rewrites_end\<close>). What holds of calls that run one at a time is in
  \<open>Postgres_Invariant\<close>; here it is carried over to \<open>Postgres_Concurrent\<close>, as far as it goes.
\<close>

section \<open>Sequences of whole calls\<close>

lemma deliver_all_steps: "(db_step ts)\<^sup>*\<^sup>* db (fst (deliver_all (RecordEvent ts) db ds))"
proof (induction ds arbitrary: db)
  case (Cons d ds)
  obtain e ev where d: "d = (e, ev)" by (cases d)
  obtain db1 r where step: "RecordEvent ts e db ev = (db1, r)" by (cases "RecordEvent ts e db ev")
  have "db_step ts db db1" using db_step_record [of ts db e ev] step by simp
  then have "(db_step ts)\<^sup>*\<^sup>* db (fst (deliver_all (RecordEvent ts) db1 ds))"
    using Cons.IH by (rule converse_rtranclp_into_rtranclp)
  then show ?case by (simp add: d step case_prod_beta)
qed simp

lemma db_steps_replay:
  assumes "(db_step ts)\<^sup>*\<^sup>* db db'" "db_inv db" "replays (db_event_raw db) (db_participant_join db)"
  shows "replays (db_event_raw db') (db_participant_join db')"
  using assms
proof (induction rule: rtranclp_induct)
  case (step db1 db2)
  then show ?case using replays_step db_steps_grow by blast
qed simp

lemma more_partitions_inv:
  assumes "db_inv db" "\<And>t. covered (db_partitions db) t \<Longrightarrow> covered ps t"
  shows "db_inv (db\<lparr>db_partitions := ps\<rparr>)"
  using assms by (auto simp: db_inv_def)

text \<open>The order of a serialization replays the rows of the interleaving.\<close>

lemma schedule_replays:
  assumes "db_inv db" "replays (db_event_raw db) (db_participant_join db)"
    and "run_schedule ts ms (fresh_state db) = Some S" "no_fallback ts ms (fresh_state db)"
  shows "\<exists>rs js. mset rs = mset (db_event_raw (cs_db S)) \<and> mset js = mset (db_participant_join (cs_db S)) \<and> replays rs js"
proof -
  let ?db0 = "db\<lparr>db_partitions := db_partitions (cs_db S)\<rparr>"
  from schedule_serializes [OF assms(1,3,4)] obtain ds db' ws where
      run: "deliver_all (RecordEvent ts) ?db0 ds = (db', ws)" and
      same: "mset (db_event_raw db') = mset (db_event_raw (cs_db S))"
        "mset (db_participant_join db') = mset (db_participant_join (cs_db S))" by blast
  have "covered (db_partitions (cs_db S)) t" if "covered (db_partitions db) t" for t
    by (rule partitions_grow [OF assms(3)]) (use that in \<open>simp add: fresh_state_def\<close>)
  then have inv: "db_inv ?db0" by (rule more_partitions_inv [OF assms(1)])
  have "(db_step ts)\<^sup>*\<^sup>* ?db0 db'" using deliver_all_steps [of ts ?db0 ds] run by simp
  then have "replays (db_event_raw db') (db_participant_join db')"
    by (rule db_steps_replay [OF _ inv]) (use assms(2) in simp)
  then show ?thesis using same by blast
qed

section \<open>Growth under concurrency\<close>

text \<open>How a join may change, the fallback included: only in how it ended, and not back to open.\<close>

definition stays_ended :: "join_row \<Rightarrow> join_row \<Rightarrow> bool" where
  "stays_ended j j' \<longleftrightarrow> frozen j' = frozen j \<and> (\<not> open_row j \<longrightarrow> \<not> open_row j')"

definition tables_extend :: "database \<Rightarrow> database \<Rightarrow> bool" where
  "tables_extend db db' \<longleftrightarrow>
     (\<exists>rs. db_event_raw db' = db_event_raw db @ rs) \<and>
     (\<exists>js new. db_participant_join db' = js @ new \<and> list_all2 stays_ended (db_participant_join db) js)"

lemma stays_ended_end_row: "stays_ended j (end_row ts x j)"
  by (auto simp: stays_ended_def end_row_def frozen_def set_end_def open_row_def)

lemma apply_tx_extends: "tables_extend db (apply_tx ts x db)"
proof -
  have "list_all2 stays_ended js (map (end_row ts x) js)" for js
    using stays_ended_end_row by (simp add: list_all2_conv_all_nth)
  then show ?thesis unfolding tables_extend_def apply_tx_simps by blast
qed

lemma tables_extend_same:
  assumes "db_event_raw db' = db_event_raw db" "db_participant_join db' = db_participant_join db"
  shows "tables_extend db db'"
  unfolding tables_extend_def assms
  by (intro conjI exI [of _ "db_participant_join db"] exI [of _ "[]"]) (simp_all add: list_all2_same stays_ended_def)

lemma tables_extend_trans:
  assumes "tables_extend a b" "tables_extend b c"
  shows "tables_extend a c"
proof -
  obtain js new where b: "db_participant_join b = js @ new" "list_all2 stays_ended (db_participant_join a) js"
    using assms(1) by (auto simp: tables_extend_def)
  obtain ks new' where c: "db_participant_join c = ks @ new'" "list_all2 stays_ended (db_participant_join b) ks"
    using assms(2) by (auto simp: tables_extend_def)
  obtain k1 k2 where k: "ks = k1 @ k2" "list_all2 stays_ended js k1"
    using c(2) unfolding b(1) list_all2_append1 by auto
  have "list_all2 stays_ended (db_participant_join a) k1"
    by (rule list_all2_trans [OF _ b(2) k(2)]) (simp add: stays_ended_def)
  then show ?thesis
    using assms c(1) k(1) unfolding tables_extend_def by (metis append.assoc)
qed

lemma conc_step_extends:
  assumes "conc_step ts m S = Some S'"
  shows "tables_extend (cs_db S) (cs_db S')"
proof (cases m)
  case (Advance t)
  then obtain db x where x: "advance ts (others t (cs_txs S)) (cs_db S) (cs_txs S ! t) = Some (db, x)" "cs_db S' = db"
    using assms by (auto split: if_splits option.splits)
  then have "db = cs_db S \<or> db = apply_tx ts (cs_txs S ! t) (cs_db S)" by (auto simp: advance_def split: pc.splits)
  then show ?thesis using apply_tx_extends tables_extend_same x(2) by auto
next
  case (LoseAck t err)
  then show ?thesis using assms apply_tx_extends by (auto simp: Let_def split: if_splits)
qed (use assms in \<open>auto simp: Let_def intro: tables_extend_same split: if_splits\<close>)

lemma schedule_extends: "run_schedule ts ms S = Some S' \<Longrightarrow> tables_extend (cs_db S) (cs_db S')"
proof (induction ms arbitrary: S)
  case Nil
  then show ?case by (simp add: tables_extend_same)
next
  case (Cons m ms)
  then obtain S1 where "conc_step ts m S = Some S1" "run_schedule ts ms S1 = Some S'" by (auto split: option.splits)
  then show ?case using conc_step_extends Cons.IH tables_extend_trans by blast
qed

lemma grows_at:
  assumes "list_all2 P xs ys" "zs = ys @ new" "i < length xs"
  shows "P (xs ! i) (zs ! i)"
  using list_all2_nthD [OF assms(1,3)] assms list_all2_lengthD [OF assms(1)] by (simp add: nth_append)

lemma ended_join_stays:
  assumes "db_grows db db'" "j \<in> set (db_participant_join db)" "\<not> open_row j"
  shows "j \<in> set (db_participant_join db')"
proof -
  obtain js new where js: "db_participant_join db' = js @ new" "list_all2 join_grows (db_participant_join db) js"
    using assms(1) by (auto simp: db_grows_def)
  obtain i where i: "i < length (db_participant_join db)" "db_participant_join db ! i = j"
    using assms(2) by (auto simp: in_set_conv_nth)
  have "db_participant_join db' ! i = j" using grows_at [OF js(2,1) i(1)] i(2) assms(3) by (simp add: join_grows_def)
  moreover have "i < length (db_participant_join db')" using i(1) list_all2_lengthD [OF js(2)] js(1) by simp
  ultimately show ?thesis using nth_mem by blast
qed

section \<open>The end of a join written over\<close>

lemma filter_join:
  "distinct (map jr_join_id js) \<Longrightarrow> j \<in> set js \<Longrightarrow> filter (\<lambda>i. jr_join_id i = jr_join_id j) js = [j]"
proof (induction js)
  case (Cons i js)
  show ?case
  proof (cases "i = j")
    case True
    then have "\<forall>k \<in> set js. jr_join_id k \<noteq> jr_join_id j" using Cons.prems(1) by (metis distinct.simps(2) image_eqI list.set_map list.simps(9))
    then show ?thesis using True by (simp add: filter_empty_conv)
  next
    case False
    then have "j \<in> set js" using Cons.prems(2) by simp
    moreover from this have "jr_join_id i \<noteq> jr_join_id j" using Cons.prems(1) by auto
    ultimately show ?thesis using Cons by simp
  qed
qed simp

text \<open>A fallback that waited: its update names the row and does not look at its end again.\<close>

lemma fallback_rewrites:
  assumes "conc_inv ts S" "t < length (cs_txs S)" "x = cs_txs S ! t" "tx_pc x = AtUpdate ByIdentity [jr_join_id j]"
    and "j \<in> set (db_participant_join (cs_db S))" "jr_started_at j \<le> ts (ev_OccurredAt (tx_ev x))"
    and "jr_join_id j \<notin> set (locked (others t (cs_txs S)))"
  shows "\<exists>S'. run_schedule ts [Advance t, Advance t] S = Some S' \<and>
    db_participant_join (cs_db S') =
      map (\<lambda>i. if i = j then set_end (ts (ev_OccurredAt (tx_ev x))) EndParticipantLeft (ev_ID (tx_ev x)) (en_now (tx_env x)) j else i)
        (db_participant_join (cs_db S)) \<and>
    tx_pc (cs_txs S' ! t) = Returned (after_insert\<lparr>rs_JoinsClosed := 1, rs_CloseUnmatched := False\<rparr>) None"
proof -
  let ?js = "db_participant_join (cs_db S)" and ?os = "others t (cs_txs S)"
  let ?res = "after_insert\<lparr>rs_JoinsClosed := 1, rs_CloseUnmatched := False\<rparr>"
  let ?x = "x\<lparr>tx_pc := AtCommit, tx_ends := [jr_join_id j], tx_res := ?res\<rparr>"
  have ok: "tx_ok ts (cs_db S) x" and dist: "distinct (map jr_join_id ?js)"
    using assms(1-3) by (auto simp: conc_inv_defs db_inv_def)
  then have x: "tx_res x = after_insert" "ev_Type (tx_ev x) = EventParticipantLeft"
    using assms(4) by (auto simp: tx_ok_def pc_ok_def)
  have new: "tx_new x = None" by (rule tx_idle(2) [OF ok]) (simp add: assms(4))
  have F: "filter (\<lambda>i. jr_join_id i \<in> set [jr_join_id j] \<and> recheck ByIdentity (tx_ev x) i) ?js = [j]"
    using filter_join [OF dist assms(5)] by (simp add: recheck_def)
  have "step_update ts ?os (cs_db S) x ByIdentity [jr_join_id j] = Some ?x"
    unfolding step_update_def Let_def F using assms(6,7) x(1) by simp
  then have one: "conc_step ts (Advance t) S = Some \<lparr>cs_db = cs_db S, cs_txs = (cs_txs S)[t := ?x]\<rparr>"
    using assms(2-4) by (simp add: advance_def)
  let ?S' = "\<lparr>cs_db = apply_tx ts ?x (cs_db S), cs_txs = (cs_txs S)[t := return_tx ?x ?res None]\<rparr>"
  have two: "conc_step ts (Advance t) \<lparr>cs_db = cs_db S, cs_txs = (cs_txs S)[t := ?x]\<rparr> = Some ?S'"
    using assms(2) by (simp add: advance_def)
  have "end_row ts ?x i = (if i = j then set_end (ts (ev_OccurredAt (tx_ev x))) EndParticipantLeft (ev_ID (tx_ev x)) (en_now (tx_env x)) j else i)"
    if "i \<in> set ?js" for i
    using same_join [OF dist that assms(5)] x(2) by (auto simp: end_row_def close_reason_def)
  then have "map (end_row ts ?x) ?js = map (\<lambda>i. if i = j then set_end (ts (ev_OccurredAt (tx_ev x))) EndParticipantLeft
      (ev_ID (tx_ev x)) (en_now (tx_env x)) j else i) ?js" by simp
  then show ?thesis
    using one two assms(2) new by (intro exI [of _ ?S']) (simp add: return_tx_def del: conc_step.simps)
qed

lemma set_end_count:
  "\<not> open_row j \<Longrightarrow> closed_count (map (\<lambda>i. if i = j then set_end at reason eid now j else i) js) = closed_count js"
  by (induction js) (auto simp: closed_count_def set_end_def open_row_def)

section \<open>Properties\<close>

text \<open>C2. \<open>participant_join\<close> is a view of \<open>event_raw\<close>. When calls run one at a time, the joins of every reachable
  state are the result of replaying the stored events in order of arrival by the abstract specification
  \<open>row_effect\<close>, which reads the stored columns only (the fresh join ids, the server clock and the pick among equally
  recent joins are its only freedom). When calls run concurrently from there, in any interleaving in which no close falls
  back to the identity, the same holds for some order of the rows of the two tables, which need not be
  that of arrival. Either way no join exists, and none is ended, without the stored event that says so, and no stored
  event is left without its effect. (With the fallback it fails: \<open>concurrent_fallback_rewrites_end\<close>.)\<close>

theorem joins_replay_events:
  assumes "db_reachable ts db"
  shows "replays (db_event_raw db) (db_participant_join db) \<and>
    (\<forall>ms S. run_schedule ts ms (fresh_state db) = Some S \<longrightarrow> no_fallback ts ms (fresh_state db) \<longrightarrow>
       (\<exists>rs js. mset rs = mset (db_event_raw (cs_db S)) \<and> mset js = mset (db_participant_join (cs_db S)) \<and> replays rs js))"
  using reachable_replays [OF assms] schedule_replays [OF db_reachable_inv [OF assms]] by blast

text \<open>Alice is in the room. Bob joins while the room is closed, and his join arrives first although the close does not
  see it.\<close>

definition join_first :: "move list" where
  "join_first =
     [Begin (demo_env ''u3'') (demo_event ''e3'' EventRoomFinished 5 [] []), Advance 0, Advance 0,
      Begin (demo_env ''u4'') (demo_event ''e4'' EventParticipantJoined 3 ''bob'' ''PA_3''), Advance 1, Advance 1, Advance 1,
      Advance 0, Advance 0]"

theorem joins_replay_events_witness:
  "\<exists>S rs js. run_schedule demo_ts join_first (fresh_state demo_after_join) = Some S \<and>
     map er_event_id (db_event_raw (cs_db S)) = [''e1'', ''e4'', ''e3''] \<and>
     map open_row (db_participant_join (cs_db S)) = [False, True] \<and>
     mset rs = mset (db_event_raw (cs_db S)) \<and> mset js = mset (db_participant_join (cs_db S)) \<and> replays rs js"
proof -
  have "map_option (\<lambda>S. (map er_event_id (db_event_raw (cs_db S)), map open_row (db_participant_join (cs_db S))))
      (run_schedule demo_ts join_first (fresh_state demo_after_join)) = Some ([''e1'', ''e4'', ''e3''], [False, True])" by code_simp
  then obtain S where S: "run_schedule demo_ts join_first (fresh_state demo_after_join) = Some S"
      "map er_event_id (db_event_raw (cs_db S)) = [''e1'', ''e4'', ''e3'']"
      "map open_row (db_participant_join (cs_db S)) = [False, True]"
    by (auto simp: map_option_case split: option.splits)
  have "no_fallback demo_ts join_first (fresh_state demo_after_join)" by code_simp
  with joins_replay_events [OF demo_reachable] S(1) obtain rs js where
    "mset rs = mset (db_event_raw (cs_db S))" "mset js = mset (db_participant_join (cs_db S))" "replays rs js" by blast
  then show ?thesis using S by (intro exI [of _ S] exI [of _ rs] exI [of _ js] conjI)
qed

text \<open>C34. History is not rewritten, as far as that is true of concurrent calls. Between any two states of any interleaving the
  rows of \<open>event_raw\<close> stay in their order, followed by the new ones; every join stays at its place with its
  identity, start and opening event; and a join that has ended does not become open again. When no close falls back to the identity, an ended
  join does not change in any column: no later event, early or late, moves its end. (A close that falls back can,
  \<open>concurrent_fallback_rewrites_end\<close>.)\<close>

theorem concurrent_history_is_append_only:
  assumes "db_inv db" "run_schedule ts ms (fresh_state db) = Some S" "run_schedule ts ms' S = Some S'"
  shows "let js = db_participant_join (cs_db S); js' = db_participant_join (cs_db S')
    in (\<exists>rs. db_event_raw (cs_db S') = db_event_raw (cs_db S) @ rs) \<and> length js \<le> length js' \<and>
       (\<forall>i < length js. frozen (js' ! i) = frozen (js ! i) \<and> (\<not> open_row (js ! i) \<longrightarrow> \<not> open_row (js' ! i)) \<and>
          (\<not> open_row (js ! i) \<and> no_fallback ts (ms @ ms') (fresh_state db) \<longrightarrow> js' ! i = js ! i))"
proof -
  let ?js = "db_participant_join (cs_db S)" and ?js' = "db_participant_join (cs_db S')"
  have ext: "tables_extend (cs_db S) (cs_db S')" by (rule schedule_extends [OF assms(3)])
  then obtain ks new where ks: "?js' = ks @ new" "list_all2 stays_ended ?js ks" by (auto simp: tables_extend_def)
  have keep: "stays_ended (?js ! i) (?js' ! i)" if "i < length ?js" for i by (rule grows_at [OF ks(2,1) that])
  have same: "?js' ! i = ?js ! i" if i: "i < length ?js" "\<not> open_row (?js ! i)" "no_fallback ts (ms @ ms') (fresh_state db)" for i
  proof -
    obtain ls new' where ls: "?js' = ls @ new'" "list_all2 join_grows ?js ls"
      using schedule_final [OF assms i(3)] by (auto simp: db_grows_def)
    show ?thesis using grows_at [OF ls(2,1) i(1)] i(2) by (simp add: join_grows_def)
  qed
  have "\<exists>rs. db_event_raw (cs_db S') = db_event_raw (cs_db S) @ rs" using ext by (simp add: tables_extend_def)
  then show ?thesis using keep same list_all2_lengthD [OF ks(2)] ks(1) by (auto simp: Let_def stays_ended_def)
qed

theorem concurrent_history_is_append_only_witness:
  "\<exists>S S'. run_schedule demo_ts room_closed (fresh_state demo_db) = Some S \<and> run_schedule demo_ts [Advance 1] S = Some S' \<and>
     db_participant_join (cs_db S') ! 0 = db_participant_join (cs_db S) ! 0 \<and> \<not> open_row (db_participant_join (cs_db S) ! 0)"
proof -
  have "(case run_schedule demo_ts room_closed (fresh_state demo_db) of None \<Rightarrow> False
         | Some S \<Rightarrow> run_schedule demo_ts [Advance 1] S \<noteq> None \<and> 0 < length (db_participant_join (cs_db S)) \<and>
             \<not> open_row (db_participant_join (cs_db S) ! 0))" by code_simp
  then obtain S S' where S: "run_schedule demo_ts room_closed (fresh_state demo_db) = Some S"
      "run_schedule demo_ts [Advance 1] S = Some S'" "0 < length (db_participant_join (cs_db S))"
      "\<not> open_row (db_participant_join (cs_db S) ! 0)"
    by (auto split: option.splits)
  have "no_fallback demo_ts (room_closed @ [Advance 1]) (fresh_state demo_db)" by code_simp
  with concurrent_history_is_append_only [OF demo_db_inv S(1,2)] S(3,4) have
    "db_participant_join (cs_db S') ! 0 = db_participant_join (cs_db S) ! 0" by (simp add: Let_def)
  then show ?thesis using S by blast
qed


definition leave_at :: "string \<Rightarrow> int \<Rightarrow> Event" where
  "leave_at i sec = demo_event i EventParticipantLeft sec ''alice'' []"

definition closed_first :: "move list" where
  "closed_first = [Begin (demo_env ''u3'') (leave_at ''e3'' 5), Begin (demo_env ''u4'') (leave_at ''e4'' 7)] @
     map Advance [0, 0, 0, 1, 1, 1, 0, 0]"

definition ends_of :: "database \<Rightarrow> (string \<times> int option \<times> string option) list" where
  "ends_of db = map (\<lambda>j. (jr_join_id j, jr_ended_at j, jr_ended_event_id j)) (db_participant_join db)"


end
