(* ===== verification/Restarts.thy ===== *)
theory Restarts
  imports Receiver_Concurrent
begin

text \<open>
  The ingester over its restarts. What a process keeps in memory ends with it: its handlers, its counters and its
  open transactions, which the database rolls back. The committed tables stay, and the next process
  starts from them. A life of the process is a run of the concurrent receiver from the idle state, stopped at any
  point (a crash, a kill, the end of a shutdown's grace period); what is promised across any number of lives is
  proved once, in the locale \<open>durable\<close>, from what is promised of one.
\<close>

section \<open>Lives over a durable state\<close>

text \<open>\<open>live s m\<close> is the life that does \<open>m\<close> from the durable state \<open>s\<close>: the state it leaves, and what it has done.\<close>

fun run_lives :: "('s \<Rightarrow> 'm \<Rightarrow> ('s \<times> 'l) option) \<Rightarrow> 's \<Rightarrow> 'm list \<Rightarrow> ('s \<times> 'l list) option" where
  "run_lives live s [] = Some (s, [])"
| "run_lives live s (m # ms) =
     (case live s m of
        None \<Rightarrow> None
      | Some (s', l) \<Rightarrow> map_option (\<lambda>(s'', ls). (s'', l # ls)) (run_lives live s' ms))"

text \<open>A life forgets no recorded key, records what it confirms, and reports as stored, once each, keys that were
  not recorded before and are recorded after.\<close>

locale durable =
  fixes live :: "'s \<Rightarrow> 'm \<Rightarrow> ('s \<times> 'l) option"
    and inv :: "'s \<Rightarrow> bool"
    and recorded :: "'s \<Rightarrow> 'k set"
    and confirmed :: "'l \<Rightarrow> 'k set"
    and stored :: "'l \<Rightarrow> 'k list"
  assumes live_inv: "inv s \<Longrightarrow> live s m = Some (s', l) \<Longrightarrow> inv s'"
    and live_keeps: "inv s \<Longrightarrow> live s m = Some (s', l) \<Longrightarrow> recorded s \<subseteq> recorded s'"
    and live_confirmed: "inv s \<Longrightarrow> live s m = Some (s', l) \<Longrightarrow> confirmed l \<subseteq> recorded s'"
    and live_distinct: "inv s \<Longrightarrow> live s m = Some (s', l) \<Longrightarrow> distinct (stored l)"
    and live_stored: "inv s \<Longrightarrow> live s m = Some (s', l) \<Longrightarrow> set (stored l) \<subseteq> recorded s' - recorded s"
begin

lemma lives_keep:
  "run_lives live s ms = Some (s', ls) \<Longrightarrow> inv s \<Longrightarrow> inv s' \<and> recorded s \<subseteq> recorded s'"
proof (induction ms arbitrary: s ls)
  case (Cons m ms)
  then obtain s1 l ls1 where l: "live s m = Some (s1, l)" "run_lives live s1 ms = Some (s', ls1)"
    by (auto split: option.splits)
  show ?case using Cons.IH [OF l(2) live_inv [OF Cons.prems(2) l(1)]] live_keeps [OF Cons.prems(2) l(1)] by blast
qed simp

lemma lives_confirmed:
  "run_lives live s ms = Some (s', ls) \<Longrightarrow> inv s \<Longrightarrow> l \<in> set ls \<Longrightarrow> confirmed l \<subseteq> recorded s'"
proof (induction ms arbitrary: s ls)
  case (Cons m ms)
  then obtain s1 l1 ls1 where l1: "live s m = Some (s1, l1)" "run_lives live s1 ms = Some (s', ls1)" "ls = l1 # ls1"
    by (auto split: option.splits)
  note inv1 = live_inv [OF Cons.prems(2) l1(1)]
  show ?case
    using Cons.IH [OF l1(2) inv1] live_confirmed [OF Cons.prems(2) l1(1)] lives_keep [OF l1(2) inv1] Cons.prems(3) l1(3)
    by auto
qed simp

lemma lives_stored:
  "run_lives live s ms = Some (s', ls) \<Longrightarrow> inv s \<Longrightarrow>
   distinct (concat (map stored ls)) \<and> set (concat (map stored ls)) \<subseteq> recorded s' - recorded s"
proof (induction ms arbitrary: s ls)
  case (Cons m ms)
  then obtain s1 l1 ls1 where l1: "live s m = Some (s1, l1)" "run_lives live s1 ms = Some (s', ls1)" "ls = l1 # ls1"
    by (auto split: option.splits)
  note inv1 = live_inv [OF Cons.prems(2) l1(1)]
  have "distinct (stored l1)" "set (stored l1) \<subseteq> recorded s1 - recorded s" "recorded s \<subseteq> recorded s1"
    using live_distinct [OF Cons.prems(2) l1(1)] live_stored [OF Cons.prems(2) l1(1)] live_keeps [OF Cons.prems(2) l1(1)]
    by blast+
  then show ?case using Cons.IH [OF l1(2) inv1] lives_keep [OF l1(2) inv1] unfolding l1(3) by auto
qed simp

text \<open>What all lives report as stored is no more than what has been added.\<close>

lemma lives_count:
  assumes "run_lives live s ms = Some (s', ls)" "inv s" "finite (recorded s')"
  shows "card (recorded s) + length (concat (map stored ls)) \<le> card (recorded s')"
proof -
  let ?K = "set (concat (map stored ls))"
  have K: "distinct (concat (map stored ls))" "?K \<subseteq> recorded s' - recorded s" using lives_stored [OF assms(1,2)] by blast+
  have sub: "recorded s \<subseteq> recorded s'" using lives_keep [OF assms(1,2)] by blast
  have "card (recorded s) + card ?K = card (recorded s \<union> ?K)"
    using K(2) finite_subset [OF sub assms(3)] by (subst card_Un_disjoint) auto
  also have "\<dots> \<le> card (recorded s')" using K(2) sub by (intro card_mono assms(3)) auto
  finally show ?thesis using distinct_card [OF K(1)] by simp
qed

end

text \<open>A writer is durable, one call at a time.\<close>

definition call_life :: "('s, 'e) record_event \<Rightarrow> 's \<Rightarrow> 'e \<times> Event \<Rightarrow> ('s \<times> Event \<times> Result \<times> store_error option) option" where
  "call_life rec s d = (let (s', w) = rec (fst d) s (snd d) in Some (s', snd d, w))"

definition call_confirms :: "(Event \<Rightarrow> 'k) \<Rightarrow> Event \<times> Result \<times> store_error option \<Rightarrow> 'k set" where
  "call_confirms key l = (if snd (snd l) = None then {key (fst l)} else {})"

definition call_stores :: "(Event \<Rightarrow> 'k) \<Rightarrow> Event \<times> Result \<times> store_error option \<Rightarrow> 'k list" where
  "call_stores key l = (if snd (snd l) = None \<and> rs_Stored (fst (snd l)) then [key (fst l)] else [])"

sublocale writer \<subseteq> calls: durable "call_life rec" inv recorded "call_confirms key" "call_stores key"
proof unfold_locales
  fix s m s' l
  assume s: "inv s" and "call_life rec s m = Some (s', l)"
  then have l: "s' = fst (rec (fst m) s (snd m))" "l = (snd m, snd (rec (fst m) s (snd m)))"
    by (auto simp: call_life_def split: prod.splits)
  show "inv s'" unfolding l by (rule writer_inv [OF s])
  show "recorded s \<subseteq> recorded s'" unfolding l using writer_frame [OF s] by blast
  show "call_confirms key l \<subseteq> recorded s'" using writer_acknowledged [OF s] by (auto simp: l call_confirms_def)
  show "distinct (call_stores key l)" by (simp add: call_stores_def)
  show "set (call_stores key l) \<subseteq> recorded s' - recorded s"
    using writer_acknowledged [OF s, of "fst m" "snd m"] writer_stored [OF s, of "fst m" "snd m"]
    by (auto simp: l call_stores_def)
qed

section \<open>One life of the receiver\<close>

lemma distinct_map_filterI:
  assumes "\<And>i k. i < length xs \<Longrightarrow> k < length xs \<Longrightarrow> P (xs ! i) \<Longrightarrow> P (xs ! k) \<Longrightarrow> f (xs ! i) = f (xs ! k) \<Longrightarrow> i = k"
  shows "distinct (map f (filter P xs))"
  using assms
proof (induction xs)
  case (Cons x xs)
  have "distinct (map f (filter P xs))"
    by (rule Cons.IH) (use Cons.prems [of "Suc _" "Suc _"] in auto)
  moreover have "f x \<notin> f ` set (filter P xs)" if "P x"
    using that Cons.prems [of 0 "Suc _"] by (auto simp: in_set_conv_nth)
  ultimately show ?case by simp
qed simp

text \<open>The keys of a run grow, and a transaction that owns its event has one that was not there at the start.\<close>

lemma stored_return:
  assumes "conc_inv ts S" "conc_step ts m S = Some S'" "x' \<in> set (cs_txs S')" "tx_pc x' = Returned res None" "rs_Stored res"
  shows "\<exists>x \<in> set (cs_txs S). owns x \<and> tx_ev x = tx_ev x'"
proof -
  have old: ?thesis if "x' \<in> set (cs_txs S)" using that assms(4,5) by (auto simp: owns_def)
  show ?thesis
  proof (cases m)
    case (Advance t)
    let ?x = "cs_txs S ! t"
    obtain db y where t: "t < length (cs_txs S)" "advance ts (others t (cs_txs S)) (cs_db S) ?x = Some (db, y)"
        and S': "cs_txs S' = (cs_txs S)[t := y]"
      using assms(2) Advance by (auto split: if_splits option.splits)
    consider "x' \<in> set (cs_txs S)" | "x' = y" using assms(3) set_update_cases unfolding S' by metis
    then show ?thesis
    proof cases
      case 2
      have "tx_pc ?x = AtCommit"
        using advance_silent [OF t(2)] assms(4,5) 2 by (auto simp: tx_counts_def counts_of_def)
      moreover have "tx_ok ts (cs_db S) ?x" using assms(1) t(1) by (auto simp: conc_inv_defs)
      ultimately have "owns ?x" "tx_ev ?x = tx_ev x'"
        using t(2) 2 assms(4,5) by (auto simp: advance_def owns_def tx_ok_def pc_ok_def return_tx_def)
      then show ?thesis using t(1) by auto
    qed (rule old)
  qed (use assms(2-5) old in \<open>auto simp: begin_tx_def Let_def return_tx_def split: if_splits dest!: set_update_cases\<close>)
qed

lemma conc_step_keys:
  assumes "conc_inv ts S" "conc_step ts m S = Some S'"
  shows "recorded_keys (cs_db S) \<subseteq> recorded_keys (cs_db S')"
proof -
  have "recorded_keys (cs_db S) \<subseteq> recorded_keys (apply_tx ts (cs_txs S ! t) (cs_db S))" if "t < length (cs_txs S)" for t
    using assms(1) that recorded_apply [of ts "cs_db S" "cs_txs S ! t"] by (auto simp: conc_inv_defs)
  then show ?thesis
    using assms(2) by (cases m) (auto simp: advance_def Let_def recorded_keys_def split: if_splits option.splits pc.splits)
qed

lemma run_schedule_owners:
  assumes "run_schedule ts ms S = Some S'" "conc_inv ts S" "old \<subseteq> recorded_keys (cs_db S)"
    and "\<forall>x \<in> set (cs_txs S). owns x \<longrightarrow> event_identity ts (tx_ev x) \<notin> old"
  shows "old \<subseteq> recorded_keys (cs_db S') \<and> (\<forall>x \<in> set (cs_txs S'). owns x \<longrightarrow> event_identity ts (tx_ev x) \<notin> old)"
  using assms
proof (induction ms arbitrary: S)
  case (Cons m ms)
  then obtain S1 where S1: "conc_step ts m S = Some S1" "run_schedule ts ms S1 = Some S'" by (auto split: option.splits)
  have inv1: "conc_inv ts S1" by (rule conc_step_inv [OF Cons.prems(2) S1(1)])
  have keys: "old \<subseteq> recorded_keys (cs_db S1)" using conc_step_keys [OF Cons.prems(2) S1(1)] Cons.prems(3) by blast
  have "event_identity ts (tx_ev x) \<notin> old" if x: "x \<in> set (cs_txs S1)" "owns x" for x
  proof (cases "tx_row x")
    case (Some r)
    then have "event_identity ts (tx_ev x) \<notin> recorded_keys (cs_db S1)"
      using inv1 x(1) by (auto simp: conc_inv_defs tx_ok_def row_ok_def)
    then show ?thesis using keys by blast
  next
    case None
    then obtain res where "tx_pc x = Returned res None" "rs_Stored res" using x(2) by (auto simp: owns_def)
    from stored_return [OF Cons.prems(2) S1(1) x(1) this] show ?thesis using Cons.prems(4) by metis
  qed
  then show ?case using Cons.IH [OF S1(2) inv1 keys] by blast
qed simp


definition receiver_life ::
    "'u deps \<Rightarrow> jwt_parse \<Rightarrow> (Time \<Rightarrow> int) \<Rightarrow> LiveKitHandler \<Rightarrow> database \<Rightarrow> receiver_move list \<Rightarrow> (database \<times> receiver) option" where
  "receiver_life d parse ts h db ms =
     map_option (\<lambda>R. (cs_db (rv_store R), R)) (run_receiver d parse ts h ms (idle_receiver db))"

text \<open>A request answered 200 that has counted neither a missing partition nor a refused close, and one that has
  counted its event as stored.\<close>

definition acknowledged :: "Ingest \<Rightarrow> handler \<Rightarrow> bool" where
  "acknowledged m x \<longleftrightarrow> response (hn_effects x) = [200] \<and>
     counter (in_partitionMissed m) (measured (hn_effects x)) = 0 \<and>
     counter (in_closeOutOfOrder m) (measured (hn_effects x)) = 0"

definition counted_stored :: "Ingest \<Rightarrow> handler \<Rightarrow> bool" where
  "counted_stored m x \<longleftrightarrow> counter (in_stored m) (measured (hn_effects x)) = 1"

definition life_confirms ::
    "'u deps \<Rightarrow> jwt_parse \<Rightarrow> (Time \<Rightarrow> int) \<Rightarrow> LiveKitHandler \<Rightarrow> receiver \<Rightarrow> (int \<times> string) set" where
  "life_confirms d parse ts h R =
     {event_identity ts ev |x ev disp. x \<in> set (rv_handlers R) \<and> acknowledged (h_metrics h) x \<and>
        http_fate d parse h (hn_req x) = Handled ev disp}"

definition body_event :: "'u deps \<Rightarrow> handler \<Rightarrow> Event" where
  "body_event d x = fst (Translate d (rq_body (hn_req x)) 0)"

definition life_stores :: "'u deps \<Rightarrow> (Time \<Rightarrow> int) \<Rightarrow> LiveKitHandler \<Rightarrow> receiver \<Rightarrow> (int \<times> string) list" where
  "life_stores d ts h R =
     map (\<lambda>x. event_identity ts (body_event d x)) (filter (counted_stored (h_metrics h)) (rv_handlers R))"

text \<open>A request without its answer has measured nothing but that its type is unknown.\<close>

lemma before_store_effects:
  assumes "distinct (instrument_names m)"
  shows "response (before_store m ev disp) = []" "counter (in_stored m) (measured (before_store m ev disp)) = 0"
    "counter (in_partitionMissed m) (measured (before_store m ev disp)) = 0"
    "counter (in_closeOutOfOrder m) (measured (before_store m ev disp)) = 0"
proof -
  have "in_unrecognised m \<noteq> in_stored m" "in_unrecognised m \<noteq> in_partitionMissed m" "in_unrecognised m \<noteq> in_closeOutOfOrder m"
    using assms by (auto simp: instrument_names_def)
  then show "response (before_store m ev disp) = []" "counter (in_stored m) (measured (before_store m ev disp)) = 0"
    "counter (in_partitionMissed m) (measured (before_store m ev disp)) = 0"
    "counter (in_closeOutOfOrder m) (measured (before_store m ev disp)) = 0"
    by (simp_all add: before_store_def metric_ops)
qed

lemma unanswered_effects:
  assumes "distinct (instrument_names (h_metrics h))" "handler_ok d parse h txs x" "\<not> answered x"
  shows "response (hn_effects x) = []" "counter (in_stored (h_metrics h)) (measured (hn_effects x)) = 0"
  using assms(2,3) before_store_effects [OF assms(1)]
  by (auto simp: handler_ok_def answered_def split: handler_pc.splits)

lemma stored_0_1:
  assumes "distinct (instrument_names (h_metrics h))" "handler_ok d parse h txs x"
  shows "counter (in_stored (h_metrics h)) (measured (hn_effects x)) = (if counted_stored (h_metrics h) x then 1 else 0)"
proof (cases "answered x")
  case True
  have "fst (counters (h_metrics h) (measured (hn_effects x))) \<in> {0, 1}"
    unfolding handler_counters [OF assms True] by (simp add: tx_counts_def counts_of_def split: option.split pc.split)
  then show ?thesis by (auto simp: counters_def counted_stored_def)
qed (use unanswered_effects [OF assms] in \<open>simp add: counted_stored_def\<close>)

lemma counted_answered:
  "distinct (instrument_names (h_metrics h)) \<Longrightarrow> handler_ok d parse h txs x \<Longrightarrow> counted_stored (h_metrics h) x \<Longrightarrow> answered x"
  using unanswered_effects(2) [of h d parse txs x] by (auto simp: counted_stored_def)

lemma life_counter:
  assumes "distinct (instrument_names (h_metrics h))" "receiver_inv d parse h R"
  shows "counter (in_stored (h_metrics h)) (measured (all_effects R)) = int (length (life_stores d ts h R))"
proof -
  have "counter (in_stored (h_metrics h)) (measured (hn_effects x)) = (if counted_stored (h_metrics h) x then 1 else 0)"
    if "x \<in> set (rv_handlers R)" for x
    by (rule stored_0_1 [OF assms(1)]) (use assms(2) that in \<open>unfold receiver_inv_def, blast\<close>)
  then have eq: "map (\<lambda>x. counter (in_stored (h_metrics h)) (measured (hn_effects x))) (rv_handlers R) =
      map (\<lambda>x. if counted_stored (h_metrics h) x then 1 else 0) (rv_handlers R)" by simp
  have "sum_list (map (\<lambda>x. if P x then 1 else 0) xs) = int (length (filter P xs))" for P and xs :: "handler list"
    by (induction xs) auto
  then show ?thesis
    unfolding all_effects_def measured_concat counter_concat map_map comp_def eq by (simp add: life_stores_def)
qed

text \<open>What acknowledges a request is a call without an error.\<close>

lemma served_acknowledged:
  assumes "distinct (instrument_names (h_metrics h))" "http_fate d parse h (hn_req x) = Handled ev disp"
    and "hn_effects x = served d parse h x w" "acknowledged (h_metrics h) x"
  shows "snd w = None"
proof (rule ccontr)
  assume "snd w \<noteq> None"
  then obtain err where err: "snd w = Some err" by blast
  have s: "hn_effects x = before_store (h_metrics h) ev disp @
      after_record (h_metrics h) BackendLiveKit (hn_elapsed x) ev (fst w) (Some err)"
    using served_handled [OF assms(2)] assms(3) err by simp
  have "in_requests (h_metrics h) \<noteq> in_partitionMissed (h_metrics h)" "in_requests (h_metrics h) \<noteq> in_closeOutOfOrder (h_metrics h)"
    using assms(1) by (auto simp: instrument_names_def)
  then show False
    using assms(4) before_store_effects [OF assms(1)]
    by (cases err) (simp_all add: acknowledged_def s after_record_def metric_ops)
qed

lemma acknowledged_tx:
  assumes "distinct (instrument_names (h_metrics h))" "handler_ok d parse h txs x" "acknowledged (h_metrics h) x"
    and "http_fate d parse h (hn_req x) = Handled ev disp"
  obtains t res where "t < length txs" "tx_pc (txs ! t) = Returned res None" "tx_ev (txs ! t) = ev"
proof -
  have "answered x" using unanswered_effects(1) [OF assms(1,2)] assms(3) by (auto simp: acknowledged_def)
  then obtain ot where pc: "hn_pc x = Answered ot" by (auto simp: answered_def)
  note err = served_acknowledged [OF assms(1,4) _ assms(3)]
  show thesis
  proof (cases ot)
    case None
    then obtain w e where "hn_effects x = served d parse h x w" "snd w = Some (OtherError e)"
      using assms(2,4) pc by (auto simp: handler_ok_def)
    then show thesis using err by simp
  next
    case (Some t)
    then obtain res er where t: "t < length txs" "tx_pc (txs ! t) = Returned res er" "tx_ev (txs ! t) = ev"
        "hn_effects x = served d parse h x (res, er)"
      using assms(2,4) pc by (auto simp: handler_ok_def)
    show thesis using that [OF t(1) _ t(3)] t(2) err [OF t(4)] by simp
  qed
qed

lemma life_recorded:
  assumes "distinct (instrument_names (h_metrics h))" "conc_inv ts (rv_store R)" "receiver_inv d parse h R"
  shows "life_confirms d parse ts h R \<subseteq> recorded_keys (cs_db (rv_store R))"
proof -
  have "event_identity ts ev \<in> recorded_keys (cs_db (rv_store R))"
    if x: "x \<in> set (rv_handlers R)" "acknowledged (h_metrics h) x" "http_fate d parse h (hn_req x) = Handled ev disp" for x ev disp
  proof -
    have ok: "handler_ok d parse h (cs_txs (rv_store R)) x" using assms(3) x(1) by (simp add: receiver_inv_def)
    obtain t res where t: "t < length (cs_txs (rv_store R))" "tx_pc (cs_txs (rv_store R) ! t) = Returned res None"
        "tx_ev (cs_txs (rv_store R) ! t) = ev" by (rule acknowledged_tx [OF assms(1) ok x(2,3)])
    have "tx_ok ts (cs_db (rv_store R)) (cs_txs (rv_store R) ! t)" using assms(2) t(1) by (auto simp: conc_inv_defs)
    then show ?thesis using t(2,3) by (auto simp: tx_ok_def pc_ok_def)
  qed
  then show ?thesis by (auto simp: life_confirms_def)
qed

lemma life_stores_new:
  assumes "distinct (instrument_names (h_metrics h))" "db_inv db" "run_receiver d parse ts h ms (idle_receiver db) = Some R"
  shows "distinct (life_stores d ts h R)"
    "set (life_stores d ts h R) \<subseteq> recorded_keys (cs_db (rv_store R)) - recorded_keys db"
proof -
  let ?txs = "cs_txs (rv_store R)" and ?hs = "rv_handlers R"
  have rinv: "receiver_inv d parse h R" by (rule reachable_receiver_inv [OF assms(3)])
  have run: "run_schedule ts (store_schedule d parse ts h ms (idle_receiver db)) (fresh_state db) = Some (rv_store R)"
    using run_receiver_store [OF assms(3)] by (simp add: idle_receiver_def)
  have cinv0: "conc_inv ts (fresh_state db)" using assms(2) by (simp add: conc_inv_defs fresh_state_def)
  have cinv: "conc_inv ts (rv_store R)" by (rule run_schedule_inv [OF run cinv0])
  have new: "\<forall>x \<in> set ?txs. owns x \<longrightarrow> event_identity ts (tx_ev x) \<notin> recorded_keys db"
    using run_schedule_owners [OF run cinv0, of "recorded_keys db"] by (simp add: fresh_state_def)
  have owner: "\<exists>t. tx_of x = Some t \<and> t < length ?txs \<and> owns (?txs ! t) \<and> body_event d x = tx_ev (?txs ! t)"
    if x: "x \<in> set ?hs" "counted_stored (h_metrics h) x" for x
  proof -
    have ok: "handler_ok d parse h ?txs x" using rinv x(1) by (simp add: receiver_inv_def)
    show ?thesis
      using stored_owner [OF assms(1) ok counted_answered [OF assms(1) ok x(2)]] x(2)
      by (auto simp: counted_stored_def body_event_def)
  qed
  have dist: "distinct (List.map_filter tx_of ?hs)"
    using rinv mset_eq_imp_distinct_iff unfolding receiver_inv_def by (metis distinct_upt)
  have "i = k" if ik: "i < length ?hs" "k < length ?hs" "counted_stored (h_metrics h) (?hs ! i)" "counted_stored (h_metrics h) (?hs ! k)"
      "event_identity ts (body_event d (?hs ! i)) = event_identity ts (body_event d (?hs ! k))" for i k
  proof -
    obtain t t' where t: "tx_of (?hs ! i) = Some t" "t < length ?txs" "owns (?txs ! t)" "body_event d (?hs ! i) = tx_ev (?txs ! t)"
        "tx_of (?hs ! k) = Some t'" "t' < length ?txs" "owns (?txs ! t')" "body_event d (?hs ! k) = tx_ev (?txs ! t')"
      using owner [OF nth_mem [OF ik(1)] ik(3)] owner [OF nth_mem [OF ik(2)] ik(4)] by blast
    have "compatible ts (?txs ! t) (?txs ! t')" if "t \<noteq> t'" using cinv t(2,6) that by (simp add: conc_inv_defs)
    then have "t = t'" using t(3,4,7,8) ik(5) by (auto simp: compatible_def)
    then show ?thesis using map_filter_owner [OF dist ik(1,2)] t(1,5) by simp
  qed
  then show "distinct (life_stores d ts h R)"
    unfolding life_stores_def by (intro distinct_map_filterI) blast
  have "event_identity ts (body_event d x) \<in> recorded_keys (cs_db (rv_store R)) - recorded_keys db"
    if x: "x \<in> set ?hs" "counted_stored (h_metrics h) x" for x
  proof -
    obtain t where t: "t < length ?txs" "owns (?txs ! t)" "body_event d x = tx_ev (?txs ! t)" "tx_of x = Some t" using owner [OF x] by blast
    have "answered x" using counted_answered [OF assms(1) _ x(2)] rinv x(1) by (auto simp: receiver_inv_def)
    moreover have "handler_ok d parse h ?txs x" using rinv x(1) by (simp add: receiver_inv_def)
    ultimately obtain res err where "tx_pc (?txs ! t) = Returned res err"
      using t(4) by (auto simp: handler_ok_def answered_def tx_of_def)
    moreover have "tx_ok ts (cs_db (rv_store R)) (?txs ! t)" using cinv t(1) by (simp add: conc_inv_defs)
    ultimately have "event_identity ts (tx_ev (?txs ! t)) \<in> recorded_keys (cs_db (rv_store R))"
      using t(2) by (auto simp: tx_ok_def pc_ok_def owns_def)
    then show ?thesis using new t(1-3) by auto
  qed
  then show "set (life_stores d ts h R) \<subseteq> recorded_keys (cs_db (rv_store R)) - recorded_keys db"
    by (auto simp: life_stores_def)
qed


interpretation rl: durable "receiver_life d parse ts h" "\<lambda>db. db_inv db \<and> distinct (instrument_names (h_metrics h))"
    recorded_keys "life_confirms d parse ts h" "life_stores d ts h" for d parse ts h
proof unfold_locales
  fix db ms db' R
  assume db: "db_inv db \<and> distinct (instrument_names (h_metrics h))" and "receiver_life d parse ts h db ms = Some (db', R)"
  then have R: "run_receiver d parse ts h ms (idle_receiver db) = Some R" "db' = cs_db (rv_store R)"
    by (auto simp: receiver_life_def)
  have run: "run_schedule ts (store_schedule d parse ts h ms (idle_receiver db)) (fresh_state db) = Some (rv_store R)"
    using run_receiver_store [OF R(1)] by (simp add: idle_receiver_def)
  have cinv0: "conc_inv ts (fresh_state db)" using db by (simp add: conc_inv_defs fresh_state_def)
  have cinv: "conc_inv ts (rv_store R)" by (rule run_schedule_inv [OF run cinv0])
  then show "db_inv db' \<and> distinct (instrument_names (h_metrics h))" using db by (simp add: conc_inv_def R(2))
  show "recorded_keys db \<subseteq> recorded_keys db'"
    using run_schedule_owners [OF run cinv0, of "recorded_keys db"] by (simp add: fresh_state_def R(2))
  show "life_confirms d parse ts h R \<subseteq> recorded_keys db'"
    unfolding R(2) using life_recorded cinv reachable_receiver_inv [OF R(1)] db by blast
  show "distinct (life_stores d ts h R)" "set (life_stores d ts h R) \<subseteq> recorded_keys db' - recorded_keys db"
    unfolding R(2) using life_stores_new db R(1) by blast+
qed

section \<open>The counters of all lives\<close>

lemma lives_first:
  assumes "run_lives (receiver_life d parse ts h) db (ms # lives) = Some (db', Rs)"
  shows "\<exists>R Rs'. run_receiver d parse ts h ms (idle_receiver db) = Some R \<and>
    run_lives (receiver_life d parse ts h) (cs_db (rv_store R)) lives = Some (db', Rs') \<and> Rs = R # Rs'"
  using assms receiver_life_def [of d parse ts h db ms] by (auto split: option.splits)

lemma lives_receivers:
  "run_lives (receiver_life d parse ts h) db lives = Some (db', Rs) \<Longrightarrow> R \<in> set Rs \<Longrightarrow> receiver_inv d parse h R"
proof (induction lives arbitrary: db Rs)
  case (Cons ms lives)
  from lives_first [OF Cons.prems(1)] obtain R1 Rs1 where R1: "run_receiver d parse ts h ms (idle_receiver db) = Some R1"
      "run_lives (receiver_life d parse ts h) (cs_db (rv_store R1)) lives = Some (db', Rs1)" "Rs = R1 # Rs1" by blast
  show ?case using Cons.IH [OF R1(2)] reachable_receiver_inv [OF R1(1)] Cons.prems(2) R1(3) by auto
qed simp

definition stored_total :: "LiveKitHandler \<Rightarrow> receiver list \<Rightarrow> int" where
  "stored_total h Rs = sum_list (map (\<lambda>R. counter (in_stored (h_metrics h)) (measured (all_effects R))) Rs)"

lemma stored_total_length:
  assumes "distinct (instrument_names (h_metrics h))" "run_lives (receiver_life d parse ts h) db lives = Some (db', Rs)"
  shows "stored_total h Rs = int (length (concat (map (life_stores d ts h) Rs)))"
proof -
  have "map (\<lambda>R. counter (in_stored (h_metrics h)) (measured (all_effects R))) Rs = map (\<lambda>R. int (length (life_stores d ts h R))) Rs"
    using life_counter [OF assms(1) lives_receivers [OF assms(2)]] by simp
  moreover have "sum_list (map (\<lambda>R. int (length (life_stores d ts h R))) Rs) = int (length (concat (map (life_stores d ts h) Rs)))"
    by (induction Rs) auto
  ultimately show ?thesis by (simp only: stored_total_def)
qed

lemma card_recorded: "db_inv db \<Longrightarrow> card (recorded_keys db) = length (db_event_raw db)"
  using distinct_card [of "map event_key (db_event_raw db)"] by (simp add: db_inv_def recorded_keys_def)

text \<open>A life that ends when all its requests are answered, with no acknowledgement of a commit lost.\<close>

definition orderly :: "receiver_move list \<Rightarrow> receiver \<Rightarrow> bool" where
  "orderly ms R \<longleftrightarrow> (\<forall>x \<in> set (rv_handlers R). answered x) \<and> (\<forall>t err. StoreStep (LoseAck t err) \<notin> set ms)"

lemma orderly_lives:
  assumes "NewIngest create = Inr (h_metrics h)"
  shows "run_lives (receiver_life d parse ts h) db lives = Some (db', Rs) \<Longrightarrow> db_inv db \<Longrightarrow> list_all2 orderly lives Rs \<Longrightarrow>
    int (length (db_event_raw db')) = int (length (db_event_raw db)) + stored_total h Rs"
proof (induction lives arbitrary: db Rs)
  case (Cons ms lives)
  from lives_first [OF Cons.prems(1)] obtain R1 Rs1 where R1: "run_receiver d parse ts h ms (idle_receiver db) = Some R1"
      "run_lives (receiver_life d parse ts h) (cs_db (rv_store R1)) lives = Some (db', Rs1)" "Rs = R1 # Rs1" by blast
  have o: "\<forall>x \<in> set (rv_handlers R1). answered x" "\<forall>t err. StoreStep (LoseAck t err) \<notin> set ms" "list_all2 orderly lives Rs1"
    using Cons.prems(3) orderly_def [of ms R1] unfolding R1(3) by auto
  have "db_inv (cs_db (rv_store R1))"
    using rl.live_inv [of db h d parse ts ms] Cons.prems(2) R1(1) NewIngest_distinct [OF assms]
      receiver_life_def [of d parse ts h db ms] by simp
  from Cons.IH [OF R1(2) this o(3)] receiver_rows_added [OF Cons.prems(2) assms R1(1) o(1,2)]
  show ?case by (simp add: R1(3) stored_total_def Let_def)
qed (simp add: stored_total_def)

section \<open>A crash after the commit\<close>

text \<open>The first process stores the event and dies before it answers; the sender delivers the same body to the second.\<close>

definition crash_life :: "receiver_move list" where
  "crash_life = [Arrive (demo_env ''u1'') 5 (demo_request demo_body ''token''), Proceed 0,
     StoreStep (Advance 0), StoreStep (Advance 0), StoreStep (Advance 0)]"

definition redeliver_life :: "receiver_move list" where
  "redeliver_life = [Arrive (demo_env ''u2'') 7 (demo_request demo_body ''token''), Proceed 0,
     StoreStep (Advance 0), StoreStep (Advance 0), Respond 0]"

abbreviation demo_lives :: "receiver_move list list \<Rightarrow> (database \<times> receiver list) option" where
  "demo_lives \<equiv> run_lives (receiver_life demo_deps (demo_parse demo_body) demo_ts demo_receiver) demo_empty"

lemma crash_then_redeliver:
  "\<exists>db' R1 R2. demo_lives [crash_life, redeliver_life] = Some (db', [R1, R2]) \<and>
     length (db_event_raw db') = 1 \<and> map answered (rv_handlers R1) = [False] \<and>
     map (acknowledged demo_ingest) (rv_handlers R2) = [True] \<and> map hn_req (rv_handlers R2) = [demo_request demo_body ''token'']"
proof -
  have "in_duplicates demo_ingest \<noteq> in_partitionMissed demo_ingest" "in_requests demo_ingest \<noteq> in_partitionMissed demo_ingest"
    "in_duplicates demo_ingest \<noteq> in_closeOutOfOrder demo_ingest" "in_requests demo_ingest \<noteq> in_closeOutOfOrder demo_ingest"
    using NewIngest_distinct [OF demo_NewIngest] by (auto simp: instrument_names_def)
  then have ack: "response (after_record (h_metrics demo_receiver) b el ev zeroResult None) = [200]"
    "counter (in_partitionMissed demo_ingest) (measured (after_record (h_metrics demo_receiver) b el ev zeroResult None)) = 0"
    "counter (in_closeOutOfOrder demo_ingest) (measured (after_record (h_metrics demo_receiver) b el ev zeroResult None)) = 0" for b el ev
    by (simp_all add: demo_metrics after_record_def metric_ops)
  show ?thesis
    using demo_covered
    by (simp add: crash_life_def redeliver_life_def receiver_life_def demo_run_simps answered_def acknowledged_def ack before_store_def)
qed

section \<open>Properties\<close>

text \<open>C8. Promises survive crashes. Let the ingester be started any number of times on one database, each time handle
  any requests in any interleaving, with statement faults and lost acknowledgements, and be stopped at any
  point, which leaves the committed tables and nothing else. At the end the tables satisfy the invariant,
  hold every event they held, and hold the event of every delivery that any of the processes answered 200
  without counting a missing partition or a refused close.\<close>

theorem restarts_keep_promises:
  assumes "db_inv db" "NewIngest create = Inr (h_metrics h)"
    and "run_lives (receiver_life d parse ts h) db lives = Some (db', Rs)"
  shows "db_inv db' \<and> recorded_keys db \<subseteq> recorded_keys db' \<and>
    (\<forall>R \<in> set Rs. \<forall>x \<in> set (rv_handlers R). \<forall>ev disp. acknowledged (h_metrics h) x \<longrightarrow>
       http_fate d parse h (hn_req x) = Handled ev disp \<longrightarrow> event_identity ts ev \<in> recorded_keys db')"
proof (intro conjI ballI allI impI)
  have inv: "db_inv db \<and> distinct (instrument_names (h_metrics h))" using assms(1) NewIngest_distinct [OF assms(2)] by blast
  show "db_inv db'" "recorded_keys db \<subseteq> recorded_keys db'" using rl.lives_keep [OF assms(3) inv] by blast+
  show "event_identity ts ev \<in> recorded_keys db'"
    if "R \<in> set Rs" "x \<in> set (rv_handlers R)" "acknowledged (h_metrics h) x" "http_fate d parse h (hn_req x) = Handled ev disp" for R x ev disp
    using rl.lives_confirmed [OF assms(3) inv that(1)] that(2-4) by (auto simp: life_confirms_def)
qed

theorem restarts_keep_promises_witness:
  "\<exists>db' Rs. demo_lives [crash_life, redeliver_life] = Some (db', Rs) \<and> length Rs = 2 \<and>
     event_identity demo_ts demo_joined \<in> recorded_keys db'"
proof -
  obtain db' R1 R2 where R: "demo_lives [crash_life, redeliver_life] = Some (db', [R1, R2])"
      "map (acknowledged demo_ingest) (rv_handlers R2) = [True]" "map hn_req (rv_handlers R2) = [demo_request demo_body ''token'']"
    using crash_then_redeliver by (elim exE conjE) (rule that)
  have m: "NewIngest (\<lambda>n u. None :: nat option) = Inr (h_metrics demo_receiver)" by (simp add: demo_metrics demo_NewIngest)
  obtain x where x: "rv_handlers R2 = [x]" "acknowledged (h_metrics demo_receiver) x" "hn_req x = demo_request demo_body ''token''"
    using R(2,3) by (auto simp: demo_metrics map_eq_Cons_conv)
  have "event_identity demo_ts demo_joined \<in> recorded_keys db'"
    using restarts_keep_promises [OF demo_empty_inv m R(1), THEN conjunct2, THEN conjunct2] x demo_fate by auto
  then show ?thesis by (intro exI [of _ db'] exI [of _ "[R1, R2]"] conjI R(1)) simp_all
qed

text \<open>C9. No restart counts an event twice. Over any number of such lives, the requests counted in
  \<open>sap_ingest_events_stored_total\<close> by all the processes together carry pairwise different events, none of which was
  recorded at the start, and the counters of all lives add up to at most the number of rows added to
  \<open>event_raw\<close>; they add up to exactly that number when every process has answered all its requests before it
  ends and no acknowledgement of a commit is lost.\<close>

theorem restarts_count_once:
  assumes "db_inv db" "NewIngest create = Inr (h_metrics h)"
    and "run_lives (receiver_life d parse ts h) db lives = Some (db', Rs)"
  shows "let counted = filter (counted_stored (h_metrics h)) (concat (map rv_handlers Rs));
             events = map (\<lambda>x. event_identity ts (body_event d x)) counted in
    distinct events \<and> set events \<subseteq> recorded_keys db' - recorded_keys db \<and>
    int (length (db_event_raw db)) + stored_total h Rs \<le> int (length (db_event_raw db')) \<and>
    (list_all2 orderly lives Rs \<longrightarrow> int (length (db_event_raw db)) + stored_total h Rs = int (length (db_event_raw db')))"
proof -
  have inv: "db_inv db \<and> distinct (instrument_names (h_metrics h))" using assms(1) NewIngest_distinct [OF assms(2)] by blast
  have inv': "db_inv db'" using rl.lives_keep [OF assms(3) inv] by blast
  have events: "map (\<lambda>x. event_identity ts (body_event d x)) (filter (counted_stored (h_metrics h)) (concat (map rv_handlers Rs))) =
      concat (map (life_stores d ts h) Rs)"
    by (induction Rs) (simp_all add: life_stores_def)
  have "finite (recorded_keys db')" by (simp add: recorded_keys_def)
  from rl.lives_count [OF assms(3) inv this] have "int (length (db_event_raw db)) + stored_total h Rs \<le> int (length (db_event_raw db'))"
    unfolding stored_total_length [OF conjunct2 [OF inv] assms(3)] card_recorded [OF assms(1)] card_recorded [OF inv'] by linarith
  then show ?thesis
    unfolding Let_def events using rl.lives_stored [OF assms(3) inv] orderly_lives [OF assms(2,3,1)] by auto
qed


theorem restarts_count_once_witness:
  "\<exists>db' Rs. demo_lives [crash_life, redeliver_life] = Some (db', Rs) \<and> length (db_event_raw db') = 1 \<and>
     stored_total demo_receiver Rs \<le> 1"
proof -
  obtain db' R1 R2 where R: "demo_lives [crash_life, redeliver_life] = Some (db', [R1, R2])" "length (db_event_raw db') = 1"
    using crash_then_redeliver by (elim exE conjE) (rule that)
  have m: "NewIngest (\<lambda>n u. None :: nat option) = Inr (h_metrics demo_receiver)" by (simp add: demo_metrics demo_NewIngest)
  have "stored_total demo_receiver [R1, R2] \<le> 1"
    using restarts_count_once [OF demo_empty_inv m R(1)] R(2) by (simp add: Let_def demo_empty_def)
  then show ?thesis by (intro exI [of _ db'] exI [of _ "[R1, R2]"] conjI R)
qed

end
