(* ===== verification/Receiver_Serial.thy ===== *)
theory Receiver_Serial
  imports Restarts Serial_Order
begin

text \<open>
  Concurrent requests against requests handled one after the other: the order of calls of \<open>Serial_Order\<close> is an
  order of requests, since every transaction belongs to a request whose body names its event.
\<close>

section \<open>Requests for calls\<close>

text \<open>A request whose delivery is the event of a call does what the call does.\<close>

lemma handle_calls:
  assumes "distinct (instrument_names (h_metrics h))" "\<forall>c \<in> set ds. \<exists>disp. http_fate d parse h (f c) = Handled (snd c) disp"
    and "deliver_all (RecordEvent ts) db ds = (db', ws)" "\<forall>w \<in> set ws. snd w = None"
  shows "\<exists>es. handle_all d parse ts h db (map (\<lambda>c. (fst c, 0, f c)) ds) = (db', es) \<and> response es = replicate (length ds) 200"
  using assms(2-4)
proof (induction ds arbitrary: db ws)
  case (Cons c ds)
  obtain e ev where c: "c = (e, ev)" by (cases c)
  obtain db1 res err where eq: "RecordEvent ts e db ev = (db1, res, err)" by (metis prod_cases3)
  obtain ws1 where rest: "deliver_all (RecordEvent ts) db1 ds = (db', ws1)" "ws = (res, err) # ws1"
    using Cons.prems(2) eq by (auto simp: c split: prod.splits)
  obtain disp where f: "http_fate d parse h (f c) = Handled ev disp" using Cons.prems(1) c by auto
  obtain db2 es1 where one: "ServeHTTP d parse (RecordEvent ts) h e 0 db (f c) = (db2, es1)"
    by (cases "ServeHTTP d parse (RecordEvent ts) h e 0 db (f c)")
  have db2: "db2 = db1" using ServeHTTP_state [of d parse "RecordEvent ts" h e 0 db "f c"] one f eq by simp
  have es1: "response es1 = [200]"
    using handled_status [OF assms(1) f, of ts e 0 db] one eq Cons.prems(3) rest(2) by simp
  obtain es where "handle_all d parse ts h db1 (map (\<lambda>c. (fst c, 0, f c)) ds) = (db', es)" "response es = replicate (length ds) 200"
    using Cons.IH [OF _ rest(1)] Cons.prems(1,3) rest(2) by auto
  then show ?case using one es1 by (simp add: c db2)
qed simp

text \<open>Every transaction of a reachable state belongs to a request.\<close>

lemma tx_request:
  assumes "receiver_inv d parse h R" "x \<in> set (cs_txs (rv_store R))"
  shows "\<exists>y \<in> set (rv_handlers R). \<exists>disp. http_fate d parse h (hn_req y) = Handled (tx_ev x) disp"
proof -
  obtain t where t: "t < length (cs_txs (rv_store R))" "x = cs_txs (rv_store R) ! t" using assms(2) by (auto simp: in_set_conv_nth)
  have "set (List.map_filter tx_of (rv_handlers R)) = {0 ..< length (cs_txs (rv_store R))}"
    using assms(1) arg_cong [where f = set_mset] unfolding receiver_inv_def by (metis set_mset_mset set_upt)
  then obtain y where y: "y \<in> set (rv_handlers R)" "tx_of y = Some t"
    using t(1) by (force simp: List.map_filter_def)
  then have "handler_ok d parse h (cs_txs (rv_store R)) y" using assms(1) by (simp add: receiver_inv_def)
  then show ?thesis
    using y t(2) by (intro bexI [OF _ y(1)]) (auto simp: handler_ok_def tx_of_def split: handler_pc.splits)
qed

text \<open>An order that has every call without an error has the event of every acknowledged request.\<close>

lemma acknowledged_call:
  assumes "distinct (instrument_names (h_metrics h))" "receiver_inv d parse h R" "x \<in> set (rv_handlers R)"
    and "acknowledged (h_metrics h) x" "http_fate d parse h (hn_req x) = Handled ev disp"
    and "\<forall>x \<in> set (cs_txs (rv_store R)). \<forall>res. tx_pc x = Returned res None \<longrightarrow>
      ((calm (tx_env x), tx_ev x), (res, None)) \<in> set (zip ds ws)"
  shows "\<exists>e. (e, ev) \<in> set ds"
proof -
  have ok: "handler_ok d parse h (cs_txs (rv_store R)) x" using assms(2,3) by (simp add: receiver_inv_def)
  obtain t res where "t < length (cs_txs (rv_store R))" "tx_pc (cs_txs (rv_store R) ! t) = Returned res None"
      "tx_ev (cs_txs (rv_store R) ! t) = ev" by (rule acknowledged_tx [OF assms(1) ok assms(4,5)])
  then show ?thesis using assms(6) nth_mem set_zip_leftD by metis
qed

section \<open>Properties\<close>

text \<open>C4. Concurrent requests are serializable, end to end. Let the receiver
  handle any requests in any interleaving in which no close falls back to the identity. Then there is a
  sequence of these requests that the sequential receiver handles one after the other, in environments
  without faults, answering 200 to each, that leaves the same rows in both tables, and that delivers the event of
  every request the concurrent receiver has acknowledged (answered 200 without counting a missing partition or a refused
  close).\<close>

theorem concurrent_requests_serialize:
  assumes "db_inv db" "NewIngest create = Inr (h_metrics h)"
    and "run_receiver d parse ts h ms (idle_receiver db) = Some R"
    and "no_fallback ts (store_schedule d parse ts h ms (idle_receiver db)) (fresh_state db)"
  shows "\<exists>qs db' es. handle_all d parse ts h (db\<lparr>db_partitions := db_partitions (cs_db (rv_store R))\<rparr>) qs = (db', es) \<and>
    mset (db_event_raw db') = mset (db_event_raw (cs_db (rv_store R))) \<and>
    mset (db_participant_join db') = mset (db_participant_join (cs_db (rv_store R))) \<and>
    response es = replicate (length qs) 200 \<and>
    (\<forall>(e, elapsed, r) \<in> set qs. quiet e \<and> r \<in> hn_req ` set (rv_handlers R)) \<and>
    (\<forall>x \<in> set (rv_handlers R). \<forall>ev disp. acknowledged (h_metrics h) x \<longrightarrow> http_fate d parse h (hn_req x) = Handled ev disp \<longrightarrow>
       (\<exists>(e, elapsed, r) \<in> set qs. \<exists>disp'. http_fate d parse h r = Handled ev disp'))"
proof -
  let ?db0 = "db\<lparr>db_partitions := db_partitions (cs_db (rv_store R))\<rparr>"
  have rinv: "receiver_inv d parse h R" by (rule reachable_receiver_inv [OF assms(3)])
  have run: "run_schedule ts (store_schedule d parse ts h ms (idle_receiver db)) (fresh_state db) = Some (rv_store R)"
    using run_receiver_store [OF assms(3)] by (simp add: idle_receiver_def)
  from schedule_serializes [OF assms(1) run assms(4)] obtain ds db' ws where
    ds: "deliver_all (RecordEvent ts) ?db0 ds = (db', ws)" "\<forall>w \<in> set ws. snd w = None"
      and rows: "mset (db_event_raw db') = mset (db_event_raw (cs_db (rv_store R)))"
        "mset (db_participant_join db') = mset (db_participant_join (cs_db (rv_store R)))"
      and calls: "\<forall>c \<in> set ds. quiet (fst c) \<and> (\<exists>x \<in> set (cs_txs (rv_store R)). c = (calm (tx_env x), tx_ev x))"
      and every: "\<forall>x \<in> set (cs_txs (rv_store R)). \<forall>res. tx_pc x = Returned res None \<longrightarrow>
        ((calm (tx_env x), tx_ev x), (res, None)) \<in> set (zip ds ws)"
    by blast
  have "\<forall>c \<in> set ds. \<exists>r. r \<in> hn_req ` set (rv_handlers R) \<and> (\<exists>disp. http_fate d parse h r = Handled (snd c) disp)"
  proof
    fix c
    assume "c \<in> set ds"
    then obtain x where "x \<in> set (cs_txs (rv_store R))" "snd c = tx_ev x" using calls by fastforce
    then show "\<exists>r. r \<in> hn_req ` set (rv_handlers R) \<and> (\<exists>disp. http_fate d parse h r = Handled (snd c) disp)"
      using tx_request [OF rinv] by fastforce
  qed
  from bchoice [OF this] obtain f where f: "\<forall>c \<in> set ds. f c \<in> hn_req ` set (rv_handlers R)"
      "\<forall>c \<in> set ds. \<exists>disp. http_fate d parse h (f c) = Handled (snd c) disp" by blast
  from handle_calls [OF NewIngest_distinct [OF assms(2)] f(2) ds] obtain es where
    "handle_all d parse ts h ?db0 (map (\<lambda>c. (fst c, 0, f c)) ds) = (db', es)" "response es = replicate (length ds) 200" by blast
  moreover have "\<exists>(e, elapsed, r) \<in> set (map (\<lambda>c. (fst c, 0, f c)) ds). \<exists>disp'. http_fate d parse h r = Handled ev disp'"
    if "x \<in> set (rv_handlers R)" "acknowledged (h_metrics h) x" "http_fate d parse h (hn_req x) = Handled ev disp" for x ev disp
    using acknowledged_call [OF NewIngest_distinct [OF assms(2)] rinv that every] f(2) by (fastforce simp: image_iff)
  ultimately show ?thesis
    using rows calls f(1) by (intro exI [of _ "map (\<lambda>c. (fst c, 0, f c)) ds"] exI [of _ db'] exI [of _ es]) auto
qed

theorem concurrent_requests_serialize_witness:
  "\<exists>R qs db' es. run_receiver demo_deps (demo_parse demo_body) demo_ts demo_receiver demo_run (idle_receiver demo_empty) = Some R \<and>
     handle_all demo_deps (demo_parse demo_body) demo_ts demo_receiver
       (demo_empty\<lparr>db_partitions := db_partitions (cs_db (rv_store R))\<rparr>) qs = (db', es) \<and>
     mset (db_event_raw db') = mset (db_event_raw (cs_db (rv_store R))) \<and> length (db_event_raw (cs_db (rv_store R))) = 1"
proof -
  obtain R where R: "run_receiver demo_deps (demo_parse demo_body) demo_ts demo_receiver demo_run (idle_receiver demo_empty) = Some R"
      "length (db_event_raw (cs_db (rv_store R))) = 1"
    using demo_run_runs by (elim exE conjE) (rule that)
  have m: "NewIngest (\<lambda>n u. None :: nat option) = Inr (h_metrics demo_receiver)" by (simp add: demo_metrics demo_NewIngest)
  have nf: "no_fallback demo_ts (store_schedule demo_deps (demo_parse demo_body) demo_ts demo_receiver demo_run (idle_receiver demo_empty))
      (fresh_state demo_empty)"
    using demo_covered
    by (simp add: demo_run_simps store_moves_def)
  from concurrent_requests_serialize [OF demo_empty_inv m R(1) nf] R show ?thesis by blast
qed

end
