(* ===== verification/Sessions.thy ===== *)
theory Sessions
  imports Postgres_Invariant "HOL-Library.Multiset"
begin

text \<open>
  Sessions, the derived view of the stored joins: the reference query
  (\<^verbatim>\<open>benchmarks/reference_query.sql\<close>, its four stages in order) over the rows of
  \<open>participant_join\<close>, and its agreement with the type \<open>Session\<close> of
  \<^verbatim>\<open>internal/session/session.go\<close>. Times and intervals are in microseconds. \<open>ord\<close> is the order in which
  the server walks a window partition: by \<open>started_at\<close>, ties in any way.
\<close>

section \<open>The reference query\<close>

text \<open>\<open>active_range && tstzrange(lo, hi, '[)')\<close>: \<open>active_range\<close> is \<open>[started_at, ended_at)\<close>, unbounded above
  for an open join; a range whose bounds are equal is empty, and an empty range overlaps nothing.\<close>

definition overlaps :: "int \<Rightarrow> int \<Rightarrow> join_row \<Rightarrow> bool" where
  "overlaps lo hi j \<longleftrightarrow> lo < hi \<and> jr_started_at j < hi \<and>
     (case jr_ended_at j of None \<Rightarrow> True | Some e \<Rightarrow> jr_started_at j < e \<and> lo < e)"

type_synonym join_key = "string \<times> string \<times> string"

definition key_of :: "join_row \<Rightarrow> join_key" where
  "key_of j = (jr_backend j, jr_room_name j, jr_participant_identity j)"

text \<open>\<open>overlapping\<close>: each join of a partition with \<open>started_at - lag(ended_at)\<close>. The first row has no
  predecessor, and the difference with a NULL is NULL.\<close>

fun with_gap :: "int option \<Rightarrow> join_row list \<Rightarrow> (join_row \<times> int option) list" where
  "with_gap prev [] = []"
| "with_gap prev (j # js) =
     (j, map_option (\<lambda>e. jr_started_at j - e) prev) # with_gap (jr_ended_at j) js"

text \<open>\<open>marked\<close> and \<open>grouped\<close>: whether a join starts a session, and the running sum of the marks.\<close>

definition is_new :: "int \<Rightarrow> int option \<Rightarrow> int" where
  "is_new gap_limit gap = (case gap of None \<Rightarrow> 1 | Some g \<Rightarrow> if g > gap_limit then 1 else 0)"

definition marked :: "int \<Rightarrow> (join_row \<times> int option) list \<Rightarrow> (join_row \<times> int) list" where
  "marked gap_limit rows = map (\<lambda>(j, gap). (j, is_new gap_limit gap)) rows"

fun ordinals :: "int \<Rightarrow> (join_row \<times> int) list \<Rightarrow> (join_row \<times> int) list" where
  "ordinals n [] = []"
| "ordinals n ((j, new) # rows) = (j, n + new) # ordinals (n + new) rows"

definition partition_rows ::
    "(join_row list \<Rightarrow> join_row list) \<Rightarrow> int \<Rightarrow> join_row list \<Rightarrow> join_key \<Rightarrow> (join_row \<times> int) list" where
  "partition_rows ord gap_limit js k =
     ordinals 0 (marked gap_limit (with_gap None (ord (filter (\<lambda>j. key_of j = k) js))))"

definition grouped ::
    "(join_row list \<Rightarrow> join_row list) \<Rightarrow> int \<Rightarrow> join_row list \<Rightarrow> (join_row \<times> int) list" where
  "grouped ord gap_limit js = concat (map (partition_rows ord gap_limit js) (remdups (map key_of js)))"

record session_row =
  sr_key :: join_key
  sr_ordinal :: int
  sr_started_at :: int
  sr_still_open :: bool
  sr_joins :: int
  sr_reconnects :: int

definition session_row_of :: "(join_row \<times> int) list \<Rightarrow> join_key \<times> int \<Rightarrow> session_row" where
  "session_row_of rows kn =
     (let g = map fst (filter (\<lambda>(j, m). (key_of j, m) = kn) rows) in
      \<lparr>sr_key = fst kn, sr_ordinal = snd kn, sr_started_at = Min (set (map jr_started_at g)),
       sr_still_open = (\<exists>j \<in> set g. jr_ended_at j = None),
       sr_joins = int (length g), sr_reconnects = int (length g) - 1\<rparr>)"

definition reference_query ::
    "(join_row list \<Rightarrow> join_row list) \<Rightarrow> int \<Rightarrow> int \<Rightarrow> int \<Rightarrow> database \<Rightarrow> session_row list" where
  "reference_query ord lo hi gap_limit db =
     (let rows = grouped ord gap_limit (filter (overlaps lo hi) (db_participant_join db))
      in map (session_row_of rows) (remdups (map (\<lambda>(j, n). (key_of j, n)) rows)))"

definition walks :: "(join_row list \<Rightarrow> join_row list) \<Rightarrow> bool" where
  "walks ord \<longleftrightarrow> (\<forall>js. mset (ord js) = mset js \<and> sorted (map jr_started_at (ord js)))"

section \<open>Sessions as groups of joins\<close>

text \<open>The specification: the joins of one participant in one room, in the order of their start, cut
  where the gap is unknown or too long.\<close>

definition cut :: "int \<Rightarrow> join_row \<Rightarrow> join_row \<Rightarrow> bool" where
  "cut gap_limit i j \<longleftrightarrow>
     (case jr_ended_at i of None \<Rightarrow> True | Some e \<Rightarrow> jr_started_at j - e > gap_limit)"

fun split_gaps :: "int \<Rightarrow> join_row list \<Rightarrow> join_row list list" where
  "split_gaps gap_limit [] = []"
| "split_gaps gap_limit [j] = [[j]]"
| "split_gaps gap_limit (i # j # js) =
     (if cut gap_limit i j then [i] # split_gaps gap_limit (j # js)
      else case split_gaps gap_limit (j # js) of [] \<Rightarrow> [[i]] | g # gs \<Rightarrow> (i # g) # gs)"

definition sessions_of ::
    "(join_row list \<Rightarrow> join_row list) \<Rightarrow> int \<Rightarrow> int \<Rightarrow> int \<Rightarrow> database \<Rightarrow> join_key \<Rightarrow> join_row list list" where
  "sessions_of ord lo hi gap_limit db k =
     split_gaps gap_limit (ord (filter (\<lambda>j. key_of j = k) (filter (overlaps lo hi) (db_participant_join db))))"

text \<open>The row that describes a group, read off its first and last join.\<close>

definition group_row :: "join_key \<Rightarrow> int \<Rightarrow> join_row list \<Rightarrow> session_row" where
  "group_row k n g =
     \<lparr>sr_key = k, sr_ordinal = n, sr_started_at = jr_started_at (hd g), sr_still_open = open_row (last g),
      sr_joins = int (length g), sr_reconnects = int (length g) - 1\<rparr>"

lemma split_gaps_Cons: "split_gaps t (j # js) = g # gs \<Longrightarrow> g \<noteq> [] \<and> hd g = j"
  by (cases js) (auto split: if_splits list.splits)

lemma split_gaps_Nil [simp]: "split_gaps t js = [] \<longleftrightarrow> js = []"
  by (induction t js rule: split_gaps.induct) (auto split: list.splits)

lemma concat_split_gaps [simp]: "concat (split_gaps t js) = js"
  by (induction t js rule: split_gaps.induct) (auto split: list.splits)

lemma split_gaps_nonempty: "g \<in> set (split_gaps t js) \<Longrightarrow> g \<noteq> []"
  by (induction t js arbitrary: g rule: split_gaps.induct) (auto split: if_splits list.splits)

lemma split_gaps_step:
  "split_gaps t (i # j # js) =
     (if cut t i j then [i] # split_gaps t (j # js)
      else (i # hd (split_gaps t (j # js))) # tl (split_gaps t (j # js)))"
  by (auto split: list.splits)

text \<open>Inside a group no cut, between neighbouring groups a cut.\<close>

lemma split_gaps_inside: "g \<in> set (split_gaps t js) \<Longrightarrow> successively (\<lambda>i j. \<not> cut t i j) g"
proof (induction t js arbitrary: g rule: split_gaps.induct)
  case (3 t i j js)
  obtain h gs where hg: "split_gaps t (j # js) = h # gs" by (cases "split_gaps t (j # js)") auto
  then obtain h' where h: "h = j # h'" using split_gaps_Cons [OF hg] by (cases h) auto
  show ?case using 3 hg h by (auto split: if_splits)
qed auto

lemma split_gaps_between: "successively (\<lambda>g h. cut t (last g) (hd h)) (split_gaps t js)"
proof (induction t js rule: split_gaps.induct)
  case (3 t i j js)
  obtain h gs where hg: "split_gaps t (j # js) = h # gs" by (cases "split_gaps t (j # js)") auto
  then show ?case using 3 split_gaps_Cons [OF hg] by (cases gs) auto
qed auto

text \<open>An open join ends its group, so a group is open exactly when its last join is.\<close>

lemma group_open_last:
  assumes "successively (\<lambda>i j. \<not> cut t i j) g" "g \<noteq> []"
  shows "(\<exists>j \<in> set g. jr_ended_at j = None) \<longleftrightarrow> open_row (last g)"
  using assms by (induction g rule: induct_list012) (auto simp: cut_def open_row_def split: option.splits)

section \<open>The stages of the query\<close>

fun label :: "int \<Rightarrow> join_row list list \<Rightarrow> (join_row \<times> int) list" where
  "label n [] = []"
| "label n (g # gs) = map (\<lambda>j. (j, n + 1)) g @ label (n + 1) gs"

lemma is_new_cut: "is_new t (map_option (\<lambda>e. jr_started_at j - e) (jr_ended_at i)) = (if cut t i j then 1 else 0)"
  by (auto simp: is_new_def cut_def split: option.splits)

lemma label_split:
  "label n (split_gaps t (j # js)) = (j, n + 1) # ordinals (n + 1) (marked t (with_gap (jr_ended_at j) js))"
proof (induction js arbitrary: j n)
  case (Cons k js)
  obtain h gs where hg: "split_gaps t (k # js) = h # gs" by (cases "split_gaps t (k # js)") auto
  show ?case using Cons.IH [of n k] Cons.IH [of "n + 1" k] hg by (auto simp: marked_def is_new_cut)
qed (simp add: marked_def)

lemma ordinals_split: "ordinals 0 (marked t (with_gap None js)) = label 0 (split_gaps t js)"
proof (cases js)
  case (Cons j rest)
  then show ?thesis using label_split [of 0 t j rest] by (simp add: marked_def is_new_def)
qed (simp add: marked_def)

lemma label_range: "p \<in> set (label n gs) \<Longrightarrow> n < snd p"
  by (induction gs arbitrary: n) fastforce+

lemma remdups_block: "ys \<noteq> [] \<Longrightarrow> set ys \<subseteq> {y} \<Longrightarrow> y \<notin> set zs \<Longrightarrow> remdups (ys @ zs) = y # remdups zs"
proof (induction ys)
  case (Cons x ys)
  then show ?case by (cases "ys = []") (auto simp: neq_Nil_conv)
qed simp

lemma remdups_label:
  assumes "\<forall>g \<in> set gs. g \<noteq> []" "\<forall>g \<in> set gs. \<forall>j \<in> set g. key_of j = k"
  shows "remdups (map (\<lambda>(j, m). (key_of j, m)) (label n gs)) = map (Pair k) [n + 1 .. n + int (length gs)]"
  using assms
proof (induction gs arbitrary: n)
  case (Cons g gs)
  have "(k, n + 1) \<notin> set (map (\<lambda>(j, m). (key_of j, m)) (label (n + 1) gs))"
    using label_range by fastforce
  then have "remdups (map (\<lambda>(j, m). (key_of j, m)) (label n (g # gs))) =
      (k, n + 1) # remdups (map (\<lambda>(j, m). (key_of j, m)) (label (n + 1) gs))"
    unfolding label.simps map_append by (intro remdups_block) (use Cons.prems in auto)
  moreover have "[n + 1 .. n + int (length (g # gs))] = (n + 1) # [n + 2 .. n + int (length (g # gs))]"
    by (simp add: upto_rec1 add.commute)
  ultimately show ?case using Cons.IH [of "n + 1"] Cons.prems by (simp add: algebra_simps)
qed simp

lemma filter_label:
  assumes "\<forall>g \<in> set gs. \<forall>j \<in> set g. key_of j = k" "i < length gs"
  shows "map fst (filter (\<lambda>(j, m). (key_of j, m) = (k, n + 1 + int i)) (label n gs)) = gs ! i"
  using assms
proof (induction gs arbitrary: n i)
  case (Cons g gs)
  have later: "filter (\<lambda>(j, m). (key_of j, m) = (k, n + 1)) (label (n + 1) gs) = []"
    using label_range by (fastforce simp: filter_empty_conv)
  show ?case
  proof (cases i)
    case 0
    have "filter (\<lambda>j. key_of j = k) g = g" using Cons.prems by (simp add: filter_id_conv)
    then show ?thesis using later 0 by (simp add: filter_map o_def)
  next
    case (Suc i')
    then show ?thesis using Cons.IH [of i' "n + 1"] Cons.prems by (simp add: filter_map o_def algebra_simps)
  qed
qed simp

text \<open>One partition of the query: its rows are the sessions of the specification, numbered from 1.\<close>

lemma walks_keys: "walks ord \<Longrightarrow> set (ord js) = set js"
  unfolding walks_def by (metis set_mset_mset)

lemma walks_Nil: "walks ord \<Longrightarrow> ord [] = []"
  unfolding walks_def by (metis mset_zero_iff)

lemma group_row_Min:
  assumes "sorted (map jr_started_at js)" "g \<in> set (split_gaps t js)"
  shows "Min (set (map jr_started_at g)) = jr_started_at (hd g)"
proof -
  obtain xs ys where "js = xs @ g @ ys" using assms(2) concat_split_gaps [of t js]
    by (metis concat.simps(2) concat_append in_set_conv_decomp)
  then have "sorted (map jr_started_at g)" using assms(1) by (simp add: sorted_append)
  moreover have "g \<noteq> []" by (rule split_gaps_nonempty [OF assms(2)])
  ultimately show ?thesis by (cases g) (auto intro!: Min_eqI)
qed

lemma partition_session_rows:
  fixes ord t js k
  defines "gs \<equiv> split_gaps t (ord (filter (\<lambda>j. key_of j = k) js))"
  assumes "walks ord"
  shows "map (session_row_of (partition_rows ord t js k))
           (remdups (map (\<lambda>(j, n). (key_of j, n)) (partition_rows ord t js k))) =
         map2 (group_row k) [1 .. int (length gs)] gs"
proof -
  let ?p = "ord (filter (\<lambda>j. key_of j = k) js)"
  have rows: "partition_rows ord t js k = label 0 gs" by (simp add: partition_rows_def ordinals_split gs_def)
  have keys: "\<forall>g \<in> set gs. \<forall>j \<in> set g. key_of j = k"
    using concat_split_gaps [of t ?p] walks_keys [OF assms(2)] unfolding gs_def
    by (metis (mono_tags, lifting) UN_I mem_Collect_eq set_concat set_filter)
  have ne: "\<forall>g \<in> set gs. g \<noteq> []" using split_gaps_nonempty by (auto simp: gs_def)
  have "session_row_of (label 0 gs) (k, 1 + int i) = group_row k (1 + int i) (gs ! i)" if "i < length gs" for i
  proof -
    have g: "gs ! i \<in> set (split_gaps t ?p)" using that by (simp add: gs_def)
    have "sorted (map jr_started_at ?p)" using assms(2) by (simp add: walks_def)
    then show ?thesis
      using filter_label [OF keys that, of 0] group_row_Min [OF _ g] group_open_last [OF split_gaps_inside [OF g]]
        split_gaps_nonempty [OF g]
      by (simp add: session_row_of_def group_row_def Let_def)
  qed
  then show ?thesis
    unfolding rows remdups_label [OF ne keys] by (intro nth_equalityI) auto
qed

text \<open>All partitions together.\<close>

lemma remdups_disjoint: "set xs \<inter> set ys = {} \<Longrightarrow> remdups (xs @ ys) = remdups xs @ remdups ys"
  by (induction xs) auto

lemma remdups_concat:
  assumes "distinct ks" "\<And>k p. p \<in> set (R k) \<Longrightarrow> fst (f p) = k"
  shows "remdups (map f (concat (map R ks))) = concat (map (\<lambda>k. remdups (map f (R k))) ks)"
  using assms(1)
proof (induction ks)
  case (Cons k ks)
  have "set (map f (R k)) \<inter> set (map f (concat (map R ks))) = {}"
  proof -
    have "fst y = k" if "y \<in> set (map f (R k))" for y using that assms(2) [of _ k] by auto
    moreover have "fst y \<in> set ks" if "y \<in> set (map f (concat (map R ks)))" for y
    proof -
      from that obtain i p where ip: "i \<in> set ks" "p \<in> set (R i)" "y = f p" by auto
      then show ?thesis using assms(2) [OF ip(2)] by simp
    qed
    ultimately have "fst y = k \<and> fst y \<in> set ks" if "y \<in> set (map f (R k)) \<inter> set (map f (concat (map R ks)))" for y
      using that by blast
    then show ?thesis using Cons.prems by auto
  qed
  then show ?case using Cons by (simp add: remdups_disjoint)
qed simp

lemma filter_concat_key:
  assumes "distinct ks" "\<And>k x. x \<in> set (R k) \<Longrightarrow> h x = k"
  shows "filter (\<lambda>x. h x = k) (concat (map R ks)) = (if k \<in> set ks then R k else [])"
  using assms(1)
proof (induction ks)
  case (Cons i ks)
  have "filter (\<lambda>x. h x = k) (R i) = (if i = k then R i else [])"
    using assms(2) [of _ i] by (auto simp: filter_id_conv filter_empty_conv)
  then show ?case using Cons by auto
qed simp

lemma stage_joins:
  "map fst (ordinals n rows) = map fst rows" "map fst (marked t r) = map fst r" "map fst (with_gap e js) = js"
proof -
  show "map fst (ordinals n rows) = map fst rows" by (induction n rows rule: ordinals.induct) auto
  show "map fst (marked t r) = map fst r" by (simp add: marked_def case_prod_beta o_def)
  show "map fst (with_gap e js) = js" by (induction e js rule: with_gap.induct) auto
qed

lemma partition_key:
  assumes "walks ord" "p \<in> set (partition_rows ord t js k)"
  shows "key_of (fst p) = k"
proof -
  have "map fst (partition_rows ord t js k) = ord (filter (\<lambda>j. key_of j = k) js)"
    by (simp add: partition_rows_def stage_joins)
  then have "fst p \<in> set (ord (filter (\<lambda>j. key_of j = k) js))" using assms(2) by (metis image_eqI set_map)
  then show ?thesis using walks_keys [OF assms(1)] by simp
qed

lemma session_row_local:
  assumes "walks ord" "k \<in> set (map key_of js)"
  shows "session_row_of (grouped ord t js) (k, n) = session_row_of (partition_rows ord t js k) (k, n)"
proof -
  have "filter (\<lambda>p. key_of (fst p) = k) (grouped ord t js) = partition_rows ord t js k"
    unfolding grouped_def using assms(2)
    by (subst filter_concat_key [where h = "\<lambda>p. key_of (fst p)"]) (auto dest: partition_key [OF assms(1)])
  moreover have "filter (\<lambda>(j, m). (key_of j, m) = (k, n)) rows =
      filter (\<lambda>(j, m). (key_of j, m) = (k, n)) (filter (\<lambda>p. key_of (fst p) = k) rows)" for rows
    unfolding filter_filter by (rule filter_cong) auto
  ultimately have "filter (\<lambda>(j, m). (key_of j, m) = (k, n)) (grouped ord t js) =
      filter (\<lambda>(j, m). (key_of j, m) = (k, n)) (partition_rows ord t js k)"
    by metis
  then show ?thesis by (simp add: session_row_of_def)
qed

lemma sr_key_of [simp]: "sr_key (session_row_of rows kn) = fst kn"
  by (simp add: session_row_of_def Let_def)

lemma reference_query_partition:
  assumes "walks ord"
  shows "filter (\<lambda>r. sr_key r = k) (reference_query ord lo hi t db) =
    map2 (group_row k) [1 .. int (length (sessions_of ord lo hi t db k))] (sessions_of ord lo hi t db k)"
proof -
  let ?js = "filter (overlaps lo hi) (db_participant_join db)"
  let ?R = "partition_rows ord t ?js" and ?f = "\<lambda>(j :: join_row, n :: int). (key_of j, n)"
  let ?ks = "remdups (map key_of ?js)"
  have key: "fst (?f p) = i" if "p \<in> set (?R i)" for p i
    using partition_key [OF assms that] by (simp add: case_prod_beta)
  have names: "remdups (map ?f (grouped ord t ?js)) = concat (map (\<lambda>i. remdups (map ?f (?R i))) ?ks)"
    unfolding grouped_def by (rule remdups_concat [OF _ key]) simp
  have mine: "filter (\<lambda>kn. fst kn = k) (remdups (map ?f (grouped ord t ?js))) =
      (if k \<in> set ?ks then remdups (map ?f (?R k)) else [])"
    unfolding names by (rule filter_concat_key) (use key in \<open>auto simp del: remdups_map_remdups\<close>)
  have "filter (\<lambda>r. sr_key r = k) (reference_query ord lo hi t db) =
      map (session_row_of (grouped ord t ?js)) (filter (\<lambda>kn. fst kn = k) (remdups (map ?f (grouped ord t ?js))))"
    by (simp add: reference_query_def Let_def filter_map o_def)
  also have "\<dots> = map2 (group_row k) [1 .. int (length (sessions_of ord lo hi t db k))] (sessions_of ord lo hi t db k)"
  proof (cases "k \<in> set ?ks")
    case True
    have "map (session_row_of (grouped ord t ?js)) (remdups (map ?f (?R k))) =
        map (session_row_of (?R k)) (remdups (map ?f (?R k)))"
    proof (rule map_cong [OF refl])
      fix kn assume "kn \<in> set (remdups (map ?f (?R k)))"
      then obtain p where "p \<in> set (?R k)" "kn = ?f p" unfolding set_remdups set_map by blast
      then have "fst kn = k" using key by simp
      then obtain n where "kn = (k, n)" by (cases kn) simp
      then show "session_row_of (grouped ord t ?js) kn = session_row_of (?R k) kn"
        using session_row_local [OF assms, of k ?js t n] True by simp
    qed
    then show ?thesis
      using partition_session_rows [OF assms, where t = t and k = k and js = ?js] True mine by (simp add: sessions_of_def)
  next
    case False
    then have "filter (\<lambda>j. key_of j = k) ?js = []" by (auto simp: filter_empty_conv)
    then have "sessions_of ord lo hi t db k = []"
      using walks_Nil [OF assms] by (simp add: sessions_of_def)
    then show ?thesis using mine False by simp
  qed
  finally show ?thesis .
qed

section \<open>Thresholds\<close>

lemma cut_mono: "t \<le> t' \<Longrightarrow> cut t' i j \<Longrightarrow> cut t i j"
  by (auto simp: cut_def split: option.splits)

text \<open>Under a longer gap the sessions are unions of neighbouring sessions of the shorter one.\<close>

lemma split_gaps_coarser:
  assumes "t \<le> t'"
  shows "\<exists>P. split_gaps t' (i # js) = map concat P \<and> concat P = split_gaps t (i # js) \<and> [] \<notin> set P"
proof (induction js arbitrary: i)
  case Nil
  show ?case by (intro exI [of _ "[[[i]]]"]) simp
next
  case (Cons j js)
  then obtain P where P: "split_gaps t' (j # js) = map concat P" "concat P = split_gaps t (j # js)" "[] \<notin> set P"
    by blast
  then obtain g p ps where Pc: "P = (g # p) # ps"
    by (metis list.exhaust list.set_intros(1) list.simps(8) split_gaps_Nil list.discI)
  then have hd: "split_gaps t (j # js) = g # p @ concat ps" "split_gaps t' (j # js) = (g @ concat p) # map concat ps"
    using P by simp_all
  consider "cut t' i j" "cut t i j" | "\<not> cut t' i j" "cut t i j" | "\<not> cut t' i j" "\<not> cut t i j"
    using cut_mono [OF assms] by blast
  then show ?case
  proof cases
    case 1
    then show ?thesis using P by (intro exI [of _ "[[i]] # P"]) simp
  next
    case 2
    then show ?thesis using P Pc hd by (intro exI [of _ "([i] # g # p) # ps"]) simp
  next
    case 3
    then show ?thesis using P Pc hd by (intro exI [of _ "((i # g) # p) # ps"]) simp
  qed
qed

section \<open>Properties\<close>

text \<open>C20. The reference query computes the sessions of the specification. For every participant in every
  room, the rows it returns are, in order and numbered from 1, one per session, where the sessions
  split the overlapping joins in the order of their start: none is empty, inside a session every gap
  is known and within the threshold, between neighbouring sessions it is unknown (the earlier join
  never ended) or longer. A row's start is that of its first join, its \<open>still_open\<close> that of its last.\<close>

theorem reference_query_computes_sessions:
  assumes "walks ord"
  shows "filter (\<lambda>r. sr_key r = k) (reference_query ord lo hi t db) =
      map2 (group_row k) [1 .. int (length (sessions_of ord lo hi t db k))] (sessions_of ord lo hi t db k) \<and>
    concat (sessions_of ord lo hi t db k) =
      ord (filter (\<lambda>j. key_of j = k) (filter (overlaps lo hi) (db_participant_join db))) \<and>
    (\<forall>g \<in> set (sessions_of ord lo hi t db k). g \<noteq> [] \<and> successively (\<lambda>i j. \<not> cut t i j) g) \<and>
    successively (\<lambda>g h. cut t (last g) (hd h)) (sessions_of ord lo hi t db k)"
  using reference_query_partition [OF assms] split_gaps_nonempty split_gaps_inside split_gaps_between
  by (simp add: sessions_of_def)

definition by_start :: "join_row list \<Rightarrow> join_row list" where
  "by_start = sort_key jr_started_at"

lemma walks_by_start: "walks by_start"
  by (simp add: walks_def by_start_def)

definition reconnecting :: database where
  "reconnecting = fst (deliver_all (RecordEvent demo_ts) (demo_db\<lparr>db_event_raw := [], db_participant_join := []\<rparr>)
     [(demo_env ''u1'', demo_event ''e1'' EventParticipantJoined 1 ''alice'' ''PA_1''),
      (demo_env ''u2'', demo_event ''e2'' EventParticipantLeft 5 ''alice'' ''PA_1''),
      (demo_env ''u3'', demo_event ''e3'' EventParticipantJoined 8 ''alice'' ''PA_2''),
      (demo_env ''u4'', demo_event ''e4'' EventParticipantLeft 20 ''alice'' ''PA_2''),
      (demo_env ''u5'', demo_event ''e5'' EventParticipantJoined 60 ''alice'' ''PA_3'')])"

lemma reconnecting_sessions:
  "map (map jr_join_id) (sessions_of by_start 0 90000000 10000000 reconnecting (''livekit'', ''room'', ''alice'')) =
     [[''u1'', ''u3''], [''u5'']]"
  by code_simp

theorem reference_query_computes_sessions_witness:
  "filter (\<lambda>r. sr_key r = (''livekit'', ''room'', ''alice'')) (reference_query by_start 0 90000000 10000000 reconnecting) =
     [\<lparr>sr_key = (''livekit'', ''room'', ''alice''), sr_ordinal = 1, sr_started_at = 1000000, sr_still_open = False,
       sr_joins = 2, sr_reconnects = 1\<rparr>,
      \<lparr>sr_key = (''livekit'', ''room'', ''alice''), sr_ordinal = 2, sr_started_at = 60000000, sr_still_open = True,
       sr_joins = 1, sr_reconnects = 0\<rparr>]"
proof -
  let ?k = "(''livekit'', ''room'', ''alice'')"
  have "map2 (group_row ?k) [1 .. int (length (sessions_of by_start 0 90000000 10000000 reconnecting ?k))]
      (sessions_of by_start 0 90000000 10000000 reconnecting ?k) =
     [\<lparr>sr_key = ?k, sr_ordinal = 1, sr_started_at = 1000000, sr_still_open = False, sr_joins = 2, sr_reconnects = 1\<rparr>,
      \<lparr>sr_key = ?k, sr_ordinal = 2, sr_started_at = 60000000, sr_still_open = True, sr_joins = 1, sr_reconnects = 0\<rparr>]"
    by code_simp
  then show ?thesis
    using reference_query_computes_sessions [OF walks_by_start, of ?k 0 90000000 10000000 reconnecting] by simp
qed

text \<open>C25. The type \<open>Session\<close> and the query give the same answers, and its methods never panic on a derived
  session. For any way of scanning rows into \<open>Join\<close> values that keeps the start and whether there is an
  end, the value built from the joins of a row of the query starts when the row says, is open exactly
  when \<open>bool_or(ended_at IS NULL)\<close> says so although \<open>IsOpen\<close> looks at the last join only, and
  reports the same number of reconnects.\<close>

theorem session_methods_agree_with_query:
  assumes "walks ord" "r \<in> set (reference_query ord lo hi t db)"
    and "\<And>j. ts (jn_StartedAt (scan j)) = jr_started_at j" "\<And>j. jn_EndedAt (scan j) = None \<longleftrightarrow> jr_ended_at j = None"
  shows "\<exists>g \<in> set (sessions_of ord lo hi t db (sr_key r)). \<forall>s. ss_Joins s = map scan g \<longrightarrow>
      map_option ts (Session_StartedAt s) = Some (sr_started_at r) \<and>
      Session_IsOpen s = Some (sr_still_open r) \<and> Session_Reconnects s = sr_reconnects r"
proof -
  let ?gs = "sessions_of ord lo hi t db (sr_key r)"
  have "r \<in> set (filter (\<lambda>q. sr_key q = sr_key r) (reference_query ord lo hi t db))" using assms(2) by simp
  then obtain n g where g: "g \<in> set ?gs" "r = group_row (sr_key r) n g"
    unfolding reference_query_partition [OF assms(1)] by (auto dest: set_zip_rightD)
  have ne: "g \<noteq> []" using g(1) split_gaps_nonempty by (auto simp: sessions_of_def)
  have row: "sr_started_at r = jr_started_at (hd g)" "sr_still_open r = open_row (last g)"
      "sr_reconnects r = int (length g) - 1"
    by (subst g(2), simp add: group_row_def)+
  have "map_option ts (Session_StartedAt s) = Some (sr_started_at r) \<and>
      Session_IsOpen s = Some (sr_still_open r) \<and> Session_Reconnects s = sr_reconnects r"
    if "ss_Joins s = map scan g" for s
    using ne that assms(3,4) row
    by (cases g) (simp_all add: Session_StartedAt_def Session_IsOpen_last Session_Reconnects_def Join_IsOpen_def
        open_row_def last_map)
  then show ?thesis using g(1) by blast
qed

definition scan_row :: "join_row \<Rightarrow> Join" where
  "scan_row j = \<lparr>jn_ID = jr_join_id j, jn_Backend = jr_backend j, jn_RoomName = jr_room_name j,
     jn_ParticipantIdentity = jr_participant_identity j, jn_RoomSID = text_of (jr_room_sid j),
     jn_ParticipantSID = text_of (jr_participant_sid j), jn_StartedAt = zeroTime\<lparr>t_sec := jr_started_at j\<rparr>,
     jn_EndedAt = map_option (\<lambda>e. zeroTime\<lparr>t_sec := e\<rparr>) (jr_ended_at j), jn_EndReason = text_of (jr_end_reason j),
     jn_StartedEventID = jr_started_event_id j, jn_EndedEventID = text_of (jr_ended_event_id j)\<rparr>"

theorem session_methods_agree_with_query_witness:
  "\<exists>r \<in> set (reference_query by_start 0 90000000 10000000 reconnecting).
     \<exists>g \<in> set (sessions_of by_start 0 90000000 10000000 reconnecting (sr_key r)). \<forall>s. ss_Joins s = map scan_row g \<longrightarrow>
      map_option t_sec (Session_StartedAt s) = Some (sr_started_at r) \<and>
      Session_IsOpen s = Some (sr_still_open r) \<and> Session_Reconnects s = sr_reconnects r"
proof -
  have "reference_query by_start 0 90000000 10000000 reconnecting \<noteq> []" by code_simp
  then obtain r where r: "r \<in> set (reference_query by_start 0 90000000 10000000 reconnecting)"
    by (meson last_in_set)
  have "\<exists>g \<in> set (sessions_of by_start 0 90000000 10000000 reconnecting (sr_key r)). \<forall>s. ss_Joins s = map scan_row g \<longrightarrow>
      map_option t_sec (Session_StartedAt s) = Some (sr_started_at r) \<and>
      Session_IsOpen s = Some (sr_still_open r) \<and> Session_Reconnects s = sr_reconnects r"
    by (rule session_methods_agree_with_query [OF walks_by_start r]) (simp_all add: scan_row_def)
  then show ?thesis using r by blast
qed

text \<open>The threshold is a parameter of the question: grouping the same joins under a longer gap merges
  neighbouring sessions and never splits one, so that every session of the longer gap is the
  concatenation of sessions of the shorter one, in order, and there are no more of them.\<close>

theorem longer_gap_merges_sessions:
  assumes "t \<le> t'"
  shows "\<exists>P. sessions_of ord lo hi t' db k = map concat P \<and> concat P = sessions_of ord lo hi t db k \<and> [] \<notin> set P \<and>
    length (sessions_of ord lo hi t' db k) \<le> length (sessions_of ord lo hi t db k)"
proof -
  let ?js = "ord (filter (\<lambda>j. key_of j = k) (filter (overlaps lo hi) (db_participant_join db)))"
  obtain P where P: "split_gaps t' ?js = map concat P" "concat P = split_gaps t ?js" "[] \<notin> set P"
    by (cases ?js) (use split_gaps_coarser [OF assms] in \<open>fastforce+\<close>)
  have len: "length Q \<le> length (concat Q)" if "[] \<notin> set Q" for Q :: "join_row list list list"
    using that
  proof (induction Q)
    case (Cons q Q)
    then show ?case by (cases q) auto
  qed simp
  have "length (split_gaps t' ?js) \<le> length (split_gaps t ?js)" using len [OF P(3)] unfolding P(1,2) length_map .
  then show ?thesis using P unfolding sessions_of_def by blast
qed

theorem longer_gap_merges_sessions_witness:
  "length (sessions_of by_start 0 90000000 120000000 reconnecting (''livekit'', ''room'', ''alice'')) \<le> 2"
proof -
  have "length (sessions_of by_start 0 90000000 10000000 reconnecting (''livekit'', ''room'', ''alice'')) = 2" by code_simp
  then show ?thesis
    using longer_gap_merges_sessions [of 10000000 120000000 by_start 0 90000000 reconnecting "(''livekit'', ''room'', ''alice'')"]
    by auto
qed

text \<open>The predicate on the two columns that the range stands for.\<close>

definition in_window :: "int \<Rightarrow> int \<Rightarrow> join_row \<Rightarrow> bool" where
  "in_window lo hi j \<longleftrightarrow> jr_started_at j < hi \<and> (case jr_ended_at j of None \<Rightarrow> True | Some e \<Rightarrow> lo < e)"

text \<open>C26. What the window selects: every stored join that the predicate on \<open>started_at\<close> and \<open>ended_at\<close> would
  select, open ones included, except a join that ended at the instant it started. Its \<open>active_range\<close>
  is empty, so no window contains it: a participant who joins and leaves within one second of
  LiveKit's clock is stored without error, and no query shows the visit.\<close>

theorem window_omits_instant_joins:
  assumes "db_inv db" "j \<in> set (db_participant_join db)" "lo < hi"
  shows "overlaps lo hi j \<longleftrightarrow> in_window lo hi j \<and> jr_ended_at j \<noteq> Some (jr_started_at j)"
proof -
  have "jr_started_at j \<le> e" if "jr_ended_at j = Some e" for e
    using assms(1,2) that by (auto simp: db_inv_def join_inv_def)
  then show ?thesis using assms(3) by (fastforce simp: overlaps_def in_window_def split: option.splits)
qed

definition instant_visit :: "database \<times> (Result \<times> store_error option) list" where
  "instant_visit = deliver_all (RecordEvent demo_ts) demo_db
     [(demo_env ''u3'', demo_event ''e3'' EventParticipantJoined 3 ''carol'' ''PA_3''),
      (demo_env ''u4'', demo_event ''e4'' EventParticipantLeft 3 ''carol'' ''PA_3'')]"

theorem window_omits_instant_joins_witness:
  "map snd (snd instant_visit) = [None, None] \<and> map (rs_JoinsClosed \<circ> fst) (snd instant_visit) = [0, 1] \<and>
   in_window 0 90000000 (last (db_participant_join (fst instant_visit))) \<and>
   \<not> overlaps 0 90000000 (last (db_participant_join (fst instant_visit)))"
proof (intro conjI)
  let ?db = "fst instant_visit"
  have inv: "db_inv ?db" unfolding instant_visit_def by (rule pg.deliver_all_inv [OF demo_db_inv])
  have j: "last (db_participant_join ?db) \<in> set (db_participant_join ?db)"
    by (rule last_in_set) code_simp
  have e: "jr_ended_at (last (db_participant_join ?db)) = Some (jr_started_at (last (db_participant_join ?db)))"
    by code_simp
  show "\<not> overlaps 0 90000000 (last (db_participant_join ?db))"
    using window_omits_instant_joins [OF inv j, of 0 90000000] e by simp
  show "map snd (snd instant_visit) = [None, None]" by code_simp
  show "map (rs_JoinsClosed \<circ> fst) (snd instant_visit) = [0, 1]" by code_simp
  show "in_window 0 90000000 (last (db_participant_join ?db))" by code_simp
qed

end
