(* ===== verification/Rooms.thy ===== *)
theory Rooms
  imports Sessions
begin

text \<open>
  Rooms do not see each other: the rows of a room, what the calls for it return and the sessions derived
  from it are those of a run in which only the deliveries of that room were made. The locale \<open>projection\<close>
  has the argument for any state with a view that the steps of a part of the deliveries respect; it is
  interpreted on \<open>RecordEvent\<close> and the view of a room.
\<close>

section \<open>Views of a state\<close>

text \<open>\<open>own\<close> says which deliveries the view is about. On a state and deliveries to come that satisfy \<open>inv\<close>, a
  delivery of the view does on the view what it does on the whole state, and any other leaves the view
  alone.\<close>

locale projection =
  fixes rec :: "('s, 'e) record_event"
    and view :: "'s \<Rightarrow> 's"
    and own :: "'e \<times> Event \<Rightarrow> bool"
    and inv :: "'s \<Rightarrow> ('e \<times> Event) list \<Rightarrow> bool"
  assumes projection_inv: "inv s ((e, ev) # ds) \<Longrightarrow> inv (fst (rec e s ev)) ds"
    and projection_own: "inv s ((e, ev) # ds) \<Longrightarrow> own (e, ev) \<Longrightarrow> rec e (view s) ev = map_prod view id (rec e s ev)"
    and projection_other: "inv s ((e, ev) # ds) \<Longrightarrow> \<not> own (e, ev) \<Longrightarrow> view (fst (rec e s ev)) = view s"
begin

lemma deliver_all_view:
  "inv s ds \<Longrightarrow> deliver_all rec (view s) (filter own ds) =
     (view (fst (deliver_all rec s ds)), map snd (filter (\<lambda>p. own (fst p)) (zip ds (snd (deliver_all rec s ds)))))"
proof (induction ds arbitrary: s)
  case (Cons d ds)
  obtain e ev where d: "d = (e, ev)" by (cases d)
  obtain s' r where step: "rec e s ev = (s', r)" by (cases "rec e s ev")
  obtain s'' rs where rest: "deliver_all rec s' ds = (s'', rs)" by (cases "deliver_all rec s' ds")
  have ih: "deliver_all rec (view s') (filter own ds) = (view s'', map snd (filter (\<lambda>p. own (fst p)) (zip ds rs)))"
    using Cons.IH [of s'] projection_inv [of s e ev ds] Cons.prems d step rest by simp
  show ?case
  proof (cases "own d")
    case True
    then show ?thesis using projection_own [of s e ev ds] Cons.prems d step rest ih by simp
  next
    case False
    then show ?thesis using projection_other [of s e ev ds] Cons.prems d step rest ih by simp
  qed
qed simp

end

section \<open>The view of a room\<close>

type_synonym room_key = "string \<times> string"

definition room_of_event :: "Event \<Rightarrow> room_key" where
  "room_of_event ev = (ev_Backend ev, ev_RoomName ev)"

definition room_of_row :: "event_row \<Rightarrow> room_key" where
  "room_of_row r = (er_backend r, text_of (er_room_name r))"

definition room_of_join :: "join_row \<Rightarrow> room_key" where
  "room_of_join j = (jr_backend j, jr_room_name j)"

definition room_view :: "room_key \<Rightarrow> database \<Rightarrow> database" where
  "room_view k db =
     db\<lparr>db_event_raw := filter (\<lambda>r. room_of_row r = k) (db_event_raw db),
        db_participant_join := filter (\<lambda>j. room_of_join j = k) (db_participant_join db)\<rparr>"

text \<open>The event ids and the generated join ids that belong to other rooms, stored or still to be delivered.\<close>

definition foreign_ids :: "room_key \<Rightarrow> database \<Rightarrow> (env \<times> Event) list \<Rightarrow> string list" where
  "foreign_ids k db ds =
     map er_event_id (filter (\<lambda>r. room_of_row r \<noteq> k) (db_event_raw db)) @
     map (\<lambda>d. ev_ID (snd d)) (filter (\<lambda>d. room_of_event (snd d) \<noteq> k) ds)"

definition foreign_uuids :: "room_key \<Rightarrow> database \<Rightarrow> (env \<times> Event) list \<Rightarrow> string list" where
  "foreign_uuids k db ds =
     map jr_join_id (filter (\<lambda>j. room_of_join j \<noteq> k) (db_participant_join db)) @
     map (\<lambda>d. en_uuid (fst d)) (filter (\<lambda>d. room_of_event (snd d) \<noteq> k) ds)"

text \<open>No delivery of the room shares an event id or a generated id with another room.\<close>

definition rooms_apart :: "room_key \<Rightarrow> database \<Rightarrow> (env \<times> Event) list \<Rightarrow> bool" where
  "rooms_apart k db ds \<longleftrightarrow>
     (\<forall>(e, ev) \<in> set ds. room_of_event ev = k \<longrightarrow>
        ev_ID ev \<notin> set (foreign_ids k db ds) \<and> en_uuid e \<notin> set (foreign_uuids k db ds))"

lemma room_view_simps [simp]:
  "db_partitions (room_view k db) = db_partitions db"
  "db_event_raw (room_view k db) = filter (\<lambda>r. room_of_row r = k) (db_event_raw db)"
  "db_participant_join (room_view k db) = filter (\<lambda>j. room_of_join j = k) (db_participant_join db)"
  by (simp_all add: room_view_def)

lemma room_view_updates [simp]:
  "(room_view k db)\<lparr>db_event_raw := filter (\<lambda>r. room_of_row r = k) rs\<rparr> = room_view k (db\<lparr>db_event_raw := rs\<rparr>)"
  "(room_view k db)\<lparr>db_participant_join := filter (\<lambda>j. room_of_join j = k) js\<rparr> = room_view k (db\<lparr>db_participant_join := js\<rparr>)"
  by (simp_all add: room_view_def)

lemma room_of_simps [simp]:
  "room_of_row (event_row_of ts now ev) = room_of_event ev"
  "room_of_join (join_row_of ts e ev) = room_of_event ev"
  "room_of_join (set_end at reason eid now j) = room_of_join j"
  by (simp_all add: room_of_row_def room_of_event_def room_of_join_def event_row_of_def)

section \<open>The statements on the view\<close>

abbreviation viewed :: "room_key \<Rightarrow> 'x + (database \<times> 'b) \<Rightarrow> 'x + (database \<times> 'b)" where
  "viewed k \<equiv> map_sum id (map_prod (room_view k) id)"

lemma update_joins_view:
  assumes "\<And>j. j \<in> set (db_participant_join db) \<Longrightarrow> P j \<Longrightarrow> room_of_join j = k"
    and "\<And>j. room_of_join (f j) = room_of_join j"
  shows "update_joins P f (room_view k db) = viewed k (update_joins P f db)"
proof -
  let ?js = "db_participant_join db"
  have same: "filter (\<lambda>j. room_of_join j = k \<and> P j) ?js = filter P ?js"
    using assms(1) by (auto intro: filter_cong)
  have "map (\<lambda>j. if P j then f j else j) (filter (\<lambda>j. room_of_join j = k) xs) =
      filter (\<lambda>j. room_of_join j = k) (map (\<lambda>j. if P j then f j else j) xs)" for xs
    using assms(2) by (induction xs) auto
  then show ?thesis by (simp add: update_joins_def Let_def same split: list.splits)
qed

lemma latest_open_view:
  "k = (b, room) \<Longrightarrow> latest_open b room ident n (filter (\<lambda>j. room_of_join j = k) js) = latest_open b room ident n js"
proof -
  assume k: "k = (b, room)"
  have "filter (by_identity b room ident) (filter (\<lambda>j. room_of_join j = k) js) = filter (by_identity b room ident) js"
    by (auto simp: k by_identity_def room_of_join_def intro: filter_cong)
  then show ?thesis by (simp add: latest_open_def)
qed

lemma close_view:
  assumes "distinct (map jr_join_id (db_participant_join db))" "room_of_event ev = k"
  shows "close ts e (room_view k db) ev reason = viewed k (close ts e db ev reason)"
proof -
  have sid: "closeBySID at reason eid (ev_Backend ev) (ev_RoomName ev) (ev_ParticipantSID ev) e (room_view k db) =
      viewed k (closeBySID at reason eid (ev_Backend ev) (ev_RoomName ev) (ev_ParticipantSID ev) e db)" for at eid
    using assms(2) by (auto simp: closeBySID_def by_sid_def room_of_event_def room_of_join_def
        intro!: update_joins_view split: option.splits)
  have chosen: "room_of_join j = k"
    if sel: "latest_open (ev_Backend ev) (ev_RoomName ev) ident n (db_participant_join db) = Some (jr_join_id j)"
      "j \<in> set (db_participant_join db)" for j ident n
  proof -
    obtain c where c: "c \<in> set (db_participant_join db)" "jr_join_id c = jr_join_id j"
        "by_identity (ev_Backend ev) (ev_RoomName ev) ident c"
      using latest_open_Some [OF sel(1)] by metis
    then have "j = c" using same_join [OF assms(1) sel(2)] by metis
    then show ?thesis using c(3) assms(2) by (auto simp: by_identity_def room_of_event_def room_of_join_def)
  qed
  have ident: "closeByIdentity at reason eid (ev_Backend ev) (ev_RoomName ev) (ev_ParticipantIdentity ev) e (room_view k db) =
      viewed k (closeByIdentity at reason eid (ev_Backend ev) (ev_RoomName ev) (ev_ParticipantIdentity ev) e db)" for at eid
    using assms(2) chosen
    by (auto simp: closeByIdentity_def latest_open_view room_of_event_def Let_def intro!: update_joins_view split: option.splits)
  show ?thesis unfolding close_def Let_def sid ident by (auto split: sum.splits if_splits)
qed

lemma openJoin_view:
  assumes "room_of_event ev = k"
    and "\<And>j. j \<in> set (db_participant_join db) \<Longrightarrow> room_of_join j \<noteq> k \<Longrightarrow> jr_started_event_id j \<noteq> ev_ID ev \<and> jr_join_id j \<noteq> en_uuid e"
  shows "openJoin ts e (room_view k db) ev = viewed k (openJoin ts e db ev)"
proof -
  let ?own = "{j \<in> set (db_participant_join db). room_of_join j = k}"
  have "ev_ID ev \<in> jr_started_event_id ` ?own \<longleftrightarrow> ev_ID ev \<in> jr_started_event_id ` set (db_participant_join db)"
    "en_uuid e \<in> jr_join_id ` ?own \<longleftrightarrow> en_uuid e \<in> jr_join_id ` set (db_participant_join db)"
    using assms(2) by (auto simp: image_iff) metis+
  then show ?thesis
    using assms(1) by (simp add: openJoin_def Let_def room_view_def split: option.splits)
qed

lemma closeRoom_view:
  "k = (b, room) \<Longrightarrow> closeRoom at reason eid b room e (room_view k db) = viewed k (closeRoom at reason eid b room e db)"
  by (auto simp: closeRoom_def by_room_def room_of_join_def intro!: update_joins_view split: option.splits)

section \<open>A call on the view\<close>

text \<open>What a call for the room needs of the other rooms' rows: none has its event id or its generated id.\<close>

definition unshared :: "room_key \<Rightarrow> env \<Rightarrow> Event \<Rightarrow> database \<Rightarrow> bool" where
  "unshared k e ev db \<longleftrightarrow>
     (\<forall>r \<in> set (db_event_raw db). room_of_row r \<noteq> k \<longrightarrow> er_event_id r \<noteq> ev_ID ev) \<and>
     (\<forall>j \<in> set (db_participant_join db). room_of_join j \<noteq> k \<longrightarrow> jr_started_event_id j \<noteq> ev_ID ev \<and> jr_join_id j \<noteq> en_uuid e)"

lemma insertEvent_view:
  assumes "room_of_event ev = k" "unshared k e ev db"
  shows "insertEvent ts e (room_view k db) ev = viewed k (insertEvent ts e db ev)"
proof -
  have "event_identity ts ev \<in> event_key ` {r \<in> set (db_event_raw db). room_of_row r = k} \<longleftrightarrow>
      event_identity ts ev \<in> event_key ` set (db_event_raw db)"
    using assms(2) by (auto simp: unshared_def image_iff event_identity_def event_key_def)
  then show ?thesis
    using assms(1) by (simp add: insertEvent_def Let_def room_view_def split: option.splits)
qed

lemma applyJoinEffect_view:
  assumes "distinct (map jr_join_id (db_participant_join db))" "room_of_event ev = k" "unshared k e ev db"
  shows "applyJoinEffect ts e (room_view k db) ev res = map_prod (room_view k) id (applyJoinEffect ts e db ev res)"
proof -
  have op: "openJoin ts e (room_view k db) ev = viewed k (openJoin ts e db ev)"
    by (rule openJoin_view [OF assms(2)]) (use assms(3) in \<open>auto simp: unshared_def\<close>)
  have room: "closeRoom at reason eid (ev_Backend ev) (ev_RoomName ev) e (room_view k db) =
      viewed k (closeRoom at reason eid (ev_Backend ev) (ev_RoomName ev) e db)" for at reason eid
    by (rule closeRoom_view) (use assms(2) in \<open>simp add: room_of_event_def\<close>)
  show ?thesis
    unfolding applyJoinEffect_def op room close_view [OF assms(1,2)] by (auto split: sum.splits)
qed

lemma RecordEvent_view:
  assumes "db_inv db" "room_of_event ev = k" "unshared k e ev db"
  shows "RecordEvent ts e (room_view k db) ev = map_prod (room_view k) id (RecordEvent ts e db ev)"
proof -
  have ins: "insertEvent ts e (room_view k db) ev = viewed k (insertEvent ts e db ev)"
    by (rule insertEvent_view [OF assms(2,3)])
  have app: "applyJoinEffect ts e (room_view k db1) ev res = map_prod (room_view k) id (applyJoinEffect ts e db1 ev res)"
    if "insertEvent ts e db ev = Inr (db1, Some i)" for db1 i res
  proof (rule applyJoinEffect_view [OF _ assms(2)])
    have db1: "db1 = db\<lparr>db_event_raw := db_event_raw db @ [event_row_of ts (en_now e) ev]\<rparr>"
      using insertEvent_ok(2) [OF that] by (auto split: if_splits)
    show "distinct (map jr_join_id (db_participant_join db1))" using assms(1) by (simp add: db1 db_inv_def)
    show "unshared k e ev db1" using assms(2,3) by (auto simp: db1 unshared_def)
  qed
  have cm: "commit what e (room_view k db) (room_view k db') res = map_prod (room_view k) id (commit what e db db' res)" for what db' res
    by (simp add: commit_def split: commit_outcome.split)
  show ?thesis
    unfolding RecordEvent_def ins Let_def
    by (auto simp: app cm split: option.splits sum.splits prod.splits)
qed

lemma other_room_view:
  assumes "db_inv db" "room_of_event ev \<noteq> k"
  shows "room_view k (fst (RecordEvent ts e db ev)) = room_view k db"
proof -
  let ?js = "db_participant_join db"
  obtain db' res err where eq: "RecordEvent ts e db ev = (db', res, err)" by (metis prod_cases3)
  have tgt: "\<not> close_targets n ev ?js j" if "j \<in> set ?js" "room_of_join j = k" for n j
    using close_targets_open [of ?js j n ev] assms that by (auto simp: db_inv_def room_of_join_def room_of_event_def)
  have "filter (\<lambda>j. room_of_join j = k) (map (\<lambda>j. if Q j then set_end at reason eid now j else j) xs) = filter (\<lambda>j. room_of_join j = k) xs"
    if "\<forall>j \<in> set xs. room_of_join j = k \<longrightarrow> \<not> Q j" for Q at reason eid now xs
    using that by (induction xs) auto
  then have "filter (\<lambda>j. room_of_join j = k) (join_effect ts e ev ?js) = filter (\<lambda>j. room_of_join j = k) ?js"
    using assms(2) tgt by (simp add: join_effect_def close_joins_def)
  then have stored: "room_view k (stored_db ts e ev db) = room_view k db"
    using assms(2) by (simp add: stored_db_def room_view_def)
  show ?thesis by (rule RecordEvent_cases [OF eq]) (simp_all add: eq stored)
qed

section \<open>Any sequence of deliveries\<close>

lemma foreignI:
  "r \<in> set (db_event_raw db) \<Longrightarrow> room_of_row r \<noteq> k \<Longrightarrow> er_event_id r \<in> set (foreign_ids k db ds)"
  "j \<in> set (db_participant_join db) \<Longrightarrow> room_of_join j \<noteq> k \<Longrightarrow> jr_join_id j \<in> set (foreign_uuids k db ds)"
  by (simp_all add: foreign_ids_def foreign_uuids_def)

lemma unshared_apart:
  assumes "db_inv db" "rooms_apart k db ((e, ev) # ds)" "room_of_event ev = k"
  shows "unshared k e ev db"
proof -
  have ids: "ev_ID ev \<notin> set (foreign_ids k db ((e, ev) # ds))" "en_uuid e \<notin> set (foreign_uuids k db ((e, ev) # ds))"
    using assms(2,3) by (auto simp: rooms_apart_def)
  have "jr_started_event_id j \<noteq> ev_ID ev" if j: "j \<in> set (db_participant_join db)" "room_of_join j \<noteq> k" for j
  proof -
    obtain r where "r \<in> set (db_event_raw db)" "started_by r j"
      using assms(1) j(1) by (auto simp: db_inv_def join_inv_def)
    moreover from this have "room_of_row r \<noteq> k" using j(2) by (auto simp: started_by_def room_of_row_def room_of_join_def)
    ultimately have "er_event_id r \<in> set (foreign_ids k db ((e, ev) # ds))" by (intro foreignI)
    then show ?thesis using ids(1) \<open>started_by r j\<close> by (metis started_by_def)
  qed
  then show ?thesis using ids foreignI unfolding unshared_def by metis
qed

lemma join_effect_ids:
  "j' \<in> set (join_effect ts e ev js) \<Longrightarrow>
   (\<exists>j \<in> set js. jr_join_id j = jr_join_id j' \<and> room_of_join j = room_of_join j') \<or>
   jr_join_id j' = en_uuid e \<and> room_of_join j' = room_of_event ev"
  by (auto simp: join_effect_def close_joins_def split: if_splits)

lemma foreign_step:
  assumes "RecordEvent ts e db ev = (db', w)"
  shows "set (foreign_ids k db' ds) \<subseteq> set (foreign_ids k db ((e, ev) # ds))"
    "set (foreign_uuids k db' ds) \<subseteq> set (foreign_uuids k db ((e, ev) # ds))"
proof -
  obtain res err where w: "w = (res, err)" by (cases w)
  have st: "db' = db \<or> db' = stored_db ts e ev db" by (rule RecordEvent_cases [OF assms [unfolded w]]) simp_all
  then show "set (foreign_ids k db' ds) \<subseteq> set (foreign_ids k db ((e, ev) # ds))"
    by (auto simp: foreign_ids_def)
  have new: "jr_join_id j \<in> set (foreign_uuids k db ((e, ev) # ds))"
    if "j \<in> set (join_effect ts e ev (db_participant_join db))" "room_of_join j \<noteq> k" for j
    using join_effect_ids [OF that(1)] that(2)
  proof (elim disjE bexE conjE)
    fix i
    assume "i \<in> set (db_participant_join db)" "jr_join_id i = jr_join_id j" "room_of_join i = room_of_join j"
    then show ?thesis using that(2) foreignI(2) by metis
  qed (auto simp: foreign_uuids_def)
  show "set (foreign_uuids k db' ds) \<subseteq> set (foreign_uuids k db ((e, ev) # ds))"
  proof
    fix x
    assume "x \<in> set (foreign_uuids k db' ds)"
    then consider j where "j \<in> set (db_participant_join db')" "room_of_join j \<noteq> k" "x = jr_join_id j"
      | d where "d \<in> set ds" "room_of_event (snd d) \<noteq> k" "x = en_uuid (fst d)"
      by (auto simp: foreign_uuids_def)
    then show "x \<in> set (foreign_uuids k db ((e, ev) # ds))"
    proof cases
      case 1
      then show ?thesis using st new [of j] foreignI(2) [of j db k] by (elim disjE) simp_all
    qed (simp add: foreign_uuids_def)
  qed
qed

interpretation room: projection "RecordEvent ts" "room_view k" "\<lambda>d. room_of_event (snd d) = k"
    "\<lambda>db ds. db_inv db \<and> rooms_apart k db ds" for ts k
proof
  fix db e ev ds
  assume inv: "db_inv db \<and> rooms_apart k db ((e, ev) # ds)"
  obtain db' w where eq: "RecordEvent ts e db ev = (db', w)" by (cases "RecordEvent ts e db ev")
  have "rooms_apart k db' ds"
    using inv foreign_step [OF eq, of k ds] by (fastforce simp: rooms_apart_def)
  then show "db_inv (fst (RecordEvent ts e db ev)) \<and> rooms_apart k (fst (RecordEvent ts e db ev)) ds"
    using inv RecordEvent_inv by (simp add: eq [symmetric]) (simp add: eq)
  show "RecordEvent ts e (room_view k db) ev = map_prod (room_view k) id (RecordEvent ts e db ev)"
    if "room_of_event (snd (e, ev)) = k"
    using that inv RecordEvent_view unshared_apart by (metis snd_conv)
  show "room_view k (fst (RecordEvent ts e db ev)) = room_view k db" if "room_of_event (snd (e, ev)) \<noteq> k"
    using that inv other_room_view by (metis snd_conv)
qed

text \<open>The sessions of a participant are read off the view of the room.\<close>

lemma sessions_of_view:
  "sessions_of ord lo hi t (room_view (b, r) db) (b, r, i) = sessions_of ord lo hi t db (b, r, i)"
proof -
  have "filter (\<lambda>j. key_of j = (b, r, i)) (filter (overlaps lo hi) (filter (\<lambda>j. room_of_join j = (b, r)) js)) =
      filter (\<lambda>j. key_of j = (b, r, i)) (filter (overlaps lo hi) js)" for js
    by (auto simp: key_of_def room_of_join_def intro: filter_cong)
  then show ?thesis by (simp add: sessions_of_def)
qed

section \<open>Properties\<close>

text \<open>C21. Rooms are independent. Whatever is delivered to other rooms, in any interleaving and with any faults,
  the rows of a room and what every call for it returned are those of a run that made only the
  room's deliveries on the room's own rows; and so are the sessions of every participant in it, over any window and
  threshold. The hypothesis is that the room shares no event id and no generated id with another.\<close>

theorem rooms_are_independent:
  assumes "db_inv db" "rooms_apart (b, r) db ds" "deliver_all (RecordEvent ts) db ds = (db', rs)"
    and "deliver_all (RecordEvent ts) (room_view (b, r) db) (filter (\<lambda>d. room_of_event (snd d) = (b, r)) ds) = (db1, rs1)"
  shows "db1 = room_view (b, r) db' \<and>
    rs1 = map snd (filter (\<lambda>p. room_of_event (snd (fst p)) = (b, r)) (zip ds rs)) \<and>
    sessions_of ord lo hi t db1 (b, r, i) = sessions_of ord lo hi t db' (b, r, i)"
  using room.deliver_all_view [of db "(b, r)" ds ts] assms sessions_of_view by auto

definition other_room :: "Event \<Rightarrow> Event" where
  "other_room ev = ev\<lparr>ev_RoomName := ''elsewhere''\<rparr>"

definition two_rooms :: "(env \<times> Event) list" where
  "two_rooms =
     [(demo_env ''u3'', other_room (demo_event ''e3'' EventParticipantJoined 3 ''alice'' ''PA_9'')),
      (demo_env ''u4'', demo_event ''e4'' EventParticipantLeft 5 ''alice'' ''PA_1''),
      (demo_env ''u5'', other_room (demo_event ''e5'' EventRoomFinished 6 [] []))]"

theorem rooms_are_independent_witness:
  "\<exists>db' rs. deliver_all (RecordEvent demo_ts) demo_db two_rooms = (db', rs) \<and>
     deliver_all (RecordEvent demo_ts) (room_view (''livekit'', ''room'') demo_db)
       [(demo_env ''u4'', demo_event ''e4'' EventParticipantLeft 5 ''alice'' ''PA_1'')] =
     (room_view (''livekit'', ''room'') db', [rs ! 1])"
proof -
  let ?k = "(''livekit'', ''room'')"
  have apart: "rooms_apart ?k demo_db two_rooms" by code_simp
  have own: "filter (\<lambda>d. room_of_event (snd d) = ?k) two_rooms =
      [(demo_env ''u4'', demo_event ''e4'' EventParticipantLeft 5 ''alice'' ''PA_1'')]" by code_simp
  obtain db' rs where run: "deliver_all (RecordEvent demo_ts) demo_db two_rooms = (db', rs)"
    by (cases "deliver_all (RecordEvent demo_ts) demo_db two_rooms")
  obtain db1 rs1 where alone: "deliver_all (RecordEvent demo_ts) (room_view ?k demo_db) (filter (\<lambda>d. room_of_event (snd d) = ?k) two_rooms) = (db1, rs1)"
    by (cases "deliver_all (RecordEvent demo_ts) (room_view ?k demo_db) (filter (\<lambda>d. room_of_event (snd d) = ?k) two_rooms)")
  have "length rs = 3" using length_deliver_all [of "RecordEvent demo_ts" demo_db two_rooms] run by (simp add: two_rooms_def)
  then obtain x y z where rs: "rs = [x, y, z]" by (auto simp: length_Suc_conv numeral_3_eq_3)
  have "map snd (filter (\<lambda>p. room_of_event (snd (fst p)) = ?k) (zip two_rooms rs)) = [y]"
    by (simp add: rs two_rooms_def other_room_def room_of_event_def demo_event_def BackendLiveKit_def)
  then show ?thesis
    using rooms_are_independent [OF demo_db_inv apart run alone] run alone by (auto simp: own rs)
qed

end
