(* ===== verification/Row_Locks.thy ===== *)
theory Row_Locks
  imports Receiver_Concurrent
begin

text \<open>
  Row locks. An update of \<^verbatim>\<open>participant_join\<close> finds its rows in its snapshot and locks them one at a time, in the
  order in which its plan comes to them; it waits at a row that another transaction has locked and keeps the
  locks it has until its transaction ends, also those of rows whose condition no longer holds. Two closes can so wait for each other, and
  PostgreSQL ends the deadlock by aborting one of them (SQLSTATE 40P01). This layer adds the locks to the
  steps of \<open>Postgres_Concurrent\<close>: the statement itself, with its second look at the condition, is the step
  \<open>Advance\<close> there, taken when all rows are locked; from then on no other transaction can have changed
  them. The order in which a transaction comes to the rows is left open (\<open>order\<close>).
\<close>

section \<open>Locks\<close>

text \<open>Who has locked a row: its owner, at most one.\<close>

type_synonym locks = "string \<Rightarrow> nat option"

datatype lock_move = Statement move | LockRow nat | RowError nat | AbortVictim nat

text \<open>A locked row of an update that started after the event: the update fails at this row.\<close>

definition row_late :: "(Time \<Rightarrow> int) \<Rightarrow> cstate \<Rightarrow> locks \<Rightarrow> nat \<Rightarrow> bool" where
  "row_late ts S L t \<longleftrightarrow>
     (case tx_pc (cs_txs S ! t) of
        AtUpdate sel ids \<Rightarrow>
          \<exists>j \<in> set (db_participant_join (cs_db S)). jr_join_id j \<in> set ids \<and> L (jr_join_id j) = Some t \<and>
            recheck sel (tx_ev (cs_txs S ! t)) j \<and> ts (ev_OccurredAt (tx_ev (cs_txs S ! t))) < jr_started_at j
      | _ \<Rightarrow> False)"

text \<open>The row an update comes to next.\<close>

definition next_row :: "(nat \<Rightarrow> string \<Rightarrow> nat) \<Rightarrow> cstate \<Rightarrow> locks \<Rightarrow> nat \<Rightarrow> string option" where
  "next_row order S L t =
     (case tx_pc (cs_txs S ! t) of
        AtUpdate sel ids \<Rightarrow> find (\<lambda>i. L i \<noteq> Some t) (sort_key (order t) ids)
      | _ \<Rightarrow> None)"

text \<open>For whom a transaction waits, and a transaction that waits, over others, for itself.\<close>

definition waits_for :: "(Time \<Rightarrow> int) \<Rightarrow> (nat \<Rightarrow> string \<Rightarrow> nat) \<Rightarrow> cstate \<Rightarrow> locks \<Rightarrow> nat \<Rightarrow> nat option" where
  "waits_for ts order S L t =
     (if t < length (cs_txs S) \<and> \<not> row_late ts S L t then Option.bind (next_row order S L t) L else None)"

definition deadlocked :: "(Time \<Rightarrow> int) \<Rightarrow> (nat \<Rightarrow> string \<Rightarrow> nat) \<Rightarrow> cstate \<Rightarrow> locks \<Rightarrow> nat \<Rightarrow> bool" where
  "deadlocked ts order S L t \<longleftrightarrow>
     (\<exists>k \<in> {1 .. length (cs_txs S)}. ((\<lambda>u. Option.bind u (waits_for ts order S L)) ^^ k) (Some t) = Some t)"

definition deadlock_error :: db_error where
  "deadlock_error = PgError ''40P01'' [] ''deadlock detected''"

text \<open>The end of a transaction releases its locks.\<close>

definition release :: "cstate \<Rightarrow> locks \<Rightarrow> locks" where
  "release S L i =
     (case L i of None \<Rightarrow> None | Some t \<Rightarrow> if t < length (cs_txs S) \<and> returned (cs_txs S ! t) then None else Some t)"

definition store_step :: "(Time \<Rightarrow> int) \<Rightarrow> move \<Rightarrow> cstate \<Rightarrow> locks \<Rightarrow> (cstate \<times> locks) option" where
  "store_step ts m S L = map_option (\<lambda>S'. (S', release S' L)) (conc_step ts m S)"

fun lock_step :: "(Time \<Rightarrow> int) \<Rightarrow> (nat \<Rightarrow> string \<Rightarrow> nat) \<Rightarrow> lock_move \<Rightarrow> cstate \<times> locks \<Rightarrow> (cstate \<times> locks) option" where
  "lock_step ts order (Statement m) (S, L) =
     (case m of
        Advance t \<Rightarrow> if t < length (cs_txs S) \<and> (row_late ts S L t \<or> next_row order S L t \<noteq> None) then None
                     else store_step ts m S L
      | _ \<Rightarrow> store_step ts m S L)"
| "lock_step ts order (LockRow t) (S, L) =
     (if t < length (cs_txs S) \<and> \<not> row_late ts S L t
      then (case next_row order S L t of
              None \<Rightarrow> None
            | Some i \<Rightarrow> if L i = None then Some (S, L(i := Some t)) else None)
      else None)"
| "lock_step ts order (RowError t) (S, L) =
     (if t < length (cs_txs S) \<and> row_late ts S L t then store_step ts (Fault t range_error) S L else None)"
| "lock_step ts order (AbortVictim t) (S, L) =
     (if deadlocked ts order S L t then store_step ts (Fault t deadlock_error) S L else None)"

fun run_locks :: "(Time \<Rightarrow> int) \<Rightarrow> (nat \<Rightarrow> string \<Rightarrow> nat) \<Rightarrow> lock_move list \<Rightarrow> cstate \<times> locks \<Rightarrow> (cstate \<times> locks) option" where
  "run_locks ts order [] X = Some X"
| "run_locks ts order (m # ms) X =
     (case lock_step ts order m X of None \<Rightarrow> None | Some X' \<Rightarrow> run_locks ts order ms X')"

text \<open>A close of a room and the close of a participant, both of whose joins are open under one SID, come to the two rows in
  opposite orders: each waits for the other.\<close>

definition twin_joins :: "join_row list" where
  "twin_joins = [join_row_of demo_ts (demo_env ''u1'') (demo_event ''e1'' EventParticipantJoined 1 ''alice'' ''PA_1''),
     join_row_of demo_ts (demo_env ''u2'') (demo_event ''e2'' EventParticipantJoined 2 ''alice'' ''PA_1'')]"

definition crossing :: "lock_move list" where
  "crossing = map Statement
      [Begin (demo_env ''u3'') (demo_event ''e3'' EventRoomFinished 5 [] []),
       Begin (demo_env ''u4'') (demo_event ''e4'' EventParticipantLeft 6 ''alice'' ''PA_1''),
       Advance 0, Advance 1, Advance 0, Advance 1] @ [LockRow 0, LockRow 1]"

definition crossing_order :: "nat \<Rightarrow> string \<Rightarrow> nat" where
  "crossing_order t i = (if (t = 0) = (i = ''u1'') then 0 else 1)"

lemma deadlock_arises:
  "map_option (\<lambda>(S, L). (map (waits_for demo_ts crossing_order S L) [0, 1], map (deadlocked demo_ts crossing_order S L) [0, 1],
       lock_step demo_ts crossing_order (LockRow 0) (S, L) = None, lock_step demo_ts crossing_order (Statement (Advance 0)) (S, L) = None))
     (run_locks demo_ts crossing_order crossing (fresh_state (demo_db\<lparr>db_participant_join := twin_joins\<rparr>), \<lambda>i. None)) =
   Some ([Some 1, Some 0], [True, True], True, True)"
  by code_simp


text \<open>What a step is in \<open>Postgres_Concurrent\<close>: a row lock is no step there, and a failed update is a fault.\<close>

fun coarse_lock :: "lock_move \<Rightarrow> move list" where
  "coarse_lock (Statement m) = [m]"
| "coarse_lock (LockRow t) = []"
| "coarse_lock (RowError t) = [Fault t range_error]"
| "coarse_lock (AbortVictim t) = [Fault t deadlock_error]"

lemma store_step_coarse: "store_step ts m S L = Some (S', L') \<Longrightarrow> conc_step ts m S = Some S'"
  by (auto simp: store_step_def simp del: conc_step.simps)

lemma coarse_lock_step:
  assumes "lock_step ts order m (S, L) = Some (S', L')"
  shows "coarse_lock m = [] \<and> S' = S \<or> (\<exists>n. coarse_lock m = [n] \<and> conc_step ts n S = Some S')"
proof (cases m)
  case (Statement n)
  then have "store_step ts n S L = Some (S', L')" using assms by (auto split: move.splits if_splits)
  from store_step_coarse [OF this] show ?thesis using Statement by (auto simp del: conc_step.simps)
next
  case (RowError t)
  then have "store_step ts (Fault t range_error) S L = Some (S', L')" using assms by (simp split: if_splits)
  from store_step_coarse [OF this] show ?thesis using RowError by (auto simp del: conc_step.simps)
next
  case (AbortVictim t)
  then have "store_step ts (Fault t deadlock_error) S L = Some (S', L')" using assms by (simp split: if_splits)
  from store_step_coarse [OF this] show ?thesis using AbortVictim by (auto simp del: conc_step.simps)
qed (use assms in \<open>auto split: if_splits option.splits\<close>)

section \<open>Who holds locks\<close>

definition holding :: "tx \<Rightarrow> bool" where
  "holding x \<longleftrightarrow> (case tx_pc x of AtUpdate sel ids \<Rightarrow> True | AtIdentity \<Rightarrow> True | AtCommit \<Rightarrow> True | _ \<Rightarrow> False)"

definition locks_ok :: "cstate \<times> locks \<Rightarrow> bool" where
  "locks_ok X \<longleftrightarrow> (case X of (S, L) \<Rightarrow>
     (\<forall>i t. L i = Some t \<longrightarrow> t < length (cs_txs S) \<and> holding (cs_txs S ! t)) \<and>
     (\<forall>t < length (cs_txs S). \<forall>i \<in> set (tx_ends (cs_txs S ! t)). L i = Some t))"

lemma locks_okI:
  assumes "\<And>i t. L i = Some t \<Longrightarrow> t < length (cs_txs S) \<and> holding (cs_txs S ! t)"
    and "\<And>t i. t < length (cs_txs S) \<Longrightarrow> i \<in> set (tx_ends (cs_txs S ! t)) \<Longrightarrow> L i = Some t"
  shows "locks_ok (S, L)"
  unfolding locks_ok_def prod.case using assms by blast

lemma locks_okD:
  assumes "locks_ok (S, L)"
  shows "L i = Some t \<Longrightarrow> t < length (cs_txs S)" "L i = Some t \<Longrightarrow> holding (cs_txs S ! t)"
    "t < length (cs_txs S) \<Longrightarrow> i \<in> set (tx_ends (cs_txs S ! t)) \<Longrightarrow> L i = Some t"
  using assms unfolding locks_ok_def prod.case by blast+

lemma holding_active: "holding x \<Longrightarrow> \<not> returned x"
  by (auto simp: holding_def returned_def split: pc.splits)

lemma locks_ok_update:
  assumes "locks_ok (S, L)" "t < length (cs_txs S)" "cs_txs S' = (cs_txs S)[t := x]"
    and "holding (cs_txs S ! t) \<Longrightarrow> holding x \<or> returned x" "\<And>i. i \<in> set (tx_ends x) \<Longrightarrow> L i = Some t \<and> \<not> returned x"
  shows "locks_ok (S', release S' L)"
proof (rule locks_okI)
  fix i u
  assume "release S' L i = Some u"
  then have u: "L i = Some u" "\<not> (u < length (cs_txs S') \<and> returned (cs_txs S' ! u))"
    by (auto simp: release_def split: option.splits if_splits)
  have old: "u < length (cs_txs S)" "holding (cs_txs S ! u)" using locks_okD [OF assms(1)] u(1) by blast+
  show "u < length (cs_txs S') \<and> holding (cs_txs S' ! u)"
    using old u(2) assms(2-4) by (cases "u = t") simp_all
next
  fix u i
  assume u: "u < length (cs_txs S')" "i \<in> set (tx_ends (cs_txs S' ! u))"
  show "release S' L i = Some u"
  proof (cases "u = t")
    case True
    then have "L i = Some t \<and> \<not> returned x" using u(2) assms(2,3,5) by simp
    then show ?thesis using True assms(2,3) by (simp add: release_def)
  next
    case False
    then have "L i = Some u" using locks_okD(3) [OF assms(1)] u assms(3) by simp
    then have "\<not> returned (cs_txs S ! u)" using holding_active locks_okD(2) [OF assms(1)] by blast
    then show ?thesis using \<open>L i = Some u\<close> False assms(3) by (simp add: release_def)
  qed
qed

lemma locks_ok_begin:
  "locks_ok (S, L) \<Longrightarrow> locks_ok (S\<lparr>cs_txs := cs_txs S @ [begin_tx e ev]\<rparr>, L)"
proof (rule locks_okI)
  assume L: "locks_ok (S, L)"
  show "t < length (cs_txs (S\<lparr>cs_txs := cs_txs S @ [begin_tx e ev]\<rparr>)) \<and> holding (cs_txs (S\<lparr>cs_txs := cs_txs S @ [begin_tx e ev]\<rparr>) ! t)"
    if "L i = Some t" for i t
    using locks_okD(1,2) [OF L that] by (simp add: nth_append)
  show "L i = Some t" if "t < length (cs_txs (S\<lparr>cs_txs := cs_txs S @ [begin_tx e ev]\<rparr>))"
      "i \<in> set (tx_ends (cs_txs (S\<lparr>cs_txs := cs_txs S @ [begin_tx e ev]\<rparr>) ! t))" for t i
    using that locks_okD(3) [OF L, of t i] by (auto simp: nth_append begin_tx_def less_Suc_eq split: if_splits)
qed

lemma release_active: "locks_ok (S, L) \<Longrightarrow> release S L = L"
proof
  fix i
  assume L: "locks_ok (S, L)"
  show "release S L i = L i"
  proof (cases "L i")
    case (Some t)
    then show ?thesis using holding_active [OF locks_okD(2) [OF L Some]] by (simp add: release_def)
  qed (simp add: release_def)
qed

lemma advance_holding: "advance ts os db x = Some (db', x') \<Longrightarrow> holding x \<Longrightarrow> holding x' \<or> returned x'"
  by (auto simp: advance_def step_update_def holding_def returned_def return_tx_def Let_def split: pc.splits if_splits)

lemma advance_tx_ends:
  assumes "advance ts os db x = Some (db', x')" "i \<in> set (tx_ends x')"
  shows "(i \<in> set (tx_ends x) \<or> (\<exists>sel ids. tx_pc x = AtUpdate sel ids \<and> i \<in> set ids)) \<and> \<not> returned x'"
  using assms by (auto simp: advance_def step_insert_def step_effect_def step_open_def step_update_def return_tx_def Let_def
      returned_def split: pc.splits if_splits)

lemma next_row_None:
  "next_row order S L t = None \<Longrightarrow> tx_pc (cs_txs S ! t) = AtUpdate sel ids \<Longrightarrow> i \<in> set ids \<Longrightarrow> L i = Some t"
  by (simp add: next_row_def find_None_iff)

lemma next_row_Some: "next_row order S L t = Some i \<Longrightarrow> L i \<noteq> Some t \<and> (\<exists>sel ids. tx_pc (cs_txs S ! t) = AtUpdate sel ids \<and> i \<in> set ids)"
proof -
  assume "next_row order S L t = Some i"
  then obtain sel ids where pc: "tx_pc (cs_txs S ! t) = AtUpdate sel ids"
      and "find (\<lambda>i. L i \<noteq> Some t) (sort_key (order t) ids) = Some i" by (auto simp: next_row_def split: pc.splits)
  then obtain k where "k < length ids" "i = sort_key (order t) ids ! k" "L i \<noteq> Some t" by (auto simp: find_Some_iff)
  moreover from this have "i \<in> set (sort_key (order t) ids)" using nth_mem [of k "sort_key (order t) ids"] by simp
  ultimately show ?thesis using pc by auto
qed

lemma returned_no_ends: "returned (return_tx x res err)" "tx_ends (return_tx x res err) = []"
  by (simp_all add: return_tx_def returned_def)

lemma store_step_locks:
  assumes "locks_ok (S, L)" "store_step ts m S L = Some X"
    and "\<And>t sel ids i. m = Advance t \<Longrightarrow> tx_pc (cs_txs S ! t) = AtUpdate sel ids \<Longrightarrow> i \<in> set ids \<Longrightarrow> L i = Some t"
  shows "locks_ok X"
proof -
  obtain S' where S': "conc_step ts m S = Some S'" "X = (S', release S' L)" using assms(2) by (auto simp: store_step_def)
  show ?thesis
  proof (cases m)
    case (Begin e ev)
    then have "S' = S\<lparr>cs_txs := cs_txs S @ [begin_tx e ev]\<rparr>" using S'(1) by simp
    then show ?thesis using locks_ok_begin [OF assms(1), of e ev] release_active [of S' L] S'(2) by simp
  next
    case (Advance t)
    then obtain db x where t: "t < length (cs_txs S)" "advance ts (others t (cs_txs S)) (cs_db S) (cs_txs S ! t) = Some (db, x)"
        "cs_txs S' = (cs_txs S)[t := x]" using S'(1) by (auto split: if_splits option.splits)
    show ?thesis unfolding S'(2)
    proof (rule locks_ok_update [OF assms(1) t(1,3) advance_holding [OF t(2)]])
      show "L i = Some t \<and> \<not> returned x" if "i \<in> set (tx_ends x)" for i
        using advance_tx_ends [OF t(2) that] assms(3) [OF Advance] locks_okD(3) [OF assms(1) t(1)] by blast
    qed
  next
    case (Fault t err)
    then have "t < length (cs_txs S)" "cs_txs S' = (cs_txs S)[t := return_tx (cs_txs S ! t) (tx_res (cs_txs S ! t)) (Some (fault_error (cs_txs S ! t) err))]"
      using S'(1) by (auto simp: Let_def split: if_splits)
    from locks_ok_update [OF assms(1) this] show ?thesis by (simp add: S'(2) returned_no_ends)
  next
    case (LoseAck t err)
    then have "t < length (cs_txs S)" "cs_txs S' = (cs_txs S)[t := return_tx (cs_txs S ! t) (tx_res (cs_txs S ! t)) (Some (fault_error (cs_txs S ! t) err))]"
      using S'(1) by (auto simp: Let_def split: if_splits)
    from locks_ok_update [OF assms(1) this] show ?thesis by (simp add: S'(2) returned_no_ends)
  next
    case (AddPartition p)
    then have "S' = S\<lparr>cs_db := (cs_db S)\<lparr>db_partitions := db_partitions (cs_db S) @ [p]\<rparr>\<rparr>" using S'(1) by simp
    then have same: "cs_txs S' = cs_txs S" by simp
    have "locks_ok (S', L)" by (rule locks_okI; unfold same; use locks_okD [OF assms(1)] in blast)
    then show ?thesis using release_active S'(2) by simp
  qed
qed

lemma lock_step_ok:
  assumes "locks_ok (S, L)" "lock_step ts order m (S, L) = Some X"
  shows "locks_ok X"
proof (cases m)
  case (Statement n)
  have st: "store_step ts n S L = Some X" using assms(2) Statement by (auto split: move.splits if_splits)
  show ?thesis
  proof (rule store_step_locks [OF assms(1) st])
    fix t sel ids i
    assume n: "n = Advance t" and pc: "tx_pc (cs_txs S ! t) = AtUpdate sel ids" "i \<in> set ids"
    have "t < length (cs_txs S)" using st n by (auto simp: store_step_def split: if_splits)
    then have "next_row order S L t = None" using assms(2) Statement n by (auto split: if_splits)
    from next_row_None [OF this pc] show "L i = Some t" .
  qed
next
  case (LockRow t)
  then obtain i where i: "t < length (cs_txs S)" "next_row order S L t = Some i" "L i = None" "X = (S, L(i := Some t))"
    using assms(2) by (auto split: if_splits option.splits)
  have "holding (cs_txs S ! t)" using next_row_Some [OF i(2)] by (auto simp: holding_def)
  show ?thesis unfolding i(4)
  proof (rule locks_okI)
    show "u < length (cs_txs S) \<and> holding (cs_txs S ! u)" if "(L(i := Some t)) k = Some u" for k u
      using that i(1) \<open>holding (cs_txs S ! t)\<close> locks_okD(1,2) [OF assms(1), of k u] by (cases "k = i") simp_all
    show "(L(i := Some t)) k = Some u" if "u < length (cs_txs S)" "k \<in> set (tx_ends (cs_txs S ! u))" for u k
      using locks_okD(3) [OF assms(1) that] i(3) by auto
  qed
next
  case (RowError t)
  show ?thesis
    by (rule store_step_locks [OF assms(1)]) (use assms(2) RowError in \<open>auto split: if_splits\<close>)
next
  case (AbortVictim t)
  show ?thesis
    by (rule store_step_locks [OF assms(1)]) (use assms(2) AbortVictim in \<open>auto split: if_splits\<close>)
qed

lemma conc_step_joins:
  assumes "conc_step ts n S = Some S'"
  shows "db_participant_join (cs_db S') = db_participant_join (cs_db S) \<or>
    (\<exists>u < length (cs_txs S). returned (cs_txs S' ! u) \<and> cs_db S' = apply_tx ts (cs_txs S ! u) (cs_db S))"
proof (cases n)
  case (Advance u)
  then obtain db x where x: "u < length (cs_txs S)" "advance ts (others u (cs_txs S)) (cs_db S) (cs_txs S ! u) = Some (db, x)"
      "S' = \<lparr>cs_db = db, cs_txs = (cs_txs S)[u := x]\<rparr>" using assms by (auto split: if_splits option.splits)
  then have "db = cs_db S \<or> returned x \<and> db = apply_tx ts (cs_txs S ! u) (cs_db S)"
    by (auto simp: advance_def returned_no_ends split: pc.splits)
  then show ?thesis using x by auto
next
  case (LoseAck u err)
  then have "u < length (cs_txs S)" "cs_db S' = apply_tx ts (cs_txs S ! u) (cs_db S)" "returned (cs_txs S' ! u)"
    using assms by (auto simp: Let_def returned_no_ends split: if_splits)
  then show ?thesis by blast
qed (use assms in \<open>auto simp: Let_def split: if_splits\<close>)

text \<open>A locked row is changed by no other transaction: what an update sees when it has all its locks, it would have seen at
  each row when it locked it.\<close>

lemma locked_row_stays:
  assumes "locks_ok (S, L)" "lock_step ts order m (S, L) = Some (S', L')" "L i = Some t" "\<not> returned (cs_txs S' ! t)"
    and "j \<in> set (db_participant_join (cs_db S))" "jr_join_id j = i"
  shows "j \<in> set (db_participant_join (cs_db S'))"
proof -
  have store: ?thesis if n: "conc_step ts n S = Some S'" for n
    using conc_step_joins [OF n]
  proof
    assume "\<exists>u < length (cs_txs S). returned (cs_txs S' ! u) \<and> cs_db S' = apply_tx ts (cs_txs S ! u) (cs_db S)"
    then obtain u where u: "u < length (cs_txs S)" "returned (cs_txs S' ! u)" "cs_db S' = apply_tx ts (cs_txs S ! u) (cs_db S)" by blast
    then have "i \<notin> set (tx_ends (cs_txs S ! u))" using locks_okD(3) [OF assms(1) u(1), of i] assms(3,4) by auto
    then have "end_row ts (cs_txs S ! u) j = j" by (simp add: end_row_def assms(6))
    then show ?thesis using assms(5) u(3) by (simp add: rev_image_eqI)
  qed (use assms(5) in simp)
  show ?thesis using coarse_lock_step [OF assms(2)] assms(5) store by blast
qed


section \<open>A step, or a deadlock\<close>

lemma finite_cycle:
  assumes "finite U" "U \<noteq> {}" "\<forall>x \<in> U. f x \<in> U"
  shows "\<exists>x \<in> U. \<exists>k \<in> {1 .. card U}. (f ^^ k) x = x"
proof -
  obtain a where a: "a \<in> U" using assms(2) by blast
  have in_U: "(f ^^ n) a \<in> U" for n using a assms(3) by (induction n) auto
  have "\<not> inj_on (\<lambda>n. (f ^^ n) a) {.. card U}"
  proof
    assume "inj_on (\<lambda>n. (f ^^ n) a) {.. card U}"
    then have "card {.. card U} = card ((\<lambda>n. (f ^^ n) a) ` {.. card U})" by (simp add: card_image)
    also have "\<dots> \<le> card U" using in_U by (intro card_mono assms(1)) auto
    finally show False by simp
  qed
  then obtain m n where mn: "m < n" "n \<le> card U" "(f ^^ m) a = (f ^^ n) a"
    unfolding inj_on_def by (metis atMost_iff linorder_neqE_nat)
  have "(f ^^ (n - m)) ((f ^^ m) a) = (f ^^ n) a" using mn(1) by (simp flip: funpow_add comp_apply [of "f ^^ (n - m)"])
  then show ?thesis using mn in_U [of m] by (intro bexI [of _ "(f ^^ m) a"] bexI [of _ "n - m"]) auto
qed

definition updating :: "cstate \<Rightarrow> nat set" where
  "updating S = {t. t < length (cs_txs S) \<and> (\<exists>sel ids. tx_pc (cs_txs S ! t) = AtUpdate sel ids)}"

lemma waiting_cycle:
  assumes "updating S \<noteq> {}" "\<forall>t \<in> updating S. \<exists>u \<in> updating S. waits_for ts order S L t = Some u"
  shows "\<exists>t \<in> updating S. deadlocked ts order S L t"
proof -
  let ?f = "\<lambda>t. the (waits_for ts order S L t)" and ?g = "\<lambda>u. Option.bind u (waits_for ts order S L)"
  have sub: "updating S \<subseteq> {..< length (cs_txs S)}" by (auto simp: updating_def)
  then have fin: "finite (updating S)" by (rule finite_subset) simp
  have card: "card (updating S) \<le> length (cs_txs S)" using card_mono [OF _ sub] by simp
  have next_in: "\<forall>t \<in> updating S. ?f t \<in> updating S" using assms(2) by force
  from finite_cycle [OF fin assms(1) this] obtain t k where t: "t \<in> updating S" "k \<in> {1 .. card (updating S)}" "(?f ^^ k) t = t" by blast
  have "(?f ^^ n) t \<in> updating S \<and> (?g ^^ n) (Some t) = Some ((?f ^^ n) t)" for n
  proof (induction n)
    case (Suc n)
    then show ?case using assms(2) next_in by force
  qed (use t(1) in simp)
  then have "(?g ^^ k) (Some t) = Some t" using t(3) by simp
  moreover have "k \<in> {1 .. length (cs_txs S)}" using t(2) card by simp
  ultimately show ?thesis using t(1) unfolding deadlocked_def by blast
qed

text \<open>A step that a transaction takes by itself: a statement, a row lock, an error at a row, or the end as a victim.\<close>

fun own_step :: "lock_move \<Rightarrow> bool" where
  "own_step (Statement (Advance t)) \<longleftrightarrow> True"
| "own_step (Statement _) \<longleftrightarrow> False"
| "own_step _ \<longleftrightarrow> True"

fun aborts :: "lock_move \<Rightarrow> bool" where
  "aborts (AbortVictim t) \<longleftrightarrow> True"
| "aborts _ \<longleftrightarrow> False"

lemma locked_progress:
  assumes "conc_inv ts S" "locks_ok (S, L)" "t < length (cs_txs S)" "\<not> returned (cs_txs S ! t)"
  shows "(\<exists>m X. own_step m \<and> \<not> aborts m \<and> lock_step ts order m (S, L) = Some X) \<or>
    (\<exists>u \<in> updating S. deadlocked ts order S L u)"
proof (rule disjCI)
  let ?goal = "\<exists>m X. own_step m \<and> \<not> aborts m \<and> lock_step ts order m (S, L) = Some X"
  assume no_deadlock: "\<not> (\<exists>u \<in> updating S. deadlocked ts order S L u)"
  have fire: ?goal if "conc_step ts (Advance u) S \<noteq> None" "\<not> row_late ts S L u" "next_row order S L u = None" for u
    using that by (intro exI [of _ "Statement (Advance u)"]) (auto simp: store_step_def simp del: conc_step.simps)
  have idle: ?goal if "conc_step ts (Advance u) S \<noteq> None" "u \<notin> updating S" for u
  proof -
    have "u < length (cs_txs S)" using that(1) by (auto split: if_splits)
    then have "\<nexists>sel ids. tx_pc (cs_txs S ! u) = AtUpdate sel ids" using that(2) by (auto simp: updating_def)
    then have "\<not> row_late ts S L u" "next_row order S L u = None" by (auto simp: row_late_def next_row_def split: pc.splits)
    then show ?goal by (rule fire [OF that(1)])
  qed
  show ?goal
  proof (cases "updating S = {}")
    case True
    from waits_for_committing [OF assms(1,3,4)] obtain k where "conc_step ts (Advance k) S \<noteq> None" by blast
    then show ?goal using idle True by blast
  next
    case False
    then obtain u where u: "u \<in> updating S" "\<nexists>v. v \<in> updating S \<and> waits_for ts order S L u = Some v"
      using waiting_cycle no_deadlock by metis
    then obtain sel ids where len: "u < length (cs_txs S)" and pc: "tx_pc (cs_txs S ! u) = AtUpdate sel ids"
      by (auto simp: updating_def)
    show ?goal
    proof (cases "row_late ts S L u")
      case True
      have "can_fault (cs_txs S ! u)" using pc by (simp add: can_fault_def returned_def)
      then show ?goal
        using True len by (intro exI [of _ "RowError u"]) (simp add: store_step_def Let_def)
    next
      case ontime: False
      show ?goal
      proof (cases "next_row order S L u")
        case (Some i)
        show ?goal
        proof (cases "L i")
          case None
          then show ?goal using Some ontime len by (intro exI [of _ "LockRow u"]) simp
        next
          case (Some v)
          have w: "waits_for ts order S L u = Some v" using \<open>next_row order S L u = Some i\<close> Some ontime len by (simp add: waits_for_def)
          have v: "v < length (cs_txs S)" "holding (cs_txs S ! v)" using locks_okD(1,2) [OF assms(2) Some] by blast+
          then have "tx_pc (cs_txs S ! v) = AtIdentity \<or> tx_pc (cs_txs S ! v) = AtCommit"
            using u(2) w by (auto simp: updating_def holding_def split: pc.splits)
          then have "conc_step ts (Advance v) S \<noteq> None" "v \<notin> updating S"
            using v(1) by (auto simp: advance_def updating_def)
          then show ?goal by (rule idle)
        qed
      next
        case None
        have "\<forall>i \<in> set ids. i \<notin> set (locked (others u (cs_txs S)))"
        proof (intro ballI notI)
          fix i
          assume i: "i \<in> set ids" "i \<in> set (locked (others u (cs_txs S)))"
          then obtain v where "v < length (cs_txs S)" "v \<noteq> u" "i \<in> set (tx_ends (cs_txs S ! v))"
            by (auto simp: locked_def others_nth)
          then show False using locks_okD(3) [OF assms(2)] next_row_None [OF None pc i(1)] by auto
        qed
        then have "step_update ts (others u (cs_txs S)) (cs_db S) (cs_txs S ! u) sel ids \<noteq> None"
          by (auto simp: step_update_def Let_def)
        then have "conc_step ts (Advance u) S \<noteq> None" using len pc by (auto simp: advance_def split: option.splits)
        then show ?goal by (rule fire [OF _ ontime None])
      qed
    qed
  qed
qed


section \<open>The receiver over row locks\<close>

record locked_receiver =
  lr_receiver :: receiver
  lr_locks :: locks

datatype locked_move = Handler receiver_move | Locks lock_move

fun of_store :: "receiver_move \<Rightarrow> bool" where
  "of_store (StoreStep m) \<longleftrightarrow> True"
| "of_store _ \<longleftrightarrow> False"

fun starts_tx :: "lock_move \<Rightarrow> bool" where
  "starts_tx (Statement m) \<longleftrightarrow> begins m"
| "starts_tx _ \<longleftrightarrow> False"

fun locked_receiver_step ::
    "'u deps \<Rightarrow> jwt_parse \<Rightarrow> (Time \<Rightarrow> int) \<Rightarrow> (nat \<Rightarrow> string \<Rightarrow> nat) \<Rightarrow> LiveKitHandler \<Rightarrow> locked_move \<Rightarrow> locked_receiver \<Rightarrow>
     locked_receiver option" where
  "locked_receiver_step d parse ts order h (Handler m) X =
     (if of_store m then None
      else map_option (\<lambda>R. X\<lparr>lr_receiver := R\<rparr>) (receiver_step d parse ts h m (lr_receiver X)))"
| "locked_receiver_step d parse ts order h (Locks n) X =
     (if starts_tx n then None
      else map_option (\<lambda>(S, L). \<lparr>lr_receiver = (lr_receiver X)\<lparr>rv_store := S\<rparr>, lr_locks = L\<rparr>)
        (lock_step ts order n (rv_store (lr_receiver X), lr_locks X)))"

fun run_locked ::
    "'u deps \<Rightarrow> jwt_parse \<Rightarrow> (Time \<Rightarrow> int) \<Rightarrow> (nat \<Rightarrow> string \<Rightarrow> nat) \<Rightarrow> LiveKitHandler \<Rightarrow> locked_move list \<Rightarrow> locked_receiver \<Rightarrow>
     locked_receiver option" where
  "run_locked d parse ts order h [] X = Some X"
| "run_locked d parse ts order h (m # ms) X =
     (case locked_receiver_step d parse ts order h m X of None \<Rightarrow> None | Some X' \<Rightarrow> run_locked d parse ts order h ms X')"

definition idle_locked :: "database \<Rightarrow> locked_receiver" where
  "idle_locked db = \<lparr>lr_receiver = idle_receiver db, lr_locks = (\<lambda>i. None)\<rparr>"

text \<open>The same run without the row locks.\<close>

fun coarse :: "locked_move \<Rightarrow> receiver_move list" where
  "coarse (Handler m) = [m]"
| "coarse (Locks n) = map StoreStep (coarse_lock n)"

lemma run_receiver_append:
  "run_receiver d parse ts h (ms @ ns) R =
     (case run_receiver d parse ts h ms R of None \<Rightarrow> None | Some R' \<Rightarrow> run_receiver d parse ts h ns R')"
  by (induction ms arbitrary: R) (auto split: option.splits)

lemma locked_step_coarse:
  assumes "locked_receiver_step d parse ts order h m X = Some X'"
  shows "run_receiver d parse ts h (coarse m) (lr_receiver X) = Some (lr_receiver X')"
proof (cases m)
  case (Handler n)
  then show ?thesis using assms by (auto split: if_splits)
next
  case (Locks n)
  then obtain S L where S: "lock_step ts order n (rv_store (lr_receiver X), lr_locks X) = Some (S, L)" "\<not> starts_tx n"
      "X' = \<lparr>lr_receiver = (lr_receiver X)\<lparr>rv_store := S\<rparr>, lr_locks = L\<rparr>"
    using assms by (auto split: if_splits)
  have "\<not> begins k" if "k \<in> set (coarse_lock n)" for k
    using that S(2) by (cases n) auto
  then show ?thesis using coarse_lock_step [OF S(1)] Locks S(3) by (auto simp del: conc_step.simps)
qed

lemma run_locked_coarse:
  "run_locked d parse ts order h ms X = Some X' \<Longrightarrow>
   run_receiver d parse ts h (concat (map coarse ms)) (lr_receiver X) = Some (lr_receiver X')"
proof (induction ms arbitrary: X)
  case (Cons m ms)
  then obtain X1 where X1: "locked_receiver_step d parse ts order h m X = Some X1" "run_locked d parse ts order h ms X1 = Some X'"
    by (auto split: option.splits)
  then show ?case using locked_step_coarse [OF X1(1)] Cons.IH [OF X1(2)] by (simp add: run_receiver_append)
qed simp

section \<open>The invariant\<close>

text \<open>An update selects no more rows than there are.\<close>

definition ids_of :: "tx \<Rightarrow> string list" where
  "ids_of x = (case tx_pc x of AtUpdate sel ids \<Rightarrow> ids | _ \<Rightarrow> [])"

definition snapshots_fit :: "cstate \<Rightarrow> bool" where
  "snapshots_fit S \<longleftrightarrow> (\<forall>x \<in> set (cs_txs S). length (ids_of x) \<le> length (db_participant_join (cs_db S)))"

lemma snapshots_fitI:
  assumes "snapshots_fit S" "length (db_participant_join (cs_db S)) \<le> length (db_participant_join (cs_db S'))"
    and "cs_txs S' = (cs_txs S)[t := x]" "length (ids_of x) \<le> length (db_participant_join (cs_db S))"
  shows "snapshots_fit S'"
proof -
  have "length (ids_of y) \<le> length (db_participant_join (cs_db S))" if "y \<in> set ((cs_txs S)[t := x])" for y
    using set_update_cases [OF that] assms(1,4) by (auto simp: snapshots_fit_def)
  then show ?thesis using assms(2,3) by (auto simp: snapshots_fit_def intro: order_trans)
qed

lemma ids_of_return [simp]: "ids_of (return_tx x res err) = []" "ids_of (begin_tx e ev) = []"
  by (simp_all add: ids_of_def return_tx_def begin_tx_def)

lemma advance_ids:
  assumes "advance ts os db x = Some (db', x')"
  shows "length (ids_of x') \<le> length (db_participant_join db)"
proof (cases "tx_pc x = AtIdentity")
  case True
  have "snapshot_identity x db = [] \<or> db_participant_join db \<noteq> []"
    by (auto simp: snapshot_identity_def latest_open_def split: option.splits)
  then have "length (snapshot_identity x db) \<le> length (db_participant_join db)"
    by (auto simp: snapshot_identity_def Suc_le_eq split: option.splits)
  then show ?thesis using assms True by (auto simp: advance_def ids_of_def)
next
  case False
  then show ?thesis
    using assms by (auto simp: advance_def step_insert_def step_effect_def step_open_def step_update_def Let_def snapshot_def
        ids_of_def return_tx_def split: pc.splits if_splits)
qed

lemma conc_step_joins_length:
  assumes "conc_step ts n S = Some S'"
  shows "length (db_participant_join (cs_db S)) \<le> length (db_participant_join (cs_db S'))"
  using conc_step_joins [OF assms] by auto

lemma conc_step_fit:
  assumes "conc_step ts n S = Some S'" "snapshots_fit S"
  shows "snapshots_fit S'"
proof (cases n)
  case (Advance t)
  then obtain db x where x: "advance ts (others t (cs_txs S)) (cs_db S) (cs_txs S ! t) = Some (db, x)"
      "S' = \<lparr>cs_db = db, cs_txs = (cs_txs S)[t := x]\<rparr>" using assms(1) by (auto split: if_splits option.splits)
  show ?thesis
    by (rule snapshots_fitI [OF assms(2) conc_step_joins_length [OF assms(1)] _ advance_ids [OF x(1)]]) (simp add: x(2))
next
  case (Fault t err)
  show ?thesis
    by (rule snapshots_fitI [OF assms(2) conc_step_joins_length [OF assms(1)],
          where t = t and x = "return_tx (cs_txs S ! t) (tx_res (cs_txs S ! t)) (Some (fault_error (cs_txs S ! t) err))"])
       (use assms(1) Fault in \<open>auto simp: Let_def split: if_splits\<close>)
next
  case (LoseAck t err)
  show ?thesis
    by (rule snapshots_fitI [OF assms(2) conc_step_joins_length [OF assms(1)],
          where t = t and x = "return_tx (cs_txs S ! t) (tx_res (cs_txs S ! t)) (Some (fault_error (cs_txs S ! t) err))"])
       (use assms(1) LoseAck in \<open>auto simp: Let_def split: if_splits\<close>)
qed (use assms in \<open>auto simp: snapshots_fit_def\<close>)

lemma run_schedule_fit: "run_schedule ts ns S = Some S' \<Longrightarrow> snapshots_fit S \<Longrightarrow> snapshots_fit S'"
  by (induction ns arbitrary: S) (auto simp del: conc_step.simps split: option.splits dest: conc_step_fit)

definition locked_inv :: "'u deps \<Rightarrow> jwt_parse \<Rightarrow> (Time \<Rightarrow> int) \<Rightarrow> LiveKitHandler \<Rightarrow> locked_receiver \<Rightarrow> bool" where
  "locked_inv d parse ts h X \<longleftrightarrow>
     receiver_inv d parse h (lr_receiver X) \<and> conc_inv ts (rv_store (lr_receiver X)) \<and>
     snapshots_fit (rv_store (lr_receiver X)) \<and> locks_ok (rv_store (lr_receiver X), lr_locks X)"

lemma handler_step_locks:
  assumes "receiver_step d parse ts h m R = Some R'" "\<not> of_store m" "locks_ok (rv_store R, L)"
  shows "locks_ok (rv_store R', L)"
proof (cases m)
  case (Proceed i)
  let ?x = "rv_handlers R ! i"
  obtain S' x' where pr: "proceed d parse h (rv_store R) ?x = (S', x')" by (cases "proceed d parse h (rv_store R) ?x")
  then have i: "hn_pc ?x = Arrived" "rv_store R' = S'" using assms(1) Proceed by (auto split: if_splits)
  from proceed_ok(2) [OF pr i(1)] show ?thesis
  proof (elim disjE exE conjE)
    fix e ev
    assume "cs_db S' = cs_db (rv_store R)" "cs_txs S' = cs_txs (rv_store R) @ [begin_tx e ev]"
    then have "S' = (rv_store R)\<lparr>cs_txs := cs_txs (rv_store R) @ [begin_tx e ev]\<rparr>" by simp
    then show ?thesis using locks_ok_begin [OF assms(3)] i(2) by simp
  qed (use assms(3) i(2) in simp)
qed (use assms in \<open>auto split: if_splits\<close>)

lemma locked_step_inv:
  assumes "locked_receiver_step d parse ts order h m X = Some X'" "locked_inv d parse ts h X"
  shows "locked_inv d parse ts h X'"
proof -
  note run = locked_step_coarse [OF assms(1)]
  have inv: "receiver_inv d parse h (lr_receiver X)" "conc_inv ts (rv_store (lr_receiver X))"
      "snapshots_fit (rv_store (lr_receiver X))" "locks_ok (rv_store (lr_receiver X), lr_locks X)"
    using assms(2) by (simp_all add: locked_inv_def)
  have "locks_ok (rv_store (lr_receiver X'), lr_locks X')"
  proof (cases m)
    case (Handler n)
    then show ?thesis using assms(1) handler_step_locks [OF _ _ inv(4)] by (auto split: if_splits)
  next
    case (Locks n)
    then show ?thesis using assms(1) lock_step_ok [OF inv(4)] by (auto split: if_splits)
  qed
  then show ?thesis
    using run_receiver_inv [OF run inv(1)] run_schedule_inv [OF run_receiver_store [OF run] inv(2)]
      run_schedule_fit [OF run_receiver_store [OF run] inv(3)] by (simp add: locked_inv_def)
qed

lemma run_locked_inv:
  "run_locked d parse ts order h ms X = Some X' \<Longrightarrow> locked_inv d parse ts h X \<Longrightarrow> locked_inv d parse ts h X'"
  by (induction ms arbitrary: X) (auto simp del: locked_receiver_step.simps split: option.splits dest: locked_step_inv)

lemma idle_locked_inv: "db_inv db \<Longrightarrow> locked_inv d parse ts h (idle_locked db)"
  by (auto simp: locked_inv_def idle_locked_def idle_receiver_def fresh_state_def receiver_inv_def conc_inv_defs
      snapshots_fit_def locks_ok_def List.map_filter_def)

section \<open>Every request is answered, or a deadlock is broken\<close>

fun own_move :: "locked_move \<Rightarrow> bool" where
  "own_move (Handler (Proceed i)) \<longleftrightarrow> True"
| "own_move (Handler (Respond i)) \<longleftrightarrow> True"
| "own_move (Handler _) \<longleftrightarrow> False"
| "own_move (Locks n) \<longleftrightarrow> own_step n"

fun locks_row :: "locked_move \<Rightarrow> bool" where
  "locks_row (Locks (LockRow t)) \<longleftrightarrow> True"
| "locks_row _ \<longleftrightarrow> False"

fun kills :: "locked_move \<Rightarrow> bool" where
  "kills (Locks n) \<longleftrightarrow> aborts n"
| "kills _ \<longleftrightarrow> False"

text \<open>The row locks still to be taken by the updates in progress.\<close>

definition lock_left :: "cstate \<Rightarrow> locks \<Rightarrow> nat" where
  "lock_left S L = (\<Sum>t < length (cs_txs S). length (filter (\<lambda>i. L i \<noteq> Some t) (ids_of (cs_txs S ! t))))"

lemma lock_left_le:
  assumes "snapshots_fit S"
  shows "lock_left S L \<le> length (cs_txs S) * length (db_participant_join (cs_db S))"
proof -
  have "length (filter (\<lambda>i. L i \<noteq> Some t) (ids_of (cs_txs S ! t))) \<le> length (db_participant_join (cs_db S))"
    if "t < length (cs_txs S)" for t
    using assms that length_filter_le order_trans unfolding snapshots_fit_def by (metis nth_mem)
  then have "lock_left S L \<le> (\<Sum>t < length (cs_txs S). length (db_participant_join (cs_db S)))"
    unfolding lock_left_def by (intro sum_mono) simp
  then show ?thesis by simp
qed

lemma length_filter_less:
  "(\<And>x. x \<in> set xs \<Longrightarrow> Q x \<Longrightarrow> P x) \<Longrightarrow> y \<in> set xs \<Longrightarrow> P y \<Longrightarrow> \<not> Q y \<Longrightarrow> length (filter Q xs) < length (filter P xs)"
proof (induction xs)
  case (Cons x xs)
  have le: "length (filter Q xs) \<le> length (filter P xs)"
    using Cons.prems(1) by (induction xs) (auto intro: le_SucI)
  show ?case
  proof (cases "y = x")
    case True
    then show ?thesis using Cons.prems(3,4) le by simp
  next
    case False
    then have "length (filter Q xs) < length (filter P xs)" using Cons by simp
    then show ?thesis using Cons.prems(1) [of x] by auto
  qed
qed simp

lemma lock_left_less:
  assumes "lock_step ts order (LockRow t) (S, L) = Some (S', L')"
  shows "S' = S" "lock_left S L' < lock_left S L"
proof -
  obtain i where i: "t < length (cs_txs S)" "next_row order S L t = Some i" "L i = None" "S' = S" "L' = L(i := Some t)"
    using assms by (auto split: if_splits option.splits)
  let ?left = "\<lambda>L u. length (filter (\<lambda>i. L i \<noteq> Some u) (ids_of (cs_txs S ! u)))"
  have "i \<in> set (ids_of (cs_txs S ! t))" using next_row_Some [OF i(2)] by (auto simp: ids_of_def)
  then have "?left L' t < ?left L t" by (intro length_filter_less [where y = i]) (auto simp: i(3,5) split: if_splits)
  moreover have "?left L' u \<le> ?left L u" for u
  proof (cases "u = t")
    case False
    then have "?left L' u = ?left L u" using i(3) by (intro arg_cong [where f = length] filter_cong) (auto simp: i(5))
    then show ?thesis by simp
  qed (use \<open>?left L' t < ?left L t\<close> in simp)
  ultimately show "lock_left S L' < lock_left S L"
    unfolding lock_left_def using i(1) by (intro sum_strict_mono_ex1) auto
qed (use assms in \<open>auto split: if_splits option.splits\<close>)

lemma end_work:
  assumes "conc_step ts n S = Some S'" "n = Advance t \<or> n = Fault t err"
  shows "work S' < work S"
  using assms(2)
proof
  assume n: "n = Fault t err"
  let ?x = "cs_txs S ! t"
  have t: "t < length (cs_txs S)" "\<not> returned ?x"
      "S' = S\<lparr>cs_txs := (cs_txs S)[t := return_tx ?x (tx_res ?x) (Some (fault_error ?x err))]\<rparr>"
    using assms(1) n by (auto simp: can_fault_def Let_def split: if_splits)
  have "rank (return_tx ?x (tx_res ?x) (Some (fault_error ?x err))) < rank ?x"
    using t(2) rank_0 [of ?x] by simp
  then show ?thesis by (simp add: work_def t(3) sum_list_update_less t(1))
qed (use assms(1) advance_work in blast)

lemma conc_step_joins_one:
  assumes "conc_step ts n S = Some S'"
  shows "length (db_participant_join (cs_db S')) \<le> Suc (length (db_participant_join (cs_db S)))"
  using conc_step_joins [OF assms] by (auto simp: apply_tx_def split: option.splits)

definition joins_of :: "locked_receiver \<Rightarrow> nat" where
  "joins_of X = length (db_participant_join (cs_db (rv_store (lr_receiver X))))"

lemma handler_joins:
  "receiver_step d parse ts h m R = Some R' \<Longrightarrow> \<not> of_store m \<Longrightarrow> cs_db (rv_store R') = cs_db (rv_store R)"
  by (cases m) (auto simp: proceed_def Let_def split: if_splits prod.splits fate.splits option.splits)

lemma own_move_step:
  assumes "locked_receiver_step d parse ts order h m X = Some X'" "own_move m" "\<not> locks_row m"
  shows "receiver_work (lr_receiver X') < receiver_work (lr_receiver X) \<and>
    joins_of X' \<le> Suc (joins_of X) \<and> length (rv_handlers (lr_receiver X')) = length (rv_handlers (lr_receiver X))"
proof (cases m)
  case (Handler n)
  then have n: "receiver_step d parse ts h n (lr_receiver X) = Some (lr_receiver X')" "\<not> of_store n" "fault_free n"
    using assms(1,2) by (cases n; auto split: if_splits)+
  show ?thesis using fault_free_step [OF n(1,3)] handler_joins [OF n(1,2)] by (simp add: joins_of_def)
next
  case (Locks n)
  then obtain S L where S: "lock_step ts order n (rv_store (lr_receiver X), lr_locks X) = Some (S, L)"
      "X' = \<lparr>lr_receiver = (lr_receiver X)\<lparr>rv_store := S\<rparr>, lr_locks = L\<rparr>"
    using assms(1) by (auto split: if_splits)
  obtain k t err where k: "coarse_lock n = [k]" "k = Advance t \<or> k = Fault t err"
    using assms(2,3) Locks by (cases n rule: own_step.cases) auto
  then have "conc_step ts k (rv_store (lr_receiver X)) = Some S"
    using coarse_lock_step [OF S(1)] by (auto simp del: conc_step.simps)
  from end_work [OF this k(2)] conc_step_joins_one [OF this] show ?thesis
    by (simp add: S(2) joins_of_def receiver_work_def)
qed

lemma lock_row_step:
  assumes "locked_receiver_step d parse ts order h m X = Some X'" "locks_row m"
  shows "lr_receiver X' = lr_receiver X"
    "lock_left (rv_store (lr_receiver X)) (lr_locks X') < lock_left (rv_store (lr_receiver X)) (lr_locks X)"
proof -
  obtain t where m: "m = Locks (LockRow t)" using assms(2) by (cases m rule: locks_row.cases) auto
  obtain S L where S: "lock_step ts order (LockRow t) (rv_store (lr_receiver X), lr_locks X) = Some (S, L)"
      "X' = \<lparr>lr_receiver = (lr_receiver X)\<lparr>rv_store := S\<rparr>, lr_locks = L\<rparr>"
    using assms(1) unfolding m by (auto simp del: lock_step.simps)
  from lock_left_less [OF S(1)] S(2) show "lr_receiver X' = lr_receiver X"
    "lock_left (rv_store (lr_receiver X)) (lr_locks X') < lock_left (rv_store (lr_receiver X)) (lr_locks X)" by simp_all
qed

lemma receiver_txs_le: "receiver_inv d parse h R \<Longrightarrow> length (cs_txs (rv_store R)) \<le> length (rv_handlers R)"
proof -
  assume "receiver_inv d parse h R"
  then have "length (List.map_filter tx_of (rv_handlers R)) = length (cs_txs (rv_store R))" by (rule receiver_txs)
  moreover have "length (List.map_filter tx_of xs) \<le> length xs" for xs
    by (simp add: List.map_filter_def)
  ultimately show ?thesis by metis
qed

text \<open>What a run of own steps can still cost: no run of them is longer.\<close>

definition locked_cost :: "nat \<Rightarrow> locked_receiver \<Rightarrow> nat" where
  "locked_cost b X = receiver_work (lr_receiver X) * Suc b + lock_left (rv_store (lr_receiver X)) (lr_locks X)"

lemma lock_left_bound:
  assumes "locked_inv d parse ts h X" "length (rv_handlers (lr_receiver X)) = n" "joins_of X \<le> c"
  shows "lock_left (rv_store (lr_receiver X)) (lr_locks X) \<le> n * c"
proof -
  have "lock_left (rv_store (lr_receiver X)) (lr_locks X) \<le> length (cs_txs (rv_store (lr_receiver X))) * joins_of X"
    using lock_left_le assms(1) unfolding locked_inv_def joins_of_def by blast
  also have "\<dots> \<le> n * c"
    using receiver_txs_le assms unfolding locked_inv_def by (metis mult_le_mono)
  finally show ?thesis .
qed

lemma own_run_cost:
  "run_locked d parse ts order h ms X = Some X' \<Longrightarrow> \<forall>m \<in> set ms. own_move m \<Longrightarrow> locked_inv d parse ts h X \<Longrightarrow>
   length (rv_handlers (lr_receiver X)) = n \<Longrightarrow> joins_of X + receiver_work (lr_receiver X) \<le> c \<Longrightarrow>
   length ms + locked_cost (n * c) X' \<le> locked_cost (n * c) X \<and>
   length (filter (\<lambda>m. \<not> locks_row m) ms) + receiver_work (lr_receiver X') \<le> receiver_work (lr_receiver X)"
proof (induction ms arbitrary: X)
  case (Cons m ms)
  then obtain X1 where X1: "locked_receiver_step d parse ts order h m X = Some X1" "run_locked d parse ts order h ms X1 = Some X'"
    by (auto split: option.splits)
  note inv1 = locked_step_inv [OF X1(1) Cons.prems(3)]
  have "length (rv_handlers (lr_receiver X1)) = n \<and> joins_of X1 + receiver_work (lr_receiver X1) \<le> c \<and>
      locked_cost (n * c) X1 < locked_cost (n * c) X \<and>
      (if locks_row m then 0 else 1) + receiver_work (lr_receiver X1) \<le> receiver_work (lr_receiver X)"
  proof (cases "locks_row m")
    case True
    note l = lock_row_step [OF X1(1) True]
    have "joins_of X1 = joins_of X" by (simp add: joins_of_def l(1))
    then show ?thesis using l Cons.prems(4,5) True by (simp add: locked_cost_def)
  next
    case False
    have m: "own_move m" using Cons.prems(2) by simp
    note o1 = own_move_step [OF X1(1) m False]
    then have c: "joins_of X1 + receiver_work (lr_receiver X1) \<le> c" using Cons.prems(5) by linarith
    have n: "length (rv_handlers (lr_receiver X1)) = n" using o1 Cons.prems(4) by simp
    have "lock_left (rv_store (lr_receiver X1)) (lr_locks X1) \<le> n * c"
      by (rule lock_left_bound [OF inv1 n]) (use c in linarith)
    moreover have "Suc (receiver_work (lr_receiver X1)) * Suc (n * c) \<le> receiver_work (lr_receiver X) * Suc (n * c)"
      using o1 by (intro mult_right_mono) simp_all
    ultimately have "locked_cost (n * c) X1 < locked_cost (n * c) X"
      unfolding locked_cost_def by simp
    then show ?thesis using o1 c n False by simp
  qed
  moreover have "\<forall>m \<in> set ms. own_move m" using Cons.prems(2) by simp
  ultimately show ?case using Cons.IH [OF X1(2) _ inv1] by (auto split: if_splits)
qed simp

lemma deadlocked_updating:
  assumes "deadlocked ts order S L t"
  shows "t \<in> updating S"
proof -
  let ?g = "\<lambda>u. Option.bind u (waits_for ts order S L)"
  obtain k where k: "k \<in> {1 .. length (cs_txs S)}" "(?g ^^ k) (Some t) = Some t" using assms by (auto simp: deadlocked_def)
  have "(?g ^^ n) None = None" for n by (induction n) simp_all
  then have "?g (Some t) \<noteq> None" using k by (cases k; cases "waits_for ts order S L t") (auto simp del: funpow.simps simp: funpow_Suc_right)
  then show ?thesis by (auto simp: waits_for_def next_row_def updating_def split: if_splits pc.splits)
qed

text \<open>The victim of a deadlock returns an error and leaves nothing in the tables.\<close>

lemma victim_step:
  assumes "deadlocked ts order S L t"
  shows "\<exists>S' L'. lock_step ts order (AbortVictim t) (S, L) = Some (S', L') \<and> cs_db S' = cs_db S \<and>
    tx_pc (cs_txs S' ! t) = Returned (tx_res (cs_txs S ! t)) (Some (OtherError (''postgres: close join: '' @ error_text deadlock_error)))"
proof -
  obtain sel ids where t: "t < length (cs_txs S)" "tx_pc (cs_txs S ! t) = AtUpdate sel ids"
    using deadlocked_updating [OF assms] by (auto simp: updating_def)
  then have "can_fault (cs_txs S ! t)" by (simp add: can_fault_def returned_def)
  moreover have "fault_error (cs_txs S ! t) deadlock_error = OtherError (''postgres: close join: '' @ error_text deadlock_error)"
    using t(2) by (simp add: fault_error_def classifyClose_def deadlock_error_def)
  ultimately show ?thesis
    using t(1) assms by (simp add: store_step_def Let_def return_tx_def)
qed

lemma locked_receiver_progress:
  assumes "locked_inv d parse ts h X" "x \<in> set (rv_handlers (lr_receiver X))" "\<not> answered x"
  shows "(\<exists>m X'. own_move m \<and> \<not> kills m \<and> locked_receiver_step d parse ts order h m X = Some X') \<or>
    (\<exists>t. deadlocked ts order (rv_store (lr_receiver X)) (lr_locks X) t)"
proof -
  let ?S = "rv_store (lr_receiver X)"
  have inv: "receiver_inv d parse h (lr_receiver X)" "conc_inv ts ?S" "locks_ok (?S, lr_locks X)"
    using assms(1) by (simp_all add: locked_inv_def)
  show ?thesis
  proof (cases "\<exists>t < length (cs_txs ?S). \<not> returned (cs_txs ?S ! t)")
    case True
    then obtain t where t: "t < length (cs_txs ?S)" "\<not> returned (cs_txs ?S ! t)" by blast
    from locked_progress [OF inv(2,3) t, of order] show ?thesis
    proof
      assume "\<exists>m X'. own_step m \<and> \<not> aborts m \<and> lock_step ts order m (?S, lr_locks X) = Some X'"
      then obtain m Y where m: "own_step m" "\<not> aborts m" "lock_step ts order m (?S, lr_locks X) = Some Y" by blast
      have "\<not> starts_tx m" using m(1) by (cases m rule: own_step.cases) simp_all
      then show ?thesis using m by (intro disjI1 exI [of _ "Locks m"]) (simp add: case_prod_beta)
    qed blast
  next
    case False
    then have none: "conc_step ts (Advance t) ?S = None" for t
      by (auto simp: advance_def returned_def split: pc.splits)
    obtain m R' where m: "fault_free m" "receiver_step d parse ts h m (lr_receiver X) = Some R'"
      using receiver_progress [OF inv(2,1) assms(2,3)] by blast
    then have "own_move (Handler m)" "\<not> of_store m" using none by (cases m rule: fault_free.cases; simp del: conc_step.simps)+
    then show ?thesis using m(2) by (intro disjI1 exI [of _ "Handler m"]) simp
  qed
qed

lemma own_move_exists:
  assumes "locked_inv d parse ts h X" "x \<in> set (rv_handlers (lr_receiver X))" "\<not> answered x"
  shows "\<exists>m X'. own_move m \<and> locked_receiver_step d parse ts order h m X = Some X'"
  using locked_receiver_progress [OF assms, of order]
proof
  assume "\<exists>t. deadlocked ts order (rv_store (lr_receiver X)) (lr_locks X) t"
  then obtain t S' L' where "lock_step ts order (AbortVictim t) (rv_store (lr_receiver X), lr_locks X) = Some (S', L')"
    using victim_step by blast
  then show ?thesis by (intro exI [of _ "Locks (AbortVictim t)"]) (simp del: lock_step.simps)
qed blast

lemma locked_finishes:
  assumes "locked_inv d parse ts h X" "joins_of X + receiver_work (lr_receiver X) \<le> c" "length (rv_handlers (lr_receiver X)) = n"
  shows "\<exists>ms X'. run_locked d parse ts order h ms X = Some X' \<and> (\<forall>m \<in> set ms. own_move m) \<and>
    (\<forall>x \<in> set (rv_handlers (lr_receiver X')). answered x) \<and> length (rv_handlers (lr_receiver X')) = n"
  using assms
proof (induction "locked_cost (n * c) X" arbitrary: X rule: less_induct)
  case less
  show ?case
  proof (cases "\<forall>x \<in> set (rv_handlers (lr_receiver X)). answered x")
    case True
    then show ?thesis using less.prems(3) by (intro exI [of _ "[]"] exI [of _ X]) simp
  next
    case False
    then obtain m X1 where m: "own_move m" "locked_receiver_step d parse ts order h m X = Some X1"
      using own_move_exists [OF less.prems(1)] by blast
    note cost = own_run_cost [of d parse ts order h "[m]", OF _ _ less.prems(1,3,2), of X1]
    have len: "length (rv_handlers (lr_receiver X1)) = n" and joins: "joins_of X1 + receiver_work (lr_receiver X1) \<le> c"
      using own_move_step [OF m(2,1)] lock_row_step(1) [OF m(2)] less.prems(2,3) by (cases "locks_row m"; force simp: joins_of_def)+
    have "locked_cost (n * c) X1 < locked_cost (n * c) X" using cost m by simp
    from less.hyps [OF this locked_step_inv [OF m(2) less.prems(1)] joins len]
    obtain ms X' where "run_locked d parse ts order h ms X1 = Some X'" "\<forall>m \<in> set ms. own_move m"
        "\<forall>x \<in> set (rv_handlers (lr_receiver X')). answered x" "length (rv_handlers (lr_receiver X')) = n" by blast
    then show ?thesis using m by (intro exI [of _ "m # ms"] exI [of _ X']) simp
  qed
qed

section \<open>Properties\<close>

text \<open>C14. Every request gets its answer, deadlocks included. Updates lock their rows one at a time, in any order (\<open>order\<close>).
  From every state the receiver can so reach, whatever faults have happened, its own further steps (goroutines, statements,
  row locks, the ends of deadlocks), with no new fault, can bring every request to its answer, and no run of such steps is
  longer than the bound given, at most eight steps for each request besides the row locks. While a request is unanswered a
  step is possible that aborts nobody, unless closes wait for each other in a circle; then the database can end one of
  them, which changes no table and makes its call return an error (SQLSTATE 40P01; \<open>deadlock_arises\<close> shows that it happens).
  Each run is one of the receiver without row locks, so what is proved there holds here.\<close>

theorem requests_finish_or_deadlock:
  assumes "db_inv db" "run_locked d parse ts order h ms (idle_locked db) = Some X"
  shows "let n = length (rv_handlers (lr_receiver X)); S = rv_store (lr_receiver X); c = joins_of X + 8 * n
    in run_receiver d parse ts h (concat (map coarse ms)) (idle_receiver db) = Some (lr_receiver X) \<and>
      (\<exists>ms' X'. run_locked d parse ts order h ms' X = Some X' \<and> (\<forall>m \<in> set ms'. own_move m) \<and>
         (\<forall>x \<in> set (rv_handlers (lr_receiver X')). answered x) \<and> length (rv_handlers (lr_receiver X')) = n) \<and>
      (\<forall>ms' X'. run_locked d parse ts order h ms' X = Some X' \<longrightarrow> (\<forall>m \<in> set ms'. own_move m) \<longrightarrow>
         length (filter (\<lambda>m. \<not> locks_row m) ms') \<le> 8 * n \<and> length ms' \<le> 8 * n * Suc (n * c) + n * c) \<and>
      ((\<exists>x \<in> set (rv_handlers (lr_receiver X)). \<not> answered x) \<longrightarrow>
         (\<exists>m X'. own_move m \<and> \<not> kills m \<and> locked_receiver_step d parse ts order h m X = Some X') \<or>
         (\<exists>t. deadlocked ts order S (lr_locks X) t)) \<and>
      (\<forall>t. deadlocked ts order S (lr_locks X) t \<longrightarrow>
         (\<exists>X'. locked_receiver_step d parse ts order h (Locks (AbortVictim t)) X = Some X' \<and>
            cs_db (rv_store (lr_receiver X')) = cs_db S \<and>
            (\<exists>res. tx_pc (cs_txs (rv_store (lr_receiver X')) ! t) =
               Returned res (Some (OtherError (''postgres: close join: '' @ error_text deadlock_error))))))"
  unfolding Let_def
proof (intro conjI allI impI)
  let ?n = "length (rv_handlers (lr_receiver X))" and ?S = "rv_store (lr_receiver X)"
  let ?c = "joins_of X + 8 * ?n"
  have inv: "locked_inv d parse ts h X" by (rule run_locked_inv [OF assms(2) idle_locked_inv [OF assms(1)]])
  have work: "receiver_work (lr_receiver X) \<le> 8 * ?n" using inv receiver_work_le by (auto simp: locked_inv_def)
  then have c: "joins_of X + receiver_work (lr_receiver X) \<le> ?c" by simp
  show "run_receiver d parse ts h (concat (map coarse ms)) (idle_receiver db) = Some (lr_receiver X)"
    using run_locked_coarse [OF assms(2)] by (simp add: idle_locked_def)
  show "\<exists>ms' X'. run_locked d parse ts order h ms' X = Some X' \<and> (\<forall>m \<in> set ms'. own_move m) \<and>
      (\<forall>x \<in> set (rv_handlers (lr_receiver X')). answered x) \<and> length (rv_handlers (lr_receiver X')) = ?n"
    by (rule locked_finishes [OF inv c refl])
  show "length (filter (\<lambda>m. \<not> locks_row m) ms') \<le> 8 * ?n" "length ms' \<le> 8 * ?n * Suc (?n * ?c) + ?n * ?c"
    if run: "run_locked d parse ts order h ms' X = Some X'" "\<forall>m \<in> set ms'. own_move m" for ms' X'
  proof -
    note cost = own_run_cost [OF run inv refl c]
    show "length (filter (\<lambda>m. \<not> locks_row m) ms') \<le> 8 * ?n" using cost work by linarith
    have "receiver_work (lr_receiver X) * Suc (?n * ?c) \<le> 8 * ?n * Suc (?n * ?c)" using work by (rule mult_right_mono) simp
    moreover have "lock_left ?S (lr_locks X) \<le> ?n * ?c" by (rule lock_left_bound [OF inv refl]) simp
    ultimately show "length ms' \<le> 8 * ?n * Suc (?n * ?c) + ?n * ?c" using cost unfolding locked_cost_def by linarith
  qed
  show "(\<exists>m X'. own_move m \<and> \<not> kills m \<and> locked_receiver_step d parse ts order h m X = Some X') \<or>
      (\<exists>t. deadlocked ts order ?S (lr_locks X) t)" if "\<exists>x \<in> set (rv_handlers (lr_receiver X)). \<not> answered x"
    using that locked_receiver_progress [OF inv] by blast
  show "\<exists>X'. locked_receiver_step d parse ts order h (Locks (AbortVictim t)) X = Some X' \<and>
      cs_db (rv_store (lr_receiver X')) = cs_db ?S \<and>
      (\<exists>res. tx_pc (cs_txs (rv_store (lr_receiver X')) ! t) =
               Returned res (Some (OtherError (''postgres: close join: '' @ error_text deadlock_error))))"
    if "deadlocked ts order ?S (lr_locks X) t" for t
  proof -
    from victim_step [OF that] obtain S' L' where "lock_step ts order (AbortVictim t) (?S, lr_locks X) = Some (S', L')"
        "cs_db S' = cs_db ?S" "\<exists>res. tx_pc (cs_txs S' ! t) = Returned res (Some (OtherError (''postgres: close join: '' @ error_text deadlock_error)))" by blast
    then show ?thesis by (simp del: lock_step.simps)
  qed
qed

theorem requests_finish_or_deadlock_witness:
  "\<exists>X ms' X'. run_locked demo_deps (demo_parse demo_body) demo_ts (\<lambda>t i. 0) demo_receiver (map Handler (take 2 demo_run)) (idle_locked demo_empty) = Some X \<and>
     run_locked demo_deps (demo_parse demo_body) demo_ts (\<lambda>t i. 0) demo_receiver ms' X = Some X' \<and>
     (\<forall>x \<in> set (rv_handlers (lr_receiver X')). answered x) \<and> length (rv_handlers (lr_receiver X')) = 2"
proof -
  obtain X where X: "run_locked demo_deps (demo_parse demo_body) demo_ts (\<lambda>t i. 0) demo_receiver (map Handler (take 2 demo_run)) (idle_locked demo_empty) = Some X"
      "length (rv_handlers (lr_receiver X)) = 2"
    by (simp add: demo_run_def idle_locked_def idle_receiver_def)
  from requests_finish_or_deadlock [OF demo_empty_inv X(1)] X show ?thesis unfolding Let_def by metis
qed

end
