(* ===== verification/Sender.thy ===== *)
theory Sender
  imports Receiver
begin

text \<open>
  The protocol between the backend and the receiver. The sender delivers a body until it is answered 200; between
  its attempts the receiver handles any other requests. The answers of \<open>ServeHTTP\<close> (200 for what has been
  decided, 500 for what may be tried again) make this an exactly-once protocol over an at-least-once one: the
  retries leave the tables as one delivery among the other requests does.
\<close>

section \<open>The sender\<close>

text \<open>An attempt comes after the requests of others that the receiver handles before it. The sender reports the number of
  attempts it has made and whether it has stopped with a 200.\<close>

type_synonym delivery_attempt = "(env \<times> int \<times> request) list \<times> env \<times> int \<times> request"

fun send_until_ok ::
    "'u deps \<Rightarrow> jwt_parse \<Rightarrow> (Time \<Rightarrow> int) \<Rightarrow> LiveKitHandler \<Rightarrow> database \<Rightarrow> delivery_attempt list \<Rightarrow> database \<times> nat \<times> bool" where
  "send_until_ok d parse ts h db [] = (db, 0, False)"
| "send_until_ok d parse ts h db ((qs, e, elapsed, r) # as) =
     (let (db2, es) = ServeHTTP d parse (RecordEvent ts) h e elapsed (fst (handle_all d parse ts h db qs)) r
      in if response es = [200] then (db2, 1, True)
         else let (db', n, ok) = send_until_ok d parse ts h db2 as in (db', Suc n, ok))"

text \<open>The requests of the others, with one of the attempts, or with none.\<close>

fun with_attempt :: "nat option \<Rightarrow> delivery_attempt list \<Rightarrow> (env \<times> int \<times> request) list" where
  "with_attempt i [] = []"
| "with_attempt None ((qs, q) # as) = qs @ with_attempt None as"
| "with_attempt (Some 0) ((qs, q) # as) = qs @ q # with_attempt None as"
| "with_attempt (Some (Suc i)) ((qs, q) # as) = qs @ with_attempt (Some i) as"

definition names_event :: "'u deps \<Rightarrow> jwt_parse \<Rightarrow> LiveKitHandler \<Rightarrow> Event \<Rightarrow> delivery_attempt list \<Rightarrow> bool" where
  "names_event d parse h ev as \<longleftrightarrow> (\<forall>(qs, e, elapsed, r) \<in> set as. \<exists>disp. http_fate d parse h r = Handled ev disp)"

lemma handle_all_fst: "fst (handle_all d parse ts h db (rs @ rs')) = fst (handle_all d parse ts h (fst (handle_all d parse ts h db rs)) rs')"
  by (simp add: handle_all_append case_prod_beta)

lemma handle_all_one: "fst (handle_all d parse ts h db (q # rs)) =
    fst (handle_all d parse ts h (fst (ServeHTTP d parse (RecordEvent ts) h (fst q) (fst (snd q)) db (snd (snd q)))) rs)"
  by (cases q) (simp add: case_prod_beta)

text \<open>Once the event is recorded the attempts are as good as not made.\<close>

lemma send_recorded:
  assumes "names_event d parse h ev as" "db_inv db" "event_identity ts ev \<in> recorded_keys db"
    and "send_until_ok d parse ts h db as = (db', n, ok)"
  shows "db' = fst (handle_all d parse ts h db (with_attempt None (take n as)))"
  using assms
proof (induction as arbitrary: db n)
  case (Cons a as)
  obtain qs e elapsed r where a: "a = (qs, e, elapsed, r)" by (cases a)
  obtain disp where f: "http_fate d parse h r = Handled ev disp" using Cons.prems(1) by (auto simp: a names_event_def)
  let ?db1 = "fst (handle_all d parse ts h db qs)"
  have db1: "db_inv ?db1" "event_identity ts ev \<in> recorded_keys ?db1"
    using handle_all_keeps [OF Cons.prems(2), of d parse ts h qs] Cons.prems(3) by auto
  obtain db2 es where one: "ServeHTTP d parse (RecordEvent ts) h e elapsed ?db1 r = (db2, es)"
    by (cases "ServeHTTP d parse (RecordEvent ts) h e elapsed ?db1 r")
  have db2: "db2 = ?db1"
    using ServeHTTP_state [of d parse "RecordEvent ts" h e elapsed ?db1 r] one f pg.writer_redelivery [OF db1] by simp
  show ?case
  proof (cases "response es = [200]")
    case True
    then show ?thesis using Cons.prems(4) one db2 by (auto simp: a)
  next
    case False
    obtain n' where rest: "send_until_ok d parse ts h ?db1 as = (db', n', ok)" "n = Suc n'"
      using Cons.prems(4) one db2 False by (auto simp: a split: prod.splits)
    have "names_event d parse h ev as" using Cons.prems(1) by (simp add: names_event_def)
    from Cons.IH [OF this db1 rest(1)] show ?thesis by (simp add: a rest(2) handle_all_fst)
  qed
qed simp

lemma send_outcome:
  assumes "distinct (instrument_names (h_metrics h))" "names_event d parse h ev as" "db_inv db"
    and "send_until_ok d parse ts h db as = (db', n, ok)"
  shows "(\<exists>i. db' = fst (handle_all d parse ts h db (with_attempt i (take n as)))) \<and>
    (if ok then event_identity ts ev \<in> recorded_keys db' \<or>
       (\<exists>(qs, e, elapsed, r) \<in> set as. snd (snd (RecordEvent ts e db' ev)) \<in> {Some ErrPartitionMissing, Some ErrCloseOutOfOrder})
     else n = length as)"
  using assms(2-4)
proof (induction as arbitrary: db n)
  case (Cons a as)
  obtain qs e elapsed r where a: "a = (qs, e, elapsed, r)" by (cases a)
  obtain disp where f: "http_fate d parse h r = Handled ev disp" using Cons.prems(1) by (auto simp: a names_event_def)
  have names: "names_event d parse h ev as" using Cons.prems(1) by (simp add: names_event_def)
  let ?db1 = "fst (handle_all d parse ts h db qs)"
  have inv1: "db_inv ?db1" using handle_all_keeps [OF Cons.prems(2)] by blast
  obtain db2 es where one: "ServeHTTP d parse (RecordEvent ts) h e elapsed ?db1 r = (db2, es)"
    by (cases "ServeHTTP d parse (RecordEvent ts) h e elapsed ?db1 r")
  obtain db3 res err where eq: "RecordEvent ts e ?db1 ev = (db3, res, err)" by (metis prod_cases3)
  have db2: "db2 = db3" using ServeHTTP_state [of d parse "RecordEvent ts" h e elapsed ?db1 r] one f eq by simp
  have inv2: "db_inv db2" using RecordEvent_inv [OF inv1, of ts e ev] by (simp add: eq db2)
  have status: "response es = [case err of Some (OtherError t) \<Rightarrow> 500 | _ \<Rightarrow> 200]"
    using handled_status [OF assms(1) f, of ts e elapsed ?db1] by (simp add: one eq)
  show ?case
  proof (cases "response es = [200]")
    case True
    then have s: "db' = db2" "n = 1" ok using Cons.prems(3) one by (auto simp: a)
    have "db' = fst (handle_all d parse ts h db (with_attempt (Some 0) (take n (a # as))))"
      by (simp add: a s handle_all_fst handle_all_one one)
    moreover have "event_identity ts ev \<in> recorded_keys db' \<or>
        snd (snd (RecordEvent ts e db' ev)) \<in> {Some ErrPartitionMissing, Some ErrCloseOutOfOrder}"
    proof (cases "event_identity ts ev \<in> recorded_keys db2")
      case False
      then have "db2 = ?db1" using pg.writer_atomic [OF inv1, of ts ev e] by (simp add: eq db2)
      moreover have "err \<noteq> None" using pg.writer_acknowledged [OF inv1, of ts e ev] False by (auto simp: eq db2)
      ultimately show ?thesis using status True eq by (auto simp: s(1) split: option.splits store_error.splits)
    qed (simp add: s(1))
    ultimately show ?thesis using s(3) by (auto simp: a)
  next
    case False
    obtain n' where rest: "send_until_ok d parse ts h db2 as = (db', n', ok)" "n = Suc n'"
      using Cons.prems(3) one False by (auto simp: a split: prod.splits)
    note IH = Cons.IH [OF names inv2 rest(1)]
    have "\<exists>i. db' = fst (handle_all d parse ts h db (with_attempt i (take n (a # as))))"
    proof (cases "event_identity ts ev \<in> recorded_keys db2")
      case True
      from send_recorded [OF names inv2 True rest(1)] show ?thesis
        by (intro exI [of _ "Some 0"]) (simp add: a rest(2) handle_all_fst one case_prod_beta)
    next
      case new: False
      then have "db2 = ?db1" using pg.writer_atomic [OF inv1, of ts ev e] by (simp add: eq db2)
      then obtain i where "db' = fst (handle_all d parse ts h ?db1 (with_attempt i (take n' as)))" using IH by auto
      then show ?thesis
        by (intro exI [of _ "map_option Suc i"]) (cases i; simp add: a rest(2) handle_all_fst)
    qed
    then show ?thesis using IH rest(2) by (auto split: if_splits)
  qed
qed simp


section \<open>The attempt that succeeds\<close>

definition used_uuids :: "delivery_attempt list \<Rightarrow> string set" where
  "used_uuids as = (\<Union>(qs, e, elapsed, r) \<in> set as. insert (en_uuid e) (en_uuid ` fst ` set qs))"

lemma RecordEvent_join_ids:
  "jr_join_id ` set (db_participant_join (fst (RecordEvent ts e db ev))) \<subseteq>
     insert (en_uuid e) (jr_join_id ` set (db_participant_join db))"
proof -
  obtain db' res err where eq: "RecordEvent ts e db ev = (db', res, err)" by (metis prod_cases3)
  have "jr_join_id ` set (close_joins ts e ev js) = jr_join_id ` set js" for js
    using arg_cong [OF map_close_joins [of jr_join_id ts e ev js], where f = set] by simp
  then show ?thesis
    by (cases rule: RecordEvent_cases [OF eq]) (auto simp: eq stored_db_def join_effect_def)
qed

lemma ServeHTTP_join_ids:
  "jr_join_id ` set (db_participant_join (fst (ServeHTTP d parse (RecordEvent ts) h e elapsed db r))) \<subseteq>
     insert (en_uuid e) (jr_join_id ` set (db_participant_join db))"
  using RecordEvent_join_ids [of ts e db] by (auto simp: ServeHTTP_state split: fate.splits)

lemma handle_all_join_ids:
  "jr_join_id ` set (db_participant_join (fst (handle_all d parse ts h db rs))) \<subseteq>
     jr_join_id ` set (db_participant_join db) \<union> en_uuid ` fst ` set rs"
proof (induction rs arbitrary: db)
  case (Cons q rs)
  show ?case
    using Cons.IH [of "fst (ServeHTTP d parse (RecordEvent ts) h (fst q) (fst (snd q)) db (snd (snd q)))"]
      ServeHTTP_join_ids [of d parse ts h "fst q" "fst (snd q)" db "snd (snd q)"] unfolding handle_all_one by auto
qed simp

lemma quiet_status:
  assumes "distinct (instrument_names (h_metrics h))" "http_fate d parse h r = Handled ev disp" "quiet e"
    and "en_uuid e \<notin> jr_join_id ` set (db_participant_join db)"
  shows "response (snd (ServeHTTP d parse (RecordEvent ts) h e elapsed db r)) = [200]"
  using assms(4) unfolding handled_status [OF assms(1,2)] RecordEvent_spec_quiet [OF assms(3)]
  by (auto simp: effect_ok_def effect_error_def)

lemma send_succeeds:
  assumes "distinct (instrument_names (h_metrics h))"
  shows "names_event d parse h ev as \<Longrightarrow> k < length as \<Longrightarrow> as ! k = (qs, e, elapsed, r) \<Longrightarrow> quiet e \<Longrightarrow>
    en_uuid e \<notin> jr_join_id ` set (db_participant_join db) \<union> used_uuids (take k as) \<union> en_uuid ` fst ` set qs \<Longrightarrow>
    send_until_ok d parse ts h db as = (db', n, ok) \<Longrightarrow> ok \<and> n \<le> Suc k"
proof (induction as arbitrary: db k n)
  case (Cons a as)
  obtain qs1 e1 elapsed1 r1 where a: "a = (qs1, e1, elapsed1, r1)" by (cases a)
  obtain disp where f: "http_fate d parse h r1 = Handled ev disp" using Cons.prems(1) by (auto simp: a names_event_def)
  let ?db1 = "fst (handle_all d parse ts h db qs1)"
  obtain db2 es where one: "ServeHTTP d parse (RecordEvent ts) h e1 elapsed1 ?db1 r1 = (db2, es)"
    by (cases "ServeHTTP d parse (RecordEvent ts) h e1 elapsed1 ?db1 r1")
  show ?case
  proof (cases "response es = [200]")
    case True
    then show ?thesis using Cons.prems(6) one by (auto simp: a)
  next
    case False
    have k: "k \<noteq> 0"
    proof
      assume "k = 0"
      then have e: "e1 = e" "qs1 = qs" using Cons.prems(3) by (simp_all add: a)
      have "en_uuid e \<notin> jr_join_id ` set (db_participant_join ?db1)"
        using handle_all_join_ids [of d parse ts h db qs1] Cons.prems(5) unfolding e by blast
      from quiet_status [OF assms f _ this [folded e(1)], of ts elapsed1] Cons.prems(4) False show False by (simp add: one flip: e(1))
    qed
    then obtain k' where k': "k = Suc k'" by (cases k) simp_all
    obtain n' where rest: "send_until_ok d parse ts h db2 as = (db', n', ok)" "n = Suc n'"
      using Cons.prems(6) one False by (auto simp: a split: prod.splits)
    have "jr_join_id ` set (db_participant_join db2) \<subseteq>
        insert (en_uuid e1) (jr_join_id ` set (db_participant_join db) \<union> en_uuid ` fst ` set qs1)"
      using ServeHTTP_join_ids [of d parse ts h e1 elapsed1 ?db1 r1] handle_all_join_ids [of d parse ts h db qs1]
      unfolding one by auto
    moreover have "used_uuids (take k (a # as)) = insert (en_uuid e1) (en_uuid ` fst ` set qs1) \<union> used_uuids (take k' as)"
      by (simp add: used_uuids_def a k')
    ultimately have "en_uuid e \<notin> jr_join_id ` set (db_participant_join db2) \<union> used_uuids (take k' as) \<union> en_uuid ` fst ` set qs"
      using Cons.prems(5) by blast
    moreover have "names_event d parse h ev as" using Cons.prems(1) by (simp add: names_event_def)
    moreover have "k' < length as" "as ! k' = (qs, e, elapsed, r)" using Cons.prems(2,3) by (simp_all add: k')
    ultimately show ?thesis using Cons.IH [OF _ _ _ Cons.prems(4) _ rest(1), of k'] by (simp add: rest(2) k')
  qed
qed simp

section \<open>Properties\<close>

text \<open>C11. Delivering until the answer is 200 is exactly-once delivery. Let a sender deliver a body, which names the
  event \<open>ev\<close>, again and again until it is answered 200, while the receiver handles any other requests between its attempts
  (further deliveries of the body included) and anything may fail. The tables at the end are those that the
  other requests leave with at most one of the attempts among them. When the sender has its 200, the event is
  recorded, unless it is one of the two that are answered 200 and dropped: one that no partition covers, or a close refused as out of
  order. And the sender has its 200 at the latest with the first attempt that meets no fault and whose fresh join id
  is not already taken.\<close>

theorem sender_delivers_exactly_once:
  assumes "db_inv db" "NewIngest create = Inr (h_metrics h)" "names_event d parse h ev as"
    and "send_until_ok d parse ts h db as = (db', n, ok)"
  shows "(\<exists>i. db' = fst (handle_all d parse ts h db (with_attempt i (take n as)))) \<and>
    (ok \<longrightarrow> event_identity ts ev \<in> recorded_keys db' \<or>
       (\<exists>(qs, e, elapsed, r) \<in> set as. snd (snd (RecordEvent ts e db' ev)) \<in> {Some ErrPartitionMissing, Some ErrCloseOutOfOrder})) \<and>
    (\<forall>k qs e elapsed r. k < length as \<longrightarrow> as ! k = (qs, e, elapsed, r) \<longrightarrow> quiet e \<longrightarrow>
       en_uuid e \<notin> jr_join_id ` set (db_participant_join db) \<union> used_uuids (take k as) \<union> en_uuid ` fst ` set qs \<longrightarrow>
       ok \<and> n \<le> Suc k)"
proof (intro conjI allI impI)
  note dist = NewIngest_distinct [OF assms(2)]
  show "\<exists>i. db' = fst (handle_all d parse ts h db (with_attempt i (take n as)))"
    using send_outcome [OF dist assms(3,1,4)] by blast
  show "event_identity ts ev \<in> recorded_keys db' \<or>
      (\<exists>(qs, e, elapsed, r) \<in> set as. snd (snd (RecordEvent ts e db' ev)) \<in> {Some ErrPartitionMissing, Some ErrCloseOutOfOrder})" if ok
    using send_outcome [OF dist assms(3,1,4)] that by simp
  show ok "n \<le> Suc k" if "k < length as" "as ! k = (qs, e, elapsed, r)" "quiet e"
      "en_uuid e \<notin> jr_join_id ` set (db_participant_join db) \<union> used_uuids (take k as) \<union> en_uuid ` fst ` set qs" for k qs e elapsed r
    using send_succeeds [OF dist assms(3) that assms(4)] by blast+
qed

text \<open>The first attempt is applied and its acknowledgement lost; the second finds the event recorded.\<close>

definition lost_then_found :: "delivery_attempt list" where
  "lost_then_found =
     [([], (demo_env ''u1'')\<lparr>en_commit := CommitLost (DriverError ''timeout'')\<rparr>, 5, demo_request demo_body ''token''),
      ([], demo_env ''u2'', 5, demo_request demo_body ''token'')]"

theorem sender_delivers_exactly_once_witness:
  "\<exists>db' n. send_until_ok demo_deps (demo_parse demo_body) demo_ts demo_receiver demo_empty lost_then_found = (db', n, True) \<and> n \<le> 2"
proof -
  have m: "NewIngest (\<lambda>n u. None :: nat option) = Inr (h_metrics demo_receiver)"
    using demo_NewIngest by (simp add: demo_receiver_def NewLiveKitHandler_def)
  have names: "names_event demo_deps (demo_parse demo_body) demo_receiver demo_joined lost_then_found"
    by (simp add: names_event_def lost_then_found_def demo_fate)
  obtain db' n ok where s: "send_until_ok demo_deps (demo_parse demo_body) demo_ts demo_receiver demo_empty lost_then_found = (db', n, ok)"
    by (metis prod_cases3)
  have "quiet (demo_env ''u2'')" "lost_then_found ! 1 = ([], demo_env ''u2'', 5, demo_request demo_body ''token'')"
    "1 < length lost_then_found"
    "en_uuid (demo_env ''u2'') \<notin> jr_join_id ` set (db_participant_join demo_empty) \<union> used_uuids (take 1 lost_then_found) \<union> en_uuid ` fst ` set []"
    by (simp_all add: lost_then_found_def used_uuids_def demo_empty_def demo_env_def quiet_def)
  with sender_delivers_exactly_once [OF demo_empty_inv m names s, THEN conjunct2, THEN conjunct2] have "ok \<and> n \<le> Suc 1" by blast
  then show ?thesis using s by auto
qed

end
