(* ===== verification/Telemetry.thy ===== *)
theory Telemetry
  imports Config
begin

text \<open>
  Installation of the OpenTelemetry providers (\<^verbatim>\<open>internal/telemetry/telemetry.go\<close>). The SDK is not
  part of the repository: what each of its constructors and shutdown functions returns is given by
  \<open>otel\<close>, the parameter of the model. What \<open>Setup\<close> does is the list of its actions in order; the
  \<open>ShutdownFunc\<close> it returns is the list of the providers it closes over.
\<close>

datatype provider = TracerProvider | MeterProvider

datatype exporter_option = WithEndpoint string | WithInsecure

datatype resource_option =
    WithFromEnv | WithTelemetrySDK | WithProcess | WithHost | WithAttributes "(string \<times> string) list"

datatype telemetry_action =
    NewResource "resource_option list"
  | NewTraceExporter "exporter_option list"
  | NewMetricExporter "exporter_option list"
  | Install provider
  | SetPropagator
  | PeriodicReader int
  | StartRuntime
  | Shutdown provider

record otel =
  ot_resource :: "resource_option list \<Rightarrow> string option"
  ot_traceExporter :: "exporter_option list \<Rightarrow> string option"
  ot_metricExporter :: "exporter_option list \<Rightarrow> string option"
  ot_runtime :: "string option"
  ot_shutdown :: "provider \<Rightarrow> string option"

text \<open>\<open>errors.Join\<close>: the errors that are not nil, or nil.\<close>

definition join_errors :: "string option list \<Rightarrow> string list" where
  "join_errors errs = List.map_filter (\<lambda>e. e) errs"

text \<open>The closure \<open>unwind\<close>: its loop counts the index down, from the last provider installed.\<close>

fun unwind_from :: "otel \<Rightarrow> provider list \<Rightarrow> nat \<Rightarrow> telemetry_action list \<times> string option list" where
  "unwind_from ot shutdowns 0 = ([], [])"
| "unwind_from ot shutdowns (Suc i) =
     (let p = shutdowns ! i; (acts, errs) = unwind_from ot shutdowns i
      in (Shutdown p # acts, ot_shutdown ot p # errs))"

definition unwind :: "otel \<Rightarrow> provider list \<Rightarrow> telemetry_action list \<times> string list" where
  "unwind ot shutdowns =
     (let (acts, errs) = unwind_from ot shutdowns (length shutdowns) in (acts, join_errors errs))"

definition exporter_options :: "Service \<Rightarrow> exporter_option list" where
  "exporter_options cfg =
     [WithEndpoint (sv_OTLPEndpoint cfg)] @ (if sv_OTLPInsecure cfg then [WithInsecure] else [])"

text \<open>\<open>newResource\<close>: the options handed to \<open>resource.New\<close>; the first two attributes are those of the semantic
  conventions.\<close>

definition resource_options :: "Service \<Rightarrow> resource_option list" where
  "resource_options cfg =
     [WithFromEnv, WithTelemetrySDK, WithProcess, WithHost,
      WithAttributes [(''service.name'', sv_Name cfg), (''service.version'', sv_Version cfg),
                      (''deployment.environment'', sv_Environment cfg)]]"

definition newResource :: "otel \<Rightarrow> Service \<Rightarrow> telemetry_action list \<times> string option" where
  "newResource ot cfg = ([NewResource (resource_options cfg)], ot_resource ot (resource_options cfg))"

definition Setup :: "otel \<Rightarrow> Service \<Rightarrow> telemetry_action list \<times> (string list + provider list)" where
  "Setup ot cfg =
     (case newResource ot cfg of
        (a0, Some e) \<Rightarrow> (a0, Inl [''telemetry: build resource: '' @ e])
      | (a0, None) \<Rightarrow>
          let opts = exporter_options cfg; a1 = a0 @ [NewTraceExporter opts] in
          (case ot_traceExporter ot opts of
             Some e \<Rightarrow> (a1, Inl [''telemetry: otlp trace exporter: '' @ e])
           | None \<Rightarrow>
               let shutdowns = [TracerProvider];
                   a2 = a1 @ [Install TracerProvider, SetPropagator, NewMetricExporter opts] in
               (case ot_metricExporter ot opts of
                  Some e \<Rightarrow>
                    let (u, errs) = unwind ot shutdowns
                    in (a2 @ u, Inl ((''telemetry: otlp metric exporter: '' @ e) # errs))
                | None \<Rightarrow>
                    let shutdowns = shutdowns @ [MeterProvider];
                        a3 = a2 @ [PeriodicReader (15 * nanosPerSecond), Install MeterProvider, StartRuntime] in
                    (case ot_runtime ot of
                       Some e \<Rightarrow>
                         let (u, errs) = unwind ot shutdowns
                         in (a3 @ u, Inl ((''telemetry: start runtime instrumentation: '' @ e) # errs))
                     | None \<Rightarrow> (a3, Inr shutdowns)))))"

section \<open>Lemmas\<close>

lemma unwind_from_rev:
  "k \<le> length ps \<Longrightarrow> unwind_from ot ps k =
     (map Shutdown (rev (take k ps)), map (ot_shutdown ot) (rev (take k ps)))"
  by (induction k) (auto simp: take_Suc_conv_app_nth Let_def)

lemma unwind_rev:
  "unwind ot ps = (map Shutdown (rev ps), join_errors (map (ot_shutdown ot) (rev ps)))"
  by (simp add: unwind_def unwind_from_rev)

fun running :: "provider list \<Rightarrow> telemetry_action list \<Rightarrow> provider list" where
  "running ps [] = ps"
| "running ps (Install p # as) = running (ps @ [p]) as"
| "running ps (Shutdown p # as) = running (removeAll p ps) as"
| "running ps (_ # as) = running ps as"

definition shut_down :: "telemetry_action list \<Rightarrow> provider list" where
  "shut_down as = List.map_filter (\<lambda>a. case a of Shutdown p \<Rightarrow> Some p | _ \<Rightarrow> None) as"

definition installed :: "telemetry_action list \<Rightarrow> provider list" where
  "installed as = List.map_filter (\<lambda>a. case a of Install p \<Rightarrow> Some p | _ \<Rightarrow> None) as"

lemmas lifecycle_defs = shut_down_def installed_def List.map_filter_def

lemma running_append: "running ps (xs @ ys) = running (running ps xs) ys"
  by (induction ps xs rule: running.induct) simp_all

lemma Setup_failed: "Setup ot cfg = (acts, Inl errs) \<Longrightarrow> running [] acts = []"
  by (auto simp: Setup_def newResource_def unwind_rev Let_def split: option.splits)

lemma Setup_succeeded:
  assumes "Setup ot cfg = (acts, Inr ps)"
  shows "ps = [TracerProvider, MeterProvider]" "running [] acts = ps"
    "running ps (fst (unwind ot ps)) = []" "fst (unwind ot ps) = [Shutdown MeterProvider, Shutdown TracerProvider]"
  using assms by (auto simp: Setup_def newResource_def unwind_rev Let_def split: option.splits)

section \<open>Properties\<close>

text \<open>A failed \<open>Setup\<close> leaves no provider running: the providers it had installed are shut down
  before it returns, each once and in reverse order of installation, and the errors of those
  shutdowns are joined to the cause. A successful one has installed both, shut down neither, and
  returns a function that shuts both down, the meter provider first. Both exporters get the
  configured endpoint, and transport security is off exactly when configured so; the resource they
  report for names the configured service, version and environment.\<close>

theorem Setup_leaves_nothing_running:
  "(case Setup ot cfg of
      (acts, Inl errs) \<Rightarrow> running [] acts = [] \<and> shut_down acts = rev (installed acts) \<and> errs \<noteq> []
    | (acts, Inr ps) \<Rightarrow> running [] acts = ps \<and> ps = [TracerProvider, MeterProvider] \<and> shut_down acts = [] \<and>
        running ps (fst (unwind ot ps)) = [] \<and> fst (unwind ot ps) = [Shutdown MeterProvider, Shutdown TracerProvider]) \<and>
   (\<forall>opts. NewTraceExporter opts \<in> set (fst (Setup ot cfg)) \<or> NewMetricExporter opts \<in> set (fst (Setup ot cfg)) \<longrightarrow>
      WithEndpoint (sv_OTLPEndpoint cfg) \<in> set opts \<and> (WithInsecure \<in> set opts \<longleftrightarrow> sv_OTLPInsecure cfg)) \<and>
   (\<exists>opts attrs. hd (fst (Setup ot cfg)) = NewResource opts \<and> WithAttributes attrs \<in> set opts \<and>
      map_of attrs ''service.name'' = Some (sv_Name cfg) \<and> map_of attrs ''service.version'' = Some (sv_Version cfg) \<and>
      map_of attrs ''deployment.environment'' = Some (sv_Environment cfg))"
  by (auto simp: Setup_def newResource_def resource_options_def unwind_rev exporter_options_def lifecycle_defs Let_def split: option.splits)

theorem Setup_leaves_nothing_running_witness:
  "running [] (fst (Setup \<lparr>ot_resource = (\<lambda>_. None), ot_traceExporter = (\<lambda>_. None),
      ot_metricExporter = (\<lambda>_. Some ''refused''), ot_runtime = None, ot_shutdown = (\<lambda>_. None)\<rparr>
    \<lparr>sv_Name = [], sv_Version = [], sv_Environment = [], sv_ListenAddr = '':8080'',
     sv_OTLPEndpoint = ''localhost:4317'', sv_OTLPInsecure = True\<rparr>)) = []"
proof -
  let ?ot = "\<lparr>ot_resource = (\<lambda>_. None), ot_traceExporter = (\<lambda>_. None),
      ot_metricExporter = (\<lambda>_. Some ''refused''), ot_runtime = None, ot_shutdown = (\<lambda>_. None)\<rparr> :: otel"
  let ?cfg = "\<lparr>sv_Name = [], sv_Version = [], sv_Environment = [], sv_ListenAddr = '':8080'',
     sv_OTLPEndpoint = ''localhost:4317'', sv_OTLPInsecure = True\<rparr> :: Service"
  have "\<exists>acts errs. Setup ?ot ?cfg = (acts, Inl errs)"
    by (simp add: Setup_def newResource_def unwind_rev Let_def)
  then show ?thesis using Setup_leaves_nothing_running [of ?ot ?cfg] by auto
qed

end
