(* ===== verification/Database.thy ===== *)
theory Database
  imports Go_Strconv
begin

text \<open>
  The connection pool (\<^verbatim>\<open>internal/database/pool.go\<close>). The driver is not part of the repository:
  parsing a connection string, creating a pool and pinging it are the fields of \<open>pgx\<close>, the
  parameter of the model. Durations are in nanoseconds, as Go has them. A Go map that may be nil is
  an option.
\<close>

record Options =
  op_MaxConns :: int
  op_MinConns :: int
  op_MaxConnLifetime :: int
  op_MaxConnIdleTime :: int
  op_ConnectTimeout :: int
  op_StatementTimeout :: int
  op_HealthCheckPeriod :: int

definition IngestOptions :: Options where
  "IngestOptions =
     \<lparr>op_MaxConns = 8, op_MinConns = 2,
      op_MaxConnLifetime = 30 * 60 * nanosPerSecond, op_MaxConnIdleTime = 5 * 60 * nanosPerSecond,
      op_ConnectTimeout = 5 * nanosPerSecond, op_StatementTimeout = 1 * nanosPerSecond,
      op_HealthCheckPeriod = 30 * nanosPerSecond\<rparr>"

record pool_config =
  pc_MaxConns :: int
  pc_MinConns :: int
  pc_MaxConnLifetime :: int
  pc_MaxConnIdleTime :: int
  pc_HealthCheckPeriod :: int
  pc_ConnectTimeout :: int
  pc_RuntimeParams :: "(string \<rightharpoonup> string) option"
  pc_Address :: string

datatype pool_action = NewPool pool_config | PingPool int | ClosePool

record pgx =
  px_ParseConfig :: "string \<Rightarrow> string + pool_config"
  px_NewWithConfig :: "pool_config \<Rightarrow> string option"
  px_Ping :: "int \<Rightarrow> string option"

definition pool_settings :: "Options \<Rightarrow> pool_config \<Rightarrow> pool_config" where
  "pool_settings opts cfg =
     (let cfg = cfg\<lparr>pc_MaxConns := op_MaxConns opts, pc_MinConns := op_MinConns opts,
                    pc_MaxConnLifetime := op_MaxConnLifetime opts,
                    pc_MaxConnIdleTime := op_MaxConnIdleTime opts,
                    pc_HealthCheckPeriod := op_HealthCheckPeriod opts,
                    pc_ConnectTimeout := op_ConnectTimeout opts\<rparr>
      in if op_StatementTimeout opts > 0
         then let params = (case pc_RuntimeParams cfg of None \<Rightarrow> Map.empty | Some m \<Rightarrow> m)
              in cfg\<lparr>pc_RuntimeParams :=
                       Some (params(''statement_timeout'' \<mapsto> int_text (op_StatementTimeout opts div 1000000)))\<rparr>
         else cfg)"

definition Open :: "pgx \<Rightarrow> string \<Rightarrow> Options \<Rightarrow> pool_action list \<times> (string + pool_config)" where
  "Open px url opts =
     (case px_ParseConfig px url of
        Inl e \<Rightarrow> ([], Inl (''database: parse connection string: '' @ e))
      | Inr cfg0 \<Rightarrow>
          let cfg = pool_settings opts cfg0 in
          (case px_NewWithConfig px cfg of
             Some e \<Rightarrow> ([], Inl (''database: create pool: '' @ e))
           | None \<Rightarrow>
               (case px_Ping px (op_ConnectTimeout opts) of
                  Some e \<Rightarrow> ([NewPool cfg, PingPool (op_ConnectTimeout opts), ClosePool],
                            Inl (''database: ping: '' @ e))
                | None \<Rightarrow> ([NewPool cfg, PingPool (op_ConnectTimeout opts)], Inr cfg))))"

section \<open>Lemmas\<close>

definition pool_open :: "pool_action list \<Rightarrow> bool" where
  "pool_open acts = foldl (\<lambda>b a. case a of NewPool c \<Rightarrow> True | ClosePool \<Rightarrow> False | PingPool t \<Rightarrow> b) False acts"

lemma int_text_1000: "int_text 1000 = ''1000''"
  by code_simp

definition param :: "pool_config \<Rightarrow> string \<Rightarrow> string option" where
  "param cfg k = (case pc_RuntimeParams cfg of Some m \<Rightarrow> m k | None \<Rightarrow> None)"

lemma ingest_settings:
  "pc_MaxConns (pool_settings IngestOptions c) = 8" "pc_MinConns (pool_settings IngestOptions c) = 2"
  "pc_ConnectTimeout (pool_settings IngestOptions c) = 5 * nanosPerSecond"
  "pc_Address (pool_settings IngestOptions c) = pc_Address c"
  "param (pool_settings IngestOptions c) ''statement_timeout'' = Some ''1000''"
  "k \<noteq> ''statement_timeout'' \<Longrightarrow> param (pool_settings IngestOptions c) k = param c k"
  by (simp_all add: pool_settings_def IngestOptions_def nanosPerSecond_def int_text_1000 param_def Let_def
      split: option.split)

lemma Open_pool:
  "Open px url opts = (acts, Inl e) \<Longrightarrow> \<not> pool_open acts"
  "Open px url opts = (acts, Inr cfg) \<Longrightarrow> pool_open acts \<and> px_Ping px (op_ConnectTimeout opts) = None"
  by (auto simp: Open_def pool_open_def Let_def split: option.splits sum.splits)

lemma pool_open_close: "\<not> pool_open (acts @ [ClosePool])"
  by (simp add: pool_open_def)

section \<open>Properties\<close>

text \<open>\<open>Open\<close> returns a pool exactly when the string parses, the pool can be created and the
  database answers a ping within the connect timeout; when it fails no pool is left open, one whose
  ping failed included. The pool it returns has the write path's settings whatever the connection
  string said, with a statement timeout of 1000 ms, and keeps every other run-time parameter and
  the address of the connection string.\<close>

theorem Open_ingest_pool:
  "(case Open px url IngestOptions of
      (acts, Inl e) \<Rightarrow> \<not> pool_open acts
    | (acts, Inr cfg) \<Rightarrow>
        pool_open acts \<and>
        (\<exists>cfg0. px_ParseConfig px url = Inr cfg0 \<and> pc_Address cfg = pc_Address cfg0 \<and>
           (\<forall>k. k \<noteq> ''statement_timeout'' \<longrightarrow> param cfg k = param cfg0 k)) \<and>
        pc_MaxConns cfg = 8 \<and> pc_MinConns cfg = 2 \<and> pc_ConnectTimeout cfg = 5 * nanosPerSecond \<and>
        param cfg ''statement_timeout'' = Some ''1000'') \<and>
   ((\<exists>cfg. snd (Open px url IngestOptions) = Inr cfg) \<longleftrightarrow>
      (\<exists>cfg0. px_ParseConfig px url = Inr cfg0 \<and>
         px_NewWithConfig px (pool_settings IngestOptions cfg0) = None) \<and>
      px_Ping px (5 * nanosPerSecond) = None)"
proof -
  have t: "op_ConnectTimeout IngestOptions = 5 * nanosPerSecond" by (simp add: IngestOptions_def)
  show ?thesis
    by (auto simp: Open_def pool_open_def t ingest_settings Let_def split: option.splits sum.splits)
qed

theorem Open_ingest_pool_witness:
  "\<not> pool_open (fst (Open \<lparr>px_ParseConfig = (\<lambda>u. Inr \<lparr>pc_MaxConns = 4, pc_MinConns = 0, pc_MaxConnLifetime = 0,
        pc_MaxConnIdleTime = 0, pc_HealthCheckPeriod = 0, pc_ConnectTimeout = 0, pc_RuntimeParams = None,
        pc_Address = u\<rparr>), px_NewWithConfig = (\<lambda>_. None), px_Ping = (\<lambda>_. Some ''refused'')\<rparr>
      ''postgres://db'' IngestOptions))"
proof -
  let ?px = "\<lparr>px_ParseConfig = (\<lambda>u. Inr \<lparr>pc_MaxConns = 4, pc_MinConns = 0, pc_MaxConnLifetime = 0,
        pc_MaxConnIdleTime = 0, pc_HealthCheckPeriod = 0, pc_ConnectTimeout = 0, pc_RuntimeParams = None,
        pc_Address = u\<rparr>), px_NewWithConfig = (\<lambda>_. None), px_Ping = (\<lambda>_. Some ''refused'')\<rparr> :: pgx"
  have "\<exists>acts e. Open ?px ''postgres://db'' IngestOptions = (acts, Inl e)"
    by (simp add: Open_def Let_def)
  then show ?thesis using Open_ingest_pool [of ?px "''postgres://db''"] by auto
qed

end
