(* ===== verification/Serving.thy ===== *)
theory Serving
  imports Go_Prelude
begin

text \<open>
  The end of \<open>run\<close> in both binaries (\<^verbatim>\<open>cmd/ingester/main.go\<close>, \<^verbatim>\<open>cmd/queryapi/main.go\<close>): the goroutine that
  serves, the channel \<open>errCh\<close> of capacity one, the context a signal cancels, the \<open>select\<close> and
  \<open>Shutdown\<close>, as a step relation. Of \<open>net/http\<close> it uses what is documented: \<open>ListenAndServe\<close>
  returns \<open>ErrServerClosed\<close> only after \<open>Shutdown\<close> has been called.
\<close>

section \<open>The state and its steps\<close>

datatype listen_error = ErrServerClosed | OtherListenError string

datatype goroutine = Listening | Sending string | Exited

text \<open>How serving ends: the listener failed, or a signal arrived and the server was asked to shut down,
  with what \<open>Shutdown\<close> returned.\<close>

datatype serve_end = ListenFailed string | Signalled "string option"

datatype run_pc = Selecting | InShutdown | ServeReturned serve_end

text \<open>\<open>sg_result\<close> keeps what \<open>ListenAndServe\<close> returned, once it has.\<close>

record serving =
  sg_goroutine :: goroutine
  sg_result :: "listen_error option option"
  sg_errCh :: "string list"
  sg_signalled :: bool
  sg_closed :: bool
  sg_run :: run_pc

definition errCh_capacity :: nat where
  "errCh_capacity = 1"

definition serving_init :: serving where
  "serving_init = \<lparr>sg_goroutine = Listening, sg_result = None, sg_errCh = [], sg_signalled = False,
     sg_closed = False, sg_run = Selecting\<rparr>"

text \<open>What the goroutine does with the result of \<open>ListenAndServe\<close>.\<close>

fun after_listen :: "listen_error option \<Rightarrow> goroutine" where
  "after_listen None = Exited"
| "after_listen (Some ErrServerClosed) = Exited"
| "after_listen (Some (OtherListenError e)) = Sending e"

inductive serve_step :: "serving \<Rightarrow> serving \<Rightarrow> bool" where
  listen_returns: "sg_goroutine s = Listening \<Longrightarrow> (r = Some ErrServerClosed \<longrightarrow> sg_closed s) \<Longrightarrow>
     serve_step s (s\<lparr>sg_goroutine := after_listen r, sg_result := Some r\<rparr>)"
| send: "sg_goroutine s = Sending e \<Longrightarrow> length (sg_errCh s) < errCh_capacity \<Longrightarrow>
     serve_step s (s\<lparr>sg_goroutine := Exited, sg_errCh := sg_errCh s @ [e]\<rparr>)"
| signal: "serve_step s (s\<lparr>sg_signalled := True\<rparr>)"
| select_err: "sg_run s = Selecting \<Longrightarrow> sg_errCh s = e # es \<Longrightarrow>
     serve_step s (s\<lparr>sg_errCh := es, sg_run := ServeReturned (ListenFailed e)\<rparr>)"
| select_done: "sg_run s = Selecting \<Longrightarrow> sg_signalled s \<Longrightarrow>
     serve_step s (s\<lparr>sg_closed := True, sg_run := InShutdown\<rparr>)"
| shutdown_returns: "sg_run s = InShutdown \<Longrightarrow>
     serve_step s (s\<lparr>sg_run := ServeReturned (Signalled r)\<rparr>)"

inductive serve_reachable :: "serving \<Rightarrow> bool" where
  serving_start: "serve_reachable serving_init"
| serving_next: "serve_reachable s \<Longrightarrow> serve_step s s' \<Longrightarrow> serve_reachable s'"

inductive_cases serve_stepE: "serve_step s s'"

section \<open>Invariant\<close>

text \<open>One error at most is ever sent, and it is the one \<open>ListenAndServe\<close> returned.\<close>

definition reports :: "string \<Rightarrow> serving \<Rightarrow> bool" where
  "reports e s \<longleftrightarrow> sg_goroutine s = Sending e \<or> e \<in> set (sg_errCh s) \<or> sg_run s = ServeReturned (ListenFailed e)"

definition serving_inv :: "serving \<Rightarrow> bool" where
  "serving_inv s \<longleftrightarrow>
     length (sg_errCh s) \<le> errCh_capacity \<and>
     (sg_goroutine s \<noteq> Exited \<longrightarrow> sg_errCh s = []) \<and>
     (sg_goroutine s = Listening \<longleftrightarrow> sg_result s = None) \<and>
     (\<forall>e. reports e s \<longrightarrow> sg_result s = Some (Some (OtherListenError e))) \<and>
     (\<forall>e. sg_run s = ServeReturned (ListenFailed e) \<longrightarrow> sg_goroutine s = Exited \<and> sg_errCh s = []) \<and>
     (case sg_run s of
        Selecting \<Rightarrow> \<not> sg_closed s
      | InShutdown \<Rightarrow> sg_signalled s \<and> sg_closed s
      | ServeReturned (ListenFailed e) \<Rightarrow> \<not> sg_closed s
      | ServeReturned (Signalled r) \<Rightarrow> sg_signalled s \<and> sg_closed s)"

lemma serving_inv_init: "serving_inv serving_init"
  by (simp add: serving_inv_def serving_init_def reports_def)

lemma serving_inv_step: "serve_step s s' \<Longrightarrow> serving_inv s \<Longrightarrow> serving_inv s'"
proof (induction rule: serve_step.induct)
  case (listen_returns s r)
  then show ?case
    by (cases r rule: after_listen.cases) (auto simp: serving_inv_def reports_def split: run_pc.splits serve_end.splits)
next
  case (send s e)
  then show ?case
    by (auto simp: serving_inv_def reports_def errCh_capacity_def split: run_pc.splits serve_end.splits)
next
  case (select_err s e es)
  then have "es = []" by (simp add: serving_inv_def errCh_capacity_def)
  then show ?case using select_err by (auto simp: serving_inv_def reports_def)
qed (auto simp: serving_inv_def reports_def split: run_pc.splits serve_end.splits)

lemma serving_reachable_inv: "serve_reachable s \<Longrightarrow> serving_inv s"
  by (induction rule: serve_reachable.induct) (auto intro: serving_inv_init serving_inv_step)

section \<open>Properties\<close>

text \<open>C37. The goroutine of the server never blocks on \<open>errCh\<close> and never leaks there: whenever it has an error
  to send, there is room, whether or not anybody still receives. The \<open>select\<close> can go on as soon as an
  error is in the channel or a signal has arrived. What it reports is real: an error it returns is the
  one \<open>ListenAndServe\<close> returned, never \<open>ErrServerClosed\<close>, and then the server was not shut down; when
  it returns from a shutdown, a signal had arrived.\<close>

theorem serving_never_blocks:
  assumes "serve_reachable s"
  shows "(\<forall>e. sg_goroutine s = Sending e \<longrightarrow>
       (\<exists>s'. serve_step s s' \<and> sg_goroutine s' = Exited \<and> sg_errCh s' = [e])) \<and>
     (sg_run s = Selecting \<longrightarrow> sg_signalled s \<or> sg_errCh s \<noteq> [] \<longrightarrow> (\<exists>s'. serve_step s s' \<and> sg_run s' \<noteq> Selecting)) \<and>
     (\<forall>e. sg_run s = ServeReturned (ListenFailed e) \<longrightarrow>
       sg_result s = Some (Some (OtherListenError e)) \<and> sg_goroutine s = Exited \<and> \<not> sg_closed s) \<and>
     (\<forall>r. sg_run s = ServeReturned (Signalled r) \<longrightarrow> sg_signalled s \<and> sg_closed s)"
proof (intro conjI allI impI)
  note inv = serving_reachable_inv [OF assms, unfolded serving_inv_def]
  show "\<exists>s'. serve_step s s' \<and> sg_goroutine s' = Exited \<and> sg_errCh s' = [e]" if "sg_goroutine s = Sending e" for e
    using serve_step.send [OF that] inv that by (intro exI [of _ "s\<lparr>sg_goroutine := Exited, sg_errCh := sg_errCh s @ [e]\<rparr>"])
      (simp add: errCh_capacity_def)
  show "\<exists>s'. serve_step s s' \<and> sg_run s' \<noteq> Selecting" if "sg_run s = Selecting" "sg_signalled s \<or> sg_errCh s \<noteq> []"
  proof (cases "sg_errCh s")
    case Nil
    then show ?thesis using select_done [OF that(1)] that(2) by fastforce
  next
    case (Cons e es)
    show ?thesis using select_err [OF that(1) Cons] by fastforce
  qed
  show "sg_result s = Some (Some (OtherListenError e))" "sg_goroutine s = Exited" "\<not> sg_closed s"
    if "sg_run s = ServeReturned (ListenFailed e)" for e
    using inv that by (auto simp: reports_def)
  show "sg_signalled s" "sg_closed s" if "sg_run s = ServeReturned (Signalled r)" for r
    using inv that by auto
qed

text \<open>A listener that fails just when a signal arrives: the \<open>select\<close> may take the signal, and the goroutine
  still gets rid of its error.\<close>

definition late_failure :: serving where
  "late_failure = \<lparr>sg_goroutine = Sending ''bind'', sg_result = Some (Some (OtherListenError ''bind'')), sg_errCh = [],
     sg_signalled = True, sg_closed = True, sg_run = ServeReturned (Signalled None)\<rparr>"

lemma late_failure_reachable: "serve_reachable late_failure"
proof -
  have "serve_reachable (serving_init\<lparr>sg_signalled := True\<rparr>)"
    by (rule serving_next [OF serving_start signal])
  then have "serve_reachable (serving_init\<lparr>sg_signalled := True, sg_closed := True, sg_run := InShutdown\<rparr>)"
    using serving_next [OF _ select_done] by (fastforce simp: serving_init_def)
  then have "serve_reachable (serving_init\<lparr>sg_signalled := True, sg_closed := True,
      sg_run := ServeReturned (Signalled None)\<rparr>)"
    using serving_next [OF _ shutdown_returns [where r = None]] by (fastforce simp: serving_init_def)
  then show ?thesis
    using serving_next [OF _ listen_returns [where r = "Some (OtherListenError ''bind'')"]]
    by (fastforce simp: serving_init_def late_failure_def)
qed

theorem serving_never_blocks_witness:
  "\<exists>s'. serve_step late_failure s' \<and> sg_goroutine s' = Exited \<and> sg_errCh s' = [''bind'']"
  using serving_never_blocks [OF late_failure_reachable] by (simp add: late_failure_def)

end
