(* ===== verification/Services.thy ===== *)
theory Services
  imports Telemetry Database Webhook Serving
begin

text \<open>
  The two binaries (\<^verbatim>\<open>cmd/ingester/main.go\<close>, \<^verbatim>\<open>cmd/queryapi/main.go\<close>): the order in which \<open>run\<close>
  acquires what it needs, its returns, and its deferred calls, which Go runs last-in first-out on
  every return. The outside world is the parameter \<open>host\<close>: the process environment, the OpenTelemetry
  SDK, the database driver, the creation of instruments, and how serving ends (\<open>Serving\<close> has the steps
  that lead there). The routes and the two probes are modelled for the exact paths the code registers.
\<close>

section \<open>The ingester\<close>

record host =
  ho_environ :: environ
  ho_otel :: otel
  ho_pgx :: pgx
  ho_instrument :: "string \<Rightarrow> string \<Rightarrow> string option"
  ho_serve :: serve_end

datatype run_error =
    ConfigError config_error | TelemetryError "string list" | DatabaseError string
  | VerifierError verifier_error | MetricsError string | ServerError string

datatype run_action =
    Tele telemetry_action | Pool pool_action | ListenIngester string LiveKitHandler | ListenQuery string
  | ShutdownServer | WarnTelemetry "string list" | StopSignals

definition serviceName_ingester :: string where "serviceName_ingester = ''sap-ingester''"
definition defaultListenAddr_ingester :: string where "defaultListenAddr_ingester = '':8080''"
definition serviceName_queryapi :: string where "serviceName_queryapi = ''sap-queryapi''"
definition defaultListenAddr_queryapi :: string where "defaultListenAddr_queryapi = '':8081''"

definition deferred_telemetry :: "otel \<Rightarrow> provider list \<Rightarrow> run_action list" where
  "deferred_telemetry ot ps =
     (let (acts, errs) = unwind ot ps
      in map Tele acts @ (if errs = [] then [] else [WarnTelemetry errs]))"

fun serve_actions :: "serve_end \<Rightarrow> run_action list" where
  "serve_actions (ListenFailed e) = []"
| "serve_actions (Signalled r) = [ShutdownServer]"

fun serve_error :: "serve_end \<Rightarrow> run_error option" where
  "serve_error (ListenFailed e) = Some (ServerError e)"
| "serve_error (Signalled r) = map_option ServerError r"

definition run_ingester :: "string \<Rightarrow> host \<Rightarrow> run_action list \<times> run_error option" where
  "run_ingester version ho =
     (case LoadIngester (ho_environ ho) serviceName_ingester version defaultListenAddr_ingester of
        Inl e \<Rightarrow> ([StopSignals], Some (ConfigError e))
      | Inr cfg \<Rightarrow>
          (case Setup (ho_otel ho) (ig_Service cfg) of
             (a, Inl errs) \<Rightarrow> (map Tele a @ [StopSignals], Some (TelemetryError errs))
           | (a, Inr ps) \<Rightarrow>
               let telemetry = deferred_telemetry (ho_otel ho) ps @ [StopSignals] in
               (case Open (ho_pgx ho) (ig_DatabaseURL cfg) IngestOptions of
                  (b, Inl e) \<Rightarrow> (map Tele a @ map Pool b @ telemetry, Some (DatabaseError e))
                | (b, Inr pool) \<Rightarrow>
                    let opened = map Tele a @ map Pool b; deferred = [Pool ClosePool] @ telemetry in
                    (case NewVerifier (ig_LiveKitAPIKey cfg) (ig_LiveKitAPISecret cfg) of
                       Inl e \<Rightarrow> (opened @ deferred, Some (VerifierError e))
                     | Inr v \<Rightarrow>
                         (case NewIngest (ho_instrument ho) of
                            Inl e \<Rightarrow> (opened @ deferred, Some (MetricsError e))
                          | Inr m \<Rightarrow>
                              (opened @
                               [ListenIngester (sv_ListenAddr (ig_Service cfg))
                                  (NewLiveKitHandler v m (ig_MaxBodyBytes cfg))] @
                               serve_actions (ho_serve ho) @ deferred,
                               serve_error (ho_serve ho)))))))"

section \<open>The query API\<close>

definition run_queryapi :: "string \<Rightarrow> host \<Rightarrow> run_action list \<times> run_error option" where
  "run_queryapi version ho =
     (case LoadService (ho_environ ho) serviceName_queryapi version defaultListenAddr_queryapi of
        Inl e \<Rightarrow> ([StopSignals], Some (ConfigError e))
      | Inr cfg \<Rightarrow>
          (case Setup (ho_otel ho) cfg of
             (a, Inl errs) \<Rightarrow> (map Tele a @ [StopSignals], Some (TelemetryError errs))
           | (a, Inr ps) \<Rightarrow>
               (map Tele a @ [ListenQuery (sv_ListenAddr cfg)] @ serve_actions (ho_serve ho) @
                deferred_telemetry (ho_otel ho) ps @ [StopSignals],
                serve_error (ho_serve ho))))"

section \<open>The processes\<close>

text \<open>\<open>main\<close>: an error of \<open>run\<close> is logged as fatal and the process exits with 1.\<close>

definition exit_with :: "run_action list \<times> run_error option \<Rightarrow> run_action list \<times> run_error option \<times> int" where
  "exit_with r = (case r of (acts, Some e) \<Rightarrow> (acts, Some e, 1) | (acts, None) \<Rightarrow> (acts, None, 0))"

definition main_ingester :: "string \<Rightarrow> host \<Rightarrow> run_action list \<times> run_error option \<times> int" where
  "main_ingester version ho = exit_with (run_ingester version ho)"

definition main_queryapi :: "string \<Rightarrow> host \<Rightarrow> run_action list \<times> run_error option \<times> int" where
  "main_queryapi version ho = exit_with (run_queryapi version ho)"

section \<open>Routes and probes\<close>

datatype route = RouteHealthz | RouteReadyz | RouteLiveKit | MethodNotAllowed | NotFound

record http_response =
  hr_status :: int
  hr_content_type :: string
  hr_body :: string

text \<open>A pattern \<open>GET\<close> also serves \<open>HEAD\<close>; a path registered under another method answers 405.\<close>

definition ingester_route :: "string \<Rightarrow> string \<Rightarrow> route" where
  "ingester_route method path =
     (if path = ''/healthz'' then (if method \<in> set [''GET'', ''HEAD''] then RouteHealthz else MethodNotAllowed)
      else if path = ''/readyz'' then (if method \<in> set [''GET'', ''HEAD''] then RouteReadyz else MethodNotAllowed)
      else if path = ''/webhook/livekit'' then (if method = ''POST'' then RouteLiveKit else MethodNotAllowed)
      else NotFound)"

definition queryapi_route :: "string \<Rightarrow> string \<Rightarrow> route" where
  "queryapi_route method path =
     (if path = ''/healthz'' then (if method \<in> set [''GET'', ''HEAD''] then RouteHealthz else MethodNotAllowed)
      else NotFound)"

definition healthz :: http_response where
  "healthz = \<lparr>hr_status = 200, hr_content_type = ''text/plain; charset=utf-8'', hr_body = ''ok'' @ [CHR 0x0A]\<rparr>"

definition readyz :: "(int \<Rightarrow> string option) \<Rightarrow> http_response" where
  "readyz ping =
     (case ping (2 * nanosPerSecond) of
        Some e \<Rightarrow> \<lparr>hr_status = 503, hr_content_type = ''text/plain; charset=utf-8'',
                   hr_body = ''database unreachable'' @ [CHR 0x0A]\<rparr>
      | None \<Rightarrow> \<lparr>hr_status = 200, hr_content_type = ''text/plain; charset=utf-8'',
                 hr_body = ''ready'' @ [CHR 0x0A]\<rparr>)"

section \<open>Lemmas\<close>

definition tele_of :: "run_action list \<Rightarrow> telemetry_action list" where
  "tele_of as = List.map_filter (\<lambda>a. case a of Tele t \<Rightarrow> Some t | _ \<Rightarrow> None) as"

definition pool_of :: "run_action list \<Rightarrow> pool_action list" where
  "pool_of as = List.map_filter (\<lambda>a. case a of Pool t \<Rightarrow> Some t | _ \<Rightarrow> None) as"

lemma trace_parts [simp]:
  "tele_of (xs @ ys) = tele_of xs @ tele_of ys" "pool_of (xs @ ys) = pool_of xs @ pool_of ys"
  "tele_of (map Tele ts) = ts" "pool_of (map Tele ts) = []" "tele_of (map Pool ps) = []" "pool_of (map Pool ps) = ps"
  "tele_of [] = []" "pool_of [] = []"
  "tele_of (serve_actions e) = []" "pool_of (serve_actions e) = []"
  by (auto simp: tele_of_def pool_of_def map_filter_append List.map_filter_def comp_def) (cases e; simp)+

lemma trace_single [simp]:
  "tele_of (StopSignals # as) = tele_of as" "pool_of (StopSignals # as) = pool_of as"
  "tele_of (ListenIngester a h # as) = tele_of as" "pool_of (ListenIngester a h # as) = pool_of as"
  "tele_of (ListenQuery a # as) = tele_of as" "pool_of (ListenQuery a # as) = pool_of as"
  "tele_of (WarnTelemetry es # as) = tele_of as" "pool_of (WarnTelemetry es # as) = pool_of as"
  "tele_of (Pool p # as) = tele_of as" "pool_of (Pool p # as) = p # pool_of as"
  by (simp_all add: tele_of_def pool_of_def List.map_filter_def)

lemma deferred_telemetry_parts [simp]:
  "tele_of (deferred_telemetry ot ps) = fst (unwind ot ps)" "pool_of (deferred_telemetry ot ps) = []"
  by (auto simp: deferred_telemetry_def case_prod_beta Let_def)

text \<open>The four shapes of a run of the ingester.\<close>

definition ingester_end :: "otel \<Rightarrow> provider list \<Rightarrow> run_action list" where
  "ingester_end ot ps = [Pool ClosePool] @ deferred_telemetry ot ps @ [StopSignals]"

lemma run_ingester_cases [consumes 0, case_names early nodb failed served]:
  obtains (early) a where "fst (run_ingester version ho) = map Tele a @ [StopSignals]" "running [] a = []"
  | (nodb) a b ps svc where "Setup (ho_otel ho) svc = (a, Inr ps)" "\<not> pool_open b"
      "fst (run_ingester version ho) = map Tele a @ map Pool b @ deferred_telemetry (ho_otel ho) ps @ [StopSignals]"
  | (failed) a b ps svc where "Setup (ho_otel ho) svc = (a, Inr ps)"
      "fst (run_ingester version ho) = map Tele a @ map Pool b @ ingester_end (ho_otel ho) ps"
  | (served) a b ps cfg v m c where
      "LoadIngester (ho_environ ho) serviceName_ingester version defaultListenAddr_ingester = Inr cfg"
      "Setup (ho_otel ho) (ig_Service cfg) = (a, Inr ps)"
      "Open (ho_pgx ho) (ig_DatabaseURL cfg) IngestOptions = (b, Inr c)"
      "NewVerifier (ig_LiveKitAPIKey cfg) (ig_LiveKitAPISecret cfg) = Inr v"
      "NewIngest (ho_instrument ho) = Inr m"
      "fst (run_ingester version ho) = map Tele a @ map Pool b @
         [ListenIngester (sv_ListenAddr (ig_Service cfg)) (NewLiveKitHandler v m (ig_MaxBodyBytes cfg))] @
         serve_actions (ho_serve ho) @ ingester_end (ho_otel ho) ps"
proof (cases "LoadIngester (ho_environ ho) serviceName_ingester version defaultListenAddr_ingester")
  case (Inl e)
  then show thesis using early [of "[]"] by (simp add: run_ingester_def)
next
  case cfg: (Inr cfg)
  obtain a r where a: "Setup (ho_otel ho) (ig_Service cfg) = (a, r)" by (metis prod.exhaust)
  obtain b q where b: "Open (ho_pgx ho) (ig_DatabaseURL cfg) IngestOptions = (b, q)" by (metis prod.exhaust)
  show thesis
  proof (cases r)
    case (Inl errs)
    then show thesis
      using early [of a] cfg a Setup_failed [of "ho_otel ho" "ig_Service cfg" a errs]
      by (simp add: run_ingester_def)
  next
    case ps: (Inr ps)
    show thesis
    proof (cases q)
      case (Inl e)
      then show thesis
        using nodb [of "ig_Service cfg" a ps b] cfg a b ps Open_pool(1) by (simp add: run_ingester_def Let_def)
    next
      case (Inr c)
      then show thesis
        using failed [of "ig_Service cfg" a ps b] served cfg a b ps
        by (cases "NewVerifier (ig_LiveKitAPIKey cfg) (ig_LiveKitAPISecret cfg)";
            cases "NewIngest (ho_instrument ho)") (simp_all add: run_ingester_def ingester_end_def Let_def)
    qed
  qed
qed

lemma not_listening [simp]:
  "ListenIngester addr h \<notin> set (deferred_telemetry ot ps)" "ListenIngester addr h \<notin> set (serve_actions e)"
  "ListenIngester addr h \<notin> set (ingester_end ot ps)"
  by (auto simp: ingester_end_def deferred_telemetry_def case_prod_beta split: if_splits) (cases e; simp)

lemma ingester_end_shape:
  assumes "Setup ot svc = (a, Inr ps)"
  shows "\<exists>warn. ingester_end ot ps =
    [Pool ClosePool, Tele (Shutdown MeterProvider), Tele (Shutdown TracerProvider)] @ warn @ [StopSignals]"
  using Setup_succeeded(4) [OF assms] by (auto simp: ingester_end_def deferred_telemetry_def case_prod_beta)

lemma ingester_end_parts:
  assumes "Setup ot svc = (a, Inr ps)"
  shows "running [] (a @ tele_of (ingester_end ot ps)) = []" "\<not> pool_open (b @ pool_of (ingester_end ot ps))"
  using Setup_succeeded [OF assms] pool_open_close [of b] by (simp_all add: ingester_end_def running_append)

lemma ingester_end_last [simp]: "ingester_end ot ps \<noteq> []" "last (ingester_end ot ps) = StopSignals"
  by (simp_all add: ingester_end_def)

text \<open>The process exits with 0 exactly when it has listened, a signal arrived, and the shutdown was clean.\<close>

lemma serve_error_None: "serve_error e = None \<longleftrightarrow> e = Signalled None"
  by (cases e) auto

lemma main_ingester_exit:
  "snd (snd (main_ingester version ho)) = 0 \<longleftrightarrow>
     ho_serve ho = Signalled None \<and> (\<exists>addr h. ListenIngester addr h \<in> set (fst (run_ingester version ho)))"
proof -
  have "snd (snd (main_ingester version ho)) = 0 \<longleftrightarrow> snd (run_ingester version ho) = None"
    by (auto simp: main_ingester_def exit_with_def split: prod.splits option.splits)
  also have "\<dots> \<longleftrightarrow> ho_serve ho = Signalled None \<and> (\<exists>addr h. ListenIngester addr h \<in> set (fst (run_ingester version ho)))"
    unfolding run_ingester_def by (auto simp: serve_error_None Let_def split: sum.splits prod.splits)
  finally show ?thesis .
qed

section \<open>Properties\<close>

text \<open>The environment of a healthy start, for the examples.\<close>

definition demo_host :: host where
  "demo_host =
     \<lparr>ho_environ = [''SAP_LIVEKIT_API_KEY'' \<mapsto> ''devkey'', ''SAP_LIVEKIT_API_SECRET'' \<mapsto> ''secret''],
      ho_otel = \<lparr>ot_resource = (\<lambda>_. None), ot_traceExporter = (\<lambda>_. None), ot_metricExporter = (\<lambda>_. None),
                 ot_runtime = None, ot_shutdown = (\<lambda>_. None)\<rparr>,
      ho_pgx = \<lparr>px_ParseConfig = (\<lambda>u. Inr \<lparr>pc_MaxConns = 4, pc_MinConns = 0, pc_MaxConnLifetime = 0,
        pc_MaxConnIdleTime = 0, pc_HealthCheckPeriod = 0, pc_ConnectTimeout = 0, pc_RuntimeParams = None,
        pc_Address = u\<rparr>), px_NewWithConfig = (\<lambda>_. None), px_Ping = (\<lambda>_. None)\<rparr>,
      ho_instrument = (\<lambda>n u. None), ho_serve = Signalled None\<rparr>"

lemma demo_host_listens: "\<exists>addr h. ListenIngester addr h \<in> set (fst (run_ingester ''dev'' demo_host))"
proof -
  have addr: "defaultListenAddr_ingester \<noteq> []" by (simp add: defaultListenAddr_ingester_def)
  obtain cfg where cfg: "LoadIngester (ho_environ demo_host) serviceName_ingester ''dev'' defaultListenAddr_ingester = Inr cfg"
      "ig_LiveKitAPISecret cfg = ''secret''"
    unfolding LoadIngester_cases [OF addr] by (simp add: demo_host_def given_def intEnv_def)
  have "first_error (ho_instrument demo_host) instruments = None"
    by (simp add: first_error_None demo_host_def)
  then obtain m where m: "NewIngest (ho_instrument demo_host) = Inr m" by (simp add: NewIngest_cases)
  obtain a ps where a: "Setup (ho_otel demo_host) (ig_Service cfg) = (a, Inr ps)"
    by (simp add: Setup_def newResource_def demo_host_def Let_def)
  obtain b c where b: "Open (ho_pgx demo_host) (ig_DatabaseURL cfg) IngestOptions = (b, Inr c)"
    by (simp add: Open_def demo_host_def Let_def)
  obtain v where v: "NewVerifier (ig_LiveKitAPIKey cfg) (ig_LiveKitAPISecret cfg) = Inr v"
    using cfg(2) by (simp add: NewVerifier_def)
  have "ListenIngester (sv_ListenAddr (ig_Service cfg)) (NewLiveKitHandler v m (ig_MaxBodyBytes cfg))
      \<in> set (fst (run_ingester ''dev'' demo_host))"
    by (simp add: run_ingester_def cfg(1) a b v m Let_def)
  then show ?thesis by blast
qed

text \<open>C39. Whatever fails and however serving ends, when \<open>run\<close> of the ingester returns no telemetry
  provider is running and no connection pool is open, and the signal handler is removed last. When
  it has listened, the server is shut down (on a signal) before the pool is closed, and the pool
  before the providers are, the meter provider first.\<close>

theorem run_ingester_releases_everything:
  "running [] (tele_of (fst (run_ingester version ho))) = [] \<and>
   \<not> pool_open (pool_of (fst (run_ingester version ho))) \<and>
   last (fst (run_ingester version ho)) = StopSignals \<and>
   (\<forall>addr h. ListenIngester addr h \<in> set (fst (run_ingester version ho)) \<longrightarrow>
      (\<exists>pre warn. fst (run_ingester version ho) =
         pre @ [ListenIngester addr h] @ serve_actions (ho_serve ho) @
         [Pool ClosePool, Tele (Shutdown MeterProvider), Tele (Shutdown TracerProvider)] @ warn @ [StopSignals]))"
proof (cases rule: run_ingester_cases [of version ho])
  case (early a)
  then show ?thesis by (auto simp: pool_open_def)
next
  case (nodb a b ps svc)
  then show ?thesis using Setup_succeeded [OF nodb(1)] by (auto simp: running_append)
next
  case (failed a b ps svc)
  then show ?thesis using ingester_end_parts [OF failed(1)] by auto
next
  case (served a b ps cfg v m c)
  define addr0 h0 where l: "addr0 = sv_ListenAddr (ig_Service cfg)" "h0 = NewLiveKitHandler v m (ig_MaxBodyBytes cfg)"
  have run: "fst (run_ingester version ho) = (map Tele a @ map Pool b) @ [ListenIngester addr0 h0] @
      serve_actions (ho_serve ho) @ ingester_end (ho_otel ho) ps"
    using served(6) by (simp add: l)
  have only: "addr = addr0 \<and> h = h0" if "ListenIngester addr h \<in> set (fst (run_ingester version ho))" for addr h
    using that unfolding run by auto
  have "\<exists>pre warn. fst (run_ingester version ho) =
      pre @ [ListenIngester addr0 h0] @ serve_actions (ho_serve ho) @
      [Pool ClosePool, Tele (Shutdown MeterProvider), Tele (Shutdown TracerProvider)] @ warn @ [StopSignals]"
    using ingester_end_shape [OF served(2)] unfolding run by (elim exE, intro exI) (simp only:)
  moreover have "running [] (tele_of (fst (run_ingester version ho))) = []"
      "\<not> pool_open (pool_of (fst (run_ingester version ho)))" "last (fst (run_ingester version ho)) = StopSignals"
    using ingester_end_parts [OF served(2)] by (simp_all add: run)
  ultimately show ?thesis using only by blast
qed

theorem run_ingester_releases_everything_witness:
  "\<exists>addr h pre warn. fst (run_ingester ''dev'' demo_host) =
     pre @ [ListenIngester addr h] @ serve_actions (ho_serve demo_host) @
     [Pool ClosePool, Tele (Shutdown MeterProvider), Tele (Shutdown TracerProvider)] @ warn @ [StopSignals]"
  using demo_host_listens run_ingester_releases_everything [of "''dev''" demo_host] by blast

text \<open>C38. The ingester listens only when it can authenticate: a run that listens has loaded its
  configuration, installed its telemetry, reached its database and built its instruments, and the
  handler it serves verifies with the API key and the secret of the environment, both non-empty, and
  caps bodies at a positive size. The verifier is never what stops a run: configuration has already
  refused an empty secret.\<close>

theorem ingester_listens_only_authenticated:
  "(\<forall>addr h. ListenIngester addr h \<in> set (fst (run_ingester version ho)) \<longrightarrow>
      (\<exists>key secret. ho_environ ho ''SAP_LIVEKIT_API_KEY'' = Some key \<and> key \<noteq> [] \<and>
         ho_environ ho ''SAP_LIVEKIT_API_SECRET'' = Some secret \<and> secret \<noteq> [] \<and>
         h_verifier h = \<lparr>vf_apiKey = key, vf_apiSecret = secret\<rparr>) \<and>
      0 < h_maxBodyBytes h \<and> NewIngest (ho_instrument ho) = Inr (h_metrics h) \<and>
      px_Ping (ho_pgx ho) (op_ConnectTimeout IngestOptions) = None \<and> addr \<noteq> []) \<and>
   (\<forall>e. snd (run_ingester version ho) \<noteq> Some (VerifierError e))"
proof -
  have addr: "defaultListenAddr_ingester \<noteq> []" by (simp add: defaultListenAddr_ingester_def)
  note load = LoadIngester_cases [OF addr, of "ho_environ ho" serviceName_ingester version]
  have listen: "\<forall>addr h. ListenIngester addr h \<in> set (fst (run_ingester version ho)) \<longrightarrow>
      (\<exists>key secret. ho_environ ho ''SAP_LIVEKIT_API_KEY'' = Some key \<and> key \<noteq> [] \<and>
         ho_environ ho ''SAP_LIVEKIT_API_SECRET'' = Some secret \<and> secret \<noteq> [] \<and>
         h_verifier h = \<lparr>vf_apiKey = key, vf_apiSecret = secret\<rparr>) \<and>
      0 < h_maxBodyBytes h \<and> NewIngest (ho_instrument ho) = Inr (h_metrics h) \<and>
      px_Ping (ho_pgx ho) (op_ConnectTimeout IngestOptions) = None \<and> addr \<noteq> []"
  proof (cases rule: run_ingester_cases [of version ho])
    case (served a b ps cfg v m c)
    then show ?thesis
      using load Open_pool(2) [OF served(3)] addr
      by (auto simp: NewVerifier_def NewLiveKitHandler_def given_def env_or_Nil split: if_splits)
  qed auto
  have "NewVerifier (ig_LiveKitAPIKey cfg) (ig_LiveKitAPISecret cfg) \<noteq> Inl e"
    if "LoadIngester (ho_environ ho) serviceName_ingester version defaultListenAddr_ingester = Inr cfg" for cfg e
    using that load by (auto simp: NewVerifier_def given_def split: if_splits)
  then have "snd (run_ingester version ho) \<noteq> Some (VerifierError e)" for e
    unfolding run_ingester_def
    by (cases "ho_serve ho") (auto simp: Let_def split: sum.splits prod.splits)
  then show ?thesis using listen by blast
qed

theorem ingester_listens_only_authenticated_witness:
  "\<exists>addr h. ListenIngester addr h \<in> set (fst (run_ingester ''dev'' demo_host)) \<and> 0 < h_maxBodyBytes h \<and> addr \<noteq> []"
  using demo_host_listens ingester_listens_only_authenticated [of "''dev''" demo_host] by blast

end
