(* ===== verification/Spec2Isabelle.thy ===== *)
theory Spec2Isabelle
  imports Alerts Concurrent_Views Receiver_Serial Restarts Rooms Row_Locks Sender Services
begin

text \<open>
  \<^bold>\<open>Session analysis platform: the write path.\<close>

  The program receives webhooks of a media backend (LiveKit), authenticates them, translates them
  into canonical events, stores every event in \<^verbatim>\<open>event_raw\<close> and keeps \<^verbatim>\<open>participant_join\<close>, one row
  per stay of a participant in a room, from the events that open and close it. Delivery is
  at-least-once and out of order; the correctness of the program is that redelivery changes nothing,
  that an event and its effect on the joins are one unit, that nothing is inferred that was not
  observed, and that what it could not do is counted.

  \<^bold>\<open>Parts and theories.\<close> A request enters \<open>ServeHTTP\<close> (\<^verbatim>\<open>internal/ingest/webhook/handler.go\<close>), which
  calls \<open>Verify\<close> and \<open>Translate\<close> of the LiveKit adapter, then \<open>RecordEvent\<close> of the store, and reports
  through the metrics. \<open>run\<close> of \<^verbatim>\<open>cmd/ingester\<close> wires these up from the configuration.

  \<^item> \<open>Go_Prelude\<close>, \<open>Go_Time\<close>, \<open>Go_Strconv\<close>, \<open>Go_Json\<close>, \<open>Go_Crypto\<close>: what the sources use of Go's
    standard library. \<open>int64\<close> wrap-around is written out; a time is seconds and nanoseconds since
    year 1, printed by \<open>format_rfc3339nano\<close>, which is proved injective on instants; JSON is the scanner
    of \<^verbatim>\<open>encoding/json\<close> as a step machine over bytes, with a printer it inverts; \<open>ParseInt\<close>,
    \<open>TrimSpace\<close>, SHA-256, base64 and the constant-time comparison are executable definitions.
  \<^item> \<open>Session\<close>: the vocabulary of \<^verbatim>\<open>internal/session/session.go\<close>.
  \<^item> \<open>Event_Id\<close>: the derivation of event ids (\<^verbatim>\<open>internal/ingest/eventid/eventid.go\<close>). \<open>uuid.NewSHA1\<close> is
    a parameter. The length-prefixed encoding is the locale \<open>prefix_code\<close>, interpreted on
    \<open>encode_field\<close>; the fields hashed are equal exactly for the same event.
  \<^item> \<open>Livekit_Translate\<close>: \<^verbatim>\<open>translate.go\<close> and \<^verbatim>\<open>jsonnum.go\<close>, from the bytes of the body to the event, with
    \<open>encoding/json\<close>'s decoding of the payload struct. The locale \<open>field_setters\<close> (interpreted for the
    four structs) carries the independence of the order of members.
  \<^item> \<open>Livekit_Verify\<close>: \<^verbatim>\<open>verify.go\<close>. The JWT library is a parameter; its documented behaviour is the
    hypothesis \<open>jwt_contract\<close>, which \<open>reference_parse\<close> satisfies.
  \<^item> \<open>Store\<close>: \<^verbatim>\<open>internal/ingest/store/store.go\<close>. The interface \<open>Writer\<close> is the locale \<open>writer\<close>; what any
    sequence of deliveries, redeliveries and retries does is proved from its laws.
  \<^item> \<open>Postgres\<close>: \<^verbatim>\<open>internal/ingest/store/postgres/postgres.go\<close> with the schema of \<^verbatim>\<open>migrations/\<close>. Tables are
    lists of rows; every SQL statement of the file is a definition, read by the meaning of SQL and
    the constraints of the schema; \<open>RecordEvent\<close>, \<open>applyJoinEffect\<close>, \<open>close\<close>, \<open>classifyClose\<close>,
    \<open>isPartitionMissing\<close> and \<open>nullable\<close> are the Go functions. The environment \<open>env\<close> of a call decides
    the faults: any statement may fail with any error, and a commit may fail or be applied with its
    acknowledgement lost. The conversion of a Go time to a \<open>timestamptz\<close> is the parameter \<open>ts\<close>.
  \<^item> \<open>Postgres_Invariant\<close>: reachable states (\<open>db_step\<close>, \<open>db_reachable\<close>), their invariant \<open>db_inv\<close>, the
    interpretation \<open>pg\<close> of \<open>writer\<close>, the abstract specification \<open>row_effect\<close>/\<open>replays\<close> with the proof that
    the joins refine it, growth and counts.
  \<^item> \<open>Postgres_Concurrent\<close>: the same calls, any number at a time. A call is a transaction \<open>tx\<close> with a program
    counter; \<open>advance\<close> runs one statement of it, or its commit, against the committed tables with the
    meaning of READ COMMITTED: an insert waits for an uncommitted row with its key, an update for the row
    locks of others, after which it checks its condition again. \<open>run_schedule\<close> runs a sequence of
    steps, statement faults and lost acknowledgements. The locale \<open>interleaving\<close> has the frame rules
    of a family of processes; it is interpreted for \<open>compatible\<close> (who owns which event and which
    join) and for \<open>disjoint_ends\<close> (who has locked which join).
  \<^item> \<open>Postgres_Schedules\<close>: what holds of all schedules: exactly once, the agreement of a call alone with
    \<open>RecordEvent\<close>, when the end of a join is final, and the steps a call still has to make.
    \<open>Schedule_Counts\<close> adds up what the calls of a schedule report, against the rows of the tables.
  \<^item> \<open>Serial_Order\<close>: concurrent calls against sequential ones. For every schedule without the identity fallback
    there is an order of the same calls, one after the other, with the same rows and results: the closes
    in the order of their commits, each after the joins it ended, then the open joins, then the rest, and
    last the redeliveries. A close
    misses no join that was open at the start (\<open>covers\<close>), so the start may be any state of the tables.
  \<^item> \<open>Concurrent_Views\<close>: the tables under concurrent calls. Without the fallback they are the replay of their rows in some
    order; what of the history is never rewritten, and that a fallback which waited writes over a committed end.
  \<^item> \<open>Rooms\<close>: the view of one room. The locale \<open>projection\<close> has the argument for a view that some of the
    deliveries respect and the others leave alone; it is interpreted on \<open>RecordEvent\<close> and \<open>room_view\<close>.
  \<^item> \<open>Sessions\<close>: sessions are derived when read. The stages of \<^verbatim>\<open>benchmarks/reference_query.sql\<close> are
    definitions over the rows of \<^verbatim>\<open>participant_join\<close>; the specification \<open>split_gaps\<close> cuts the joins of a
    participant where the gap is unknown or too long. The methods of \<open>Session\<close> are compared with the
    columns of the query.
  \<^item> \<open>Metrics\<close>: \<^verbatim>\<open>internal/ingest/metrics/metrics.go\<close>; a counter is the sum of the calls to \<open>Add\<close>.
  \<^item> \<open>Webhook\<close>: the handler, with everything it does besides the store as a list of effects in order.
    \<open>fate_of\<close> and \<open>answer\<close> are its specification.
  \<^item> \<open>Receiver\<close>: the handler over the PostgreSQL writer, one request after the other (\<open>handle_all\<close>).
  \<^item> \<open>Receiver_Concurrent\<close>: any number of requests at a time, as the HTTP server runs them. A request is before
    the store, inside \<open>RecordEvent\<close> with a transaction of \<open>Postgres_Concurrent\<close>, or answered; \<open>receiver_step\<close>
    moves one of them, or the store. The invariant ties each request to its transaction and its effects to
    those of the sequential handler.
  \<^item> \<open>Row_Locks\<close>: the same receiver with the row locks of an update taken one at a time, in any order. \<open>lock_step\<close> adds to the
    steps of the store the lock of a row, an error at a locked row, and the end of a call that waits in a circle
    (\<open>deadlocked\<close>; \<open>deadlock_arises\<close> has one). Every run is one of \<open>Receiver_Concurrent\<close> (\<open>coarse\<close>), where a row lock is no
    step and a victim's end is a fault.
  \<^item> \<open>Receiver_Serial\<close>: concurrent requests against a sequence of requests, from \<open>Serial_Order\<close>.
  \<^item> \<open>Restarts\<close>: the receiver over crashes and restarts. A life is a run of the concurrent receiver stopped at any point;
    the next starts from the committed tables. The locale \<open>durable\<close> carries what one life promises over any number of
    them; it is interpreted on the receiver, and every \<open>writer\<close> is one (a \<open>sublocale\<close>), a call at a time.
  \<^item> \<open>Sender\<close>: the backend's side, delivering a body until it is answered 200, with other requests in between.
  \<^item> \<open>Alerts\<close>: the request counter selected by labels, as the alert in the comment of \<open>Request\<close> reads it.
  \<^item> \<open>Config\<close>, \<open>Database\<close>, \<open>Telemetry\<close>, \<open>Services\<close>: \<^verbatim>\<open>internal/config\<close>, \<^verbatim>\<open>internal/database\<close>,
    \<^verbatim>\<open>internal/telemetry\<close> and the two commands, with the SDK, the driver and the process environment as
    parameters and the acquisition and release of resources as lists of actions.
  \<^item> \<open>Serving\<close>: how both commands serve and stop, as a step relation over the server's goroutine, the
    channel of its error, the signal and the \<open>select\<close>.

  \<^bold>\<open>What is shown.\<close> Of the store: the invariant with the provenance of every start and end; that the
  joins of calls one at a time are a replay of the events; atomicity under faults; idempotence of redelivery and of retries;
  the effect of each event type on every branch; the
  classification of database errors. Of concurrent calls: that an event is stored once however its
  deliveries interleave, that stored events stay and an ended join stays ended, and that without the identity fallback ends are final,
  the joins are a replay of the events in some order, and every interleaving has the effect of a sequential run. Of rooms: that each depends on its own
  deliveries only. Of the derived sessions: that the query computes the specification, that a longer threshold
  merges sessions, and which joins a window misses. Of the receiver: one answer and one measurement per delivery; that
  only verified, decodable deliveries in scope reach the writer; that nothing of an unverified one
  goes anywhere. Of concurrent requests: that each is answered as the sequential handler answers, with
  an answer that is true of the tables, within eight steps besides its row locks, some of them with an error when
  closes wait for each other in a circle; that one delivery of a body at most is
  counted as stored; that the counters are the rows added; and that the alert's ratio counts the
  deliveries it names. Of the process over its restarts: that no acknowledged delivery is lost and no event is
  counted twice, whenever it is stopped. Of the protocol with the sender: that delivering until the answer is 200 has the
  effect of one delivery, and ends once an attempt meets no fault. Of the adapter: what an accepted token is, that it is bound to the body, and how bytes
  become a well-formed event. Of the ids: that equal ids are equal events or a collision of the hash. Across
  components (below): that the counters are the numbers of rows, what an answer tells the sender, and
  that the same body is recorded once. The development also shows where the code departs from its
  comments: a close refused as out of order discards its event, although the handler's comment says it
  is stored (\<open>close_out_of_order_drops_event\<close>); a close by identity that waited for another close writes over its end
  (\<open>concurrent_fallback_rewrites_end\<close>); a join that ends at the instant it starts is in no window
  (\<open>window_omits_instant_joins\<close>).

  \<^bold>\<open>Bounds.\<close> No definition uses fuel in place of a loop's end: \<open>itoa\<close>, the JSON scanner and the trimming
  loops terminate by measures; SHA-256 runs over the blocks of the padded message. Numbers are
  mathematical integers with the wrap-around written where the code can reach it.

  \<^bold>\<open>What is not modelled.\<close> Row locks are those of \<open>participant_join\<close>'s rows; when PostgreSQL looks for a deadlock
  (\<^verbatim>\<open>deadlock_timeout\<close>) and whom it picks is open. That PostgreSQL refuses a value (a NUL or invalid UTF-8 in a
  text or \<^verbatim>\<open>jsonb\<close> column) is one of the faults the environment decides. The requests of the HTTP server are taken as they
  reach the handler: connections, timeouts and the waiting of \<open>Shutdown\<close> for requests under way are
  those of \<open>net/http\<close>. A crash is the end of a process at any step; that committed rows survive it and open
  transactions do not is what PostgreSQL promises. Not modelled are the text of log lines beyond their fields, the descriptions of
  instruments, and path cleaning of the router. The packages of the read path, the pipeline and the
  mediasoup adapter are documentation without code.
\<close>

section \<open>Properties across components\<close>

text \<open>The dashboards are the tables. From a freshly migrated database, after any sequence of
  requests (genuine, forged, malformed, duplicated, failing in the store) in which no commit is applied
  with its acknowledgement lost, \<open>sap_ingest_events_stored_total\<close> is the number of rows of \<open>event_raw\<close>,
  \<open>sap_ingest_joins_opened_total\<close> the number of joins, and \<open>sap_ingest_joins_closed_total\<close> the number of
  joins that have ended.\<close>

theorem counters_agree_with_tables:
  assumes "NewIngest create = Inr (h_metrics h)"
    and "\<forall>q \<in> set rs. \<forall>x. en_commit (fst q) \<noteq> CommitLost x"
    and "handle_all d parse ts h (migrated midnight today) rs = (db, es)"
  shows "counter (in_stored (h_metrics h)) (measured es) = int (length (db_event_raw db)) \<and>
         counter (in_joinsOpened (h_metrics h)) (measured es) = int (length (db_participant_join db)) \<and>
         counter (in_joinsClosed (h_metrics h)) (measured es) = int (closed_count (db_participant_join db))"
  using handle_all_table_counts [OF migrated_inv assms(2) NewIngest_distinct [OF assms(1)],
      of d parse ts midnight today] assms(3)
  by (simp add: table_counts_def counters_def add3_def migrated_def closed_count_def)

theorem counters_agree_with_tables_witness:
  "\<exists>db es. handle_all demo_deps (demo_parse ''{}'') demo_ts demo_handler (migrated demo_midnight 0)
       [(demo_env ''u1'', 5, demo_request ''{}'' ''token''), (demo_env ''u2'', 5, demo_request ''{}'' [])] = (db, es) \<and>
     counter (in_stored demo_ingest) (measured es) = int (length (db_event_raw db))"
proof -
  let ?rs = "[(demo_env ''u1'', 5, demo_request ''{}'' ''token''), (demo_env ''u2'', 5, demo_request ''{}'' [])]"
  obtain db es where eq: "handle_all demo_deps (demo_parse ''{}'') demo_ts demo_handler (migrated demo_midnight 0) ?rs = (db, es)"
    by (metis prod.exhaust)
  have m: "h_metrics demo_handler = demo_ingest" by (simp add: demo_handler_def NewLiveKitHandler_def)
  have "\<forall>q \<in> set ?rs. \<forall>x. en_commit (fst q) \<noteq> CommitLost x" by (simp add: demo_env_def)
  from counters_agree_with_tables [OF _ this eq, where create = "\<lambda>n u. None :: nat option"] show ?thesis
    using demo_NewIngest eq by (auto simp: m)
qed

text \<open>C12. What an answer means to the sender of a verified, decodable event in scope. It is 200 or
  500. After a 200 the event is recorded, with two exceptions in which the tables are unchanged and
  the event is lost: no partition covers it, or it is a close refused as out of order (which is
  answered like an accepted event). After a 500 nothing has changed, unless the acknowledgement of
  the commit was lost, and then the event is recorded; a retry is safe in both cases.\<close>

theorem answer_tells_the_sender:
  assumes "db_inv db" "NewIngest create = Inr (h_metrics h)" "http_fate d parse h r = Handled ev disp"
    and "ServeHTTP d parse (RecordEvent ts) h e elapsed db r = (db', es)"
  shows "response es = [200] \<and>
           (event_identity ts ev \<in> recorded_keys db' \<or>
            db' = db \<and> snd (snd (RecordEvent ts e db ev)) \<in> {Some ErrPartitionMissing, Some ErrCloseOutOfOrder}) \<or>
         response es = [500] \<and>
           (db' = db \<or> event_identity ts ev \<in> recorded_keys db' \<and> (\<exists>x. en_commit e = CommitLost x))"
proof -
  obtain db1 res err where eq: "RecordEvent ts e db ev = (db1, res, err)" by (metis prod_cases3)
  have db': "db' = db1"
    using ServeHTTP_state [of d parse "RecordEvent ts" h e elapsed db r] assms(3,4) eq by simp
  have status: "response es = [case err of Some (OtherError t) \<Rightarrow> 500 | _ \<Rightarrow> 200]"
    using handled_status [OF NewIngest_distinct [OF assms(2)] assms(3), of ts e elapsed db] assms(4) eq by simp
  show ?thesis
    by (rule RecordEvent_cases [OF eq])
      (use status eq db' in \<open>auto simp: recorded_keys_def split: option.splits store_error.splits\<close>)
qed

theorem answer_tells_the_sender_witness:
  "\<exists>db' es. ServeHTTP demo_deps (demo_parse demo_body) (RecordEvent demo_ts) demo_receiver (demo_env ''u1'') 5
       demo_empty (demo_request demo_body ''token'') = (db', es) \<and>
     (response es = [200] \<and>
        (event_identity demo_ts demo_joined \<in> recorded_keys db' \<or>
         db' = demo_empty \<and> snd (snd (RecordEvent demo_ts (demo_env ''u1'') demo_empty demo_joined)) \<in>
           {Some ErrPartitionMissing, Some ErrCloseOutOfOrder}) \<or>
      response es = [500] \<and>
        (db' = demo_empty \<or> event_identity demo_ts demo_joined \<in> recorded_keys db' \<and>
           (\<exists>x. en_commit (demo_env ''u1'') = CommitLost x)))"
proof -
  have m: "NewIngest (\<lambda>n u. None :: nat option) = Inr (h_metrics demo_receiver)"
    using demo_NewIngest by (simp add: demo_receiver_def NewLiveKitHandler_def)
  obtain db' es where "ServeHTTP demo_deps (demo_parse demo_body) (RecordEvent demo_ts) demo_receiver (demo_env ''u1'') 5
      demo_empty (demo_request demo_body ''token'') = (db', es)" by (metis prod.exhaust)
  with answer_tells_the_sender [OF demo_empty_inv m demo_fate this] show ?thesis by blast
qed

text \<open>C10. Redelivery is idempotent end to end. Once a delivery has been acknowledged with its event
  recorded, any later delivery of the same bytes, under any token that verifies and after any other
  requests, leaves the tables exactly as it finds them, whatever the environment does.\<close>

theorem same_body_is_recorded_once:
  assumes "db_inv db" "http_fate d parse h r = Handled ev disp"
    and "snd (snd (RecordEvent ts e db ev)) = None"
    and "ServeHTTP d parse (RecordEvent ts) h e elapsed db r = (db1, es)"
    and "handle_all d parse ts h db1 rs = (db2, es')" and "rq_body r' = rq_body r"
  shows "fst (ServeHTTP d parse (RecordEvent ts) h e' elapsed' db2 r') = db2"
proof -
  have db1: "db1 = fst (RecordEvent ts e db ev)"
    using ServeHTTP_state [of d parse "RecordEvent ts" h e elapsed db r] assms(2,4) by simp
  have inv1: "db_inv db1" using RecordEvent_inv [OF assms(1)] by (simp add: db1)
  have inv2: "db_inv db2" and keys: "recorded_keys db1 \<subseteq> recorded_keys db2"
    using handle_all_keeps [OF inv1, of d parse ts h rs] assms(5) by simp_all
  have rec: "event_identity ts ev \<in> recorded_keys db2"
    using pg.writer_acknowledged [OF assms(1,3)] keys by (auto simp: db1)
  have body: "Translate d (rq_body r) 0 = (ev, disp, None)"
    using assms(2) unfolding http_fate_def fate_of_def read_body_def
    by (auto split: if_splits read_end.splits prod.splits option.splits)
  show ?thesis
  proof (cases "http_fate d parse h r'")
    case (Handled ev' disp')
    then have "Translate d (rq_body r') 0 = (ev', disp', None)"
      unfolding http_fate_def fate_of_def read_body_def
      by (auto split: if_splits read_end.splits prod.splits option.splits)
    then have "ev' = ev" using body assms(6) by simp
    then show ?thesis
      using pg.writer_redelivery [OF inv2 rec] Handled by (simp add: ServeHTTP_state)
  qed (simp_all add: ServeHTTP_state)
qed

theorem same_body_is_recorded_once_witness:
  "\<exists>db1 es. ServeHTTP demo_deps (demo_parse demo_body) (RecordEvent demo_ts) demo_receiver (demo_env ''u1'') 5
       demo_empty (demo_request demo_body ''token'') = (db1, es) \<and>
     fst (ServeHTTP demo_deps (demo_parse demo_body) (RecordEvent demo_ts) demo_receiver (demo_env ''u2'') 7
       db1 (demo_request demo_body ''token2'')) = db1"
proof -
  obtain db1 es where eq: "ServeHTTP demo_deps (demo_parse demo_body) (RecordEvent demo_ts) demo_receiver (demo_env ''u1'') 5
      demo_empty (demo_request demo_body ''token'') = (db1, es)" by (metis prod.exhaust)
  have "handle_all demo_deps (demo_parse demo_body) demo_ts demo_receiver db1 [] = (db1, [])" by simp
  moreover have "rq_body (demo_request demo_body ''token2'') = rq_body (demo_request demo_body ''token'')"
    by (simp add: demo_request_def)
  ultimately show ?thesis
    using same_body_is_recorded_once [OF demo_empty_inv demo_fate demo_recorded eq] eq by blast
qed

end
